(* ===== verification/Scp_Prelude.thy ===== *)
theory Scp_Prelude
  imports
    Main
    "HOL-Library.Word"
    "HOL-Library.List_Lexorder"
    "HOL-Library.Option_ord"
    "HOL-Library.Product_Lexorder"
    "HOL-Library.Monad_Syntax"
    "HOL-Library.AList"
    "HOL-Library.Multiset"
begin

section \<open>Prelude: the parts of Rust the consensus crates use\<close>

text \<open>
  Shared by every theory of the development.
  \<^item> Machine integers are words; \<open>+\<close>, \<open>-\<close> and \<open>*\<close> wrap, as they do in the release
    profile of \<^verbatim>\<open>src/Cargo.toml\<close> (\<^verbatim>\<open>overflow-checks = false\<close>).
  \<^item> A computation that can abort has type \<open>'a run\<close>, an option: \<open>None\<close> is an abnormal end
    of the thread (a failed \<^verbatim>\<open>assert!\<close>, \<^verbatim>\<open>unwrap\<close>, \<^verbatim>\<open>expect\<close>, an index out of range, or a
    recursion that exhausts the stack), \<open>Some x\<close> is a normal return.
  \<^item> \<^verbatim>\<open>Ord::cmp\<close> is a function into \<open>rust_ordering\<close>; the contract of the trait is the locale
    \<open>rust_ord\<close>, and \<^verbatim>\<open>slice::sort_by\<close> is specified against it.
  \<^item> A \<^verbatim>\<open>HashMap\<close> is an association list, a \<^verbatim>\<open>HashSet\<close> or \<^verbatim>\<open>BTreeSet\<close> a set.
\<close>

named_theorems run_simps \<open>rewriting of aborting computations that are known to return\<close>
named_theorems frame_simps \<open>fields an operation does not write\<close>

type_synonym u8 = "8 word"
type_synonym u32 = "32 word"
type_synonym u64 = "64 word"
type_synonym 'a run = "'a option"

subsection \<open>Computations that can abort\<close>

definition rust_assert :: "bool \<Rightarrow> unit run" where
  "rust_assert b = (if b then Some () else None)"

lemma rust_assert_bind [run_simps]:
  "(rust_assert b \<bind> f) = Some y \<longleftrightarrow> b \<and> f () = Some y"
  by (simp add: rust_assert_def)

lemma rust_assert_True [simp]: "b \<Longrightarrow> rust_assert b \<bind> f = f ()"
  by (simp add: rust_assert_def)

lemma rust_assert_eq_Some [simp]: "rust_assert b = Some u \<longleftrightarrow> b"
  by (simp add: rust_assert_def)

declare bind_eq_Some_conv [run_simps]

text \<open>The same as eliminations, for taking a long computation apart.\<close>

lemma run_bindE:
  assumes "(x \<bind> f) = Some y"
  obtains z where "x = Some z" and "f z = Some y"
  using assms by (auto simp: bind_eq_Some_conv)

lemma run_assertE:
  assumes "(rust_assert b \<bind> f) = Some y"
  obtains "b" and "f () = Some y"
  using assms by (auto simp: rust_assert_bind)

lemmas run_elims = run_assertE run_bindE

text \<open>
  A loop over an unordered collection that keeps the elements for which a test returns
  true. The loop aborts when the test aborts on some element; the order does not matter.
\<close>

definition set_filterM :: "('a \<Rightarrow> bool run) \<Rightarrow> 'a set \<Rightarrow> 'a set run" where
  "set_filterM P S =
     (if \<exists>x \<in> S. P x = None then None else Some (Set.filter (\<lambda>x. P x = Some True) S))"

lemma set_filterM_SomeD:
  "set_filterM P S = Some T \<Longrightarrow> T = {x \<in> S. P x = Some True}"
  by (auto simp: set_filterM_def split: if_splits)

lemma set_filterM_total:
  "(\<And>x. x \<in> S \<Longrightarrow> P x \<noteq> None) \<Longrightarrow> \<exists>T. set_filterM P S = Some T"
  by (auto simp: set_filterM_def)

fun list_filterM :: "('a \<Rightarrow> bool run) \<Rightarrow> 'a list \<Rightarrow> 'a list run" where
  "list_filterM P [] = Some []"
| "list_filterM P (x # xs) =
     do { b \<leftarrow> P x; ys \<leftarrow> list_filterM P xs; Some (if b then x # ys else ys) }"

lemma list_filterM_SomeD:
  "list_filterM P xs = Some ys \<Longrightarrow> ys = filter (\<lambda>x. P x = Some True) xs"
  by (induction xs arbitrary: ys) (auto simp: run_simps)

lemma list_filterM_total:
  "(\<And>x. x \<in> set xs \<Longrightarrow> P x \<noteq> None) \<Longrightarrow> \<exists>ys. list_filterM P xs = Some ys"
proof (induction xs)
  case (Cons x xs)
  then obtain b ys where "P x = Some b" and "list_filterM P xs = Some ys" by fastforce
  then show ?case by simp
qed simp

subsection \<open>Three-valued comparison and the contract of \<^verbatim>\<open>Ord\<close>\<close>

datatype rust_ordering = Less | Equal | Greater

fun reverse_ordering :: "rust_ordering \<Rightarrow> rust_ordering" where
  "reverse_ordering Less = Greater"
| "reverse_ordering Equal = Equal"
| "reverse_ordering Greater = Less"

text \<open>\<^verbatim>\<open>cmp\<close> of a type whose order is the linear order of its HOL counterpart.\<close>

definition cmp_lin :: "'a::linorder \<Rightarrow> 'a \<Rightarrow> rust_ordering" where
  "cmp_lin a b = (if a < b then Less else if a = b then Equal else Greater)"

lemma cmp_lin_simps [simp]:
  "cmp_lin a b = Less \<longleftrightarrow> a < b"
  "cmp_lin a b = Equal \<longleftrightarrow> a = b"
  "cmp_lin a b = Greater \<longleftrightarrow> b < a"
  by (auto simp: cmp_lin_def)

lemma cmp_lin_swap: "cmp_lin b a = reverse_ordering (cmp_lin a b)"
  by (auto simp: cmp_lin_def)

text \<open>
  What \<^verbatim>\<open>std::cmp::Ord\<close> asks of \<^verbatim>\<open>cmp\<close> on a set of values, except consistency with \<^verbatim>\<open>Eq\<close>:
  swapping the arguments reverses the answer, and \<^verbatim>\<open>\<le>\<close> is transitive. \<open>rust_ord_eq\<close> adds
  the consistency: \<^verbatim>\<open>Equal\<close> only for equal values.
\<close>

locale rust_ord =
  fixes C :: "'a set" and cmp :: "'a \<Rightarrow> 'a \<Rightarrow> rust_ordering"
  assumes cmp_swap: "a \<in> C \<Longrightarrow> b \<in> C \<Longrightarrow> cmp b a = reverse_ordering (cmp a b)"
    and cmp_trans: "a \<in> C \<Longrightarrow> b \<in> C \<Longrightarrow> c \<in> C \<Longrightarrow>
      cmp a b \<noteq> Greater \<Longrightarrow> cmp b c \<noteq> Greater \<Longrightarrow> cmp a c \<noteq> Greater"
begin

lemma cmp_refl: "a \<in> C \<Longrightarrow> cmp a a = Equal"
  using cmp_swap [of a a] by (cases "cmp a a") auto

lemma cmp_total: "a \<in> C \<Longrightarrow> b \<in> C \<Longrightarrow> cmp a b \<noteq> Greater \<or> cmp b a \<noteq> Greater"
  using cmp_swap [of a b] by (cases "cmp a b") auto

lemma cmp_Less_trans:
  assumes "a \<in> C" "b \<in> C" "c \<in> C" and "cmp a b = Less" and "cmp b c \<noteq> Greater"
  shows "cmp a c = Less"
  using assms cmp_trans [of a b c] cmp_trans [of b c a] cmp_swap [of c a] cmp_swap [of a b]
  by (cases "cmp a c"; cases "cmp c a") auto

lemma cmp_Less_trans':
  assumes "a \<in> C" "b \<in> C" "c \<in> C" and "cmp a b \<noteq> Greater" and "cmp b c = Less"
  shows "cmp a c = Less"
  using assms cmp_trans [of a b c] cmp_trans [of c a b] cmp_swap [of c a] cmp_swap [of b c]
  by (cases "cmp a c"; cases "cmp c a") auto

end

locale rust_ord_eq = rust_ord +
  assumes cmp_Equal: "a \<in> C \<Longrightarrow> b \<in> C \<Longrightarrow> cmp a b = Equal \<Longrightarrow> a = b"
begin

lemma cmp_Equal_iff: "a \<in> C \<Longrightarrow> b \<in> C \<Longrightarrow> cmp a b = Equal \<longleftrightarrow> a = b"
  using cmp_Equal cmp_refl by auto

end

interpretation lin: rust_ord_eq UNIV "cmp_lin :: 'a::linorder \<Rightarrow> 'a \<Rightarrow> rust_ordering"
  by unfold_locales (auto simp: cmp_lin_def split: if_splits)

text \<open>A comparison by a key in a linear order, as most hand-written \<^verbatim>\<open>cmp\<close> are.\<close>

lemma rust_ord_by_key:
  assumes "\<And>a b. cmp a b = cmp_lin (key a) (key b)"
  shows "rust_ord UNIV cmp"
  by unfold_locales (use assms in \<open>auto simp: cmp_lin_def split: if_splits\<close>)

text \<open>
  \<^verbatim>\<open>sort_by\<close> is stable. A stable sort is determined by its comparison when that is a
  total preorder, so insertion is as good a description as the merge sort of \<^verbatim>\<open>std\<close>.
\<close>

fun insert_by :: "('a \<Rightarrow> 'a \<Rightarrow> rust_ordering) \<Rightarrow> 'a \<Rightarrow> 'a list \<Rightarrow> 'a list" where
  "insert_by cmp x [] = [x]"
| "insert_by cmp x (y # ys) =
     (if cmp x y = Greater then y # insert_by cmp x ys else x # y # ys)"

fun sort_by :: "('a \<Rightarrow> 'a \<Rightarrow> rust_ordering) \<Rightarrow> 'a list \<Rightarrow> 'a list" where
  "sort_by cmp [] = []"
| "sort_by cmp (x # xs) = insert_by cmp x (sort_by cmp xs)"

lemma mset_insert_by [simp]: "mset (insert_by cmp x xs) = add_mset x (mset xs)"
  by (induction xs) auto

lemma mset_sort_by [simp]: "mset (sort_by cmp xs) = mset xs"
  by (induction xs) auto

lemma set_sort_by [simp]: "set (sort_by cmp xs) = set xs"
  using mset_sort_by [of cmp xs] by (metis set_mset_mset)

context rust_ord
begin

lemma set_insert_by: "set (insert_by cmp x xs) = insert x (set xs)"
  using mset_insert_by [of cmp x xs] by (metis set_mset_mset set_mset_add_mset_insert)

lemma sorted_insert_by:
  "x \<in> C \<Longrightarrow> set xs \<subseteq> C \<Longrightarrow> sorted_wrt (\<lambda>a b. cmp a b \<noteq> Greater) xs \<Longrightarrow>
   sorted_wrt (\<lambda>a b. cmp a b \<noteq> Greater) (insert_by cmp x xs)"
proof (induction xs)
  case (Cons y ys)
  show ?case
  proof (cases "cmp x y = Greater")
    case True
    with Cons.prems have "cmp y x \<noteq> Greater" using cmp_total [of x y] by auto
    with Cons True show ?thesis by (auto simp: set_insert_by)
  next
    case False
    have "cmp x z \<noteq> Greater" if "z \<in> set ys" for z
      using cmp_trans [of x y z] Cons.prems False that by auto
    with Cons.prems False show ?thesis by auto
  qed
qed simp

lemma sorted_sort_by:
  "set xs \<subseteq> C \<Longrightarrow> sorted_wrt (\<lambda>a b. cmp a b \<noteq> Greater) (sort_by cmp xs)"
  by (induction xs) (simp_all add: sorted_insert_by)

end

subsection \<open>\<^verbatim>\<open>Iterator::max\<close> and \<^verbatim>\<open>min\<close> over a collection\<close>

definition iter_max :: "'a::linorder set \<Rightarrow> 'a option" where
  "iter_max S = (if Set.is_empty S then None else Some (Max S))"

definition iter_min :: "'a::linorder set \<Rightarrow> 'a option" where
  "iter_min S = (if Set.is_empty S then None else Some (Min S))"

lemma iter_max_None [simp]: "iter_max S = None \<longleftrightarrow> S = {}"
  by (auto simp: iter_max_def)

lemma iter_min_None [simp]: "iter_min S = None \<longleftrightarrow> S = {}"
  by (auto simp: iter_min_def)

lemma iter_max_Some:
  "finite S \<Longrightarrow> iter_max S = Some m \<longleftrightarrow> m \<in> S \<and> (\<forall>x \<in> S. x \<le> m)"
  by (auto simp: iter_max_def Max_eq_iff [symmetric] intro: Max_eqI)

lemma iter_min_Some:
  "finite S \<Longrightarrow> iter_min S = Some m \<longleftrightarrow> m \<in> S \<and> (\<forall>x \<in> S. m \<le> x)"
  by (auto simp: iter_min_def Min_eq_iff [symmetric] intro: Min_eqI)

subsection \<open>Words\<close>

text \<open>\<^verbatim>\<open>u32::saturating_add(1)\<close>.\<close>

definition saturating_succ :: "u32 \<Rightarrow> u32" where
  "saturating_succ n = (if n = - 1 then n else n + 1)"

lemma u32_max: "(n :: u32) \<le> - 1"
  by (simp add: word_order.extremum)

lemma u32_less_max: "(n :: u32) < - 1 \<longleftrightarrow> n \<noteq> - 1"
  using u32_max by (simp add: order_less_le)

lemma u32_succ_le: "(a :: u32) < b \<Longrightarrow> a + 1 \<le> b"
  by (rule inc_le)

lemma u32_less_succ: "(a :: u32) < b \<Longrightarrow> a < a + 1"
proof -
  assume "a < b"
  with u32_max [of b] have "a \<noteq> - 1" by auto
  then have "1 + a \<noteq> 0" by (metis add.commute eq_neg_iff_add_eq_0)
  then have "unat (1 + a) = Suc (unat a)" by (rule unatSuc)
  then show "a < a + 1" by (simp add: word_less_nat_alt add.commute)
qed

lemma u32_unat_less: "unat (n :: u32) < 2 ^ 32"
  by (rule order.strict_trans2 [OF unsigned_less]) simp

lemma unat_word_of_nat: "n < 2 ^ 32 \<Longrightarrow> unat (word_of_nat n :: u32) = n"
  by (simp add: unat_of_nat)

lemma unat_pred: "(n :: u32) \<noteq> 0 \<Longrightarrow> unat (n - 1) = unat n - 1"
  by (rule unat_minus_one)

subsection \<open>Association lists as hash maps\<close>

abbreviation keys :: "('k \<times> 'v) list \<Rightarrow> 'k set" where
  "keys m \<equiv> fst ` set m"

lemma map_of_in_keys: "map_of m k = Some v \<Longrightarrow> k \<in> keys m"
  by (force dest: map_of_SomeD)

lemma keys_iff: "k \<in> keys m \<longleftrightarrow> (\<exists>v. map_of m k = Some v)"
  by (metis domD domI dom_map_of_conv_image_fst)

end
