(* ===== verification/Scp_Ballot.thy ===== *)
theory Scp_Ballot
  imports Scp_Prelude
begin

section \<open>Ballots (\<^verbatim>\<open>consensus/scp/src/ballot.rs\<close>)\<close>

text \<open>
  A ballot is a counter and a list of values; the counter is the more significant part of
  the order. The theory shows that \<^verbatim>\<open>cmp\<close> is a linear order and gives the facts about
  compatible ballots (equal values) that the slot relies on.
\<close>

datatype 'v ballot = Ballot (b_N: u32) (b_X: "'v list")

definition ballot_is_zero :: "'v ballot \<Rightarrow> bool" where
  "ballot_is_zero b \<longleftrightarrow> b_N b = 0 \<and> b_X b = []"

definition ballot_cmp :: "'v::linorder ballot \<Rightarrow> 'v ballot \<Rightarrow> rust_ordering" where
  "ballot_cmp a b =
     (if b_N a \<noteq> b_N b then cmp_lin (b_N a) (b_N b) else cmp_lin (b_X a) (b_X b))"

interpretation ballot_ord: rust_ord_eq UNIV "ballot_cmp :: 'v::linorder ballot \<Rightarrow> _"
  by unfold_locales (auto simp: ballot_cmp_def cmp_lin_def ballot.expand split: if_splits)

instantiation ballot :: (linorder) linorder
begin

definition less_eq_ballot where
  "(a :: 'a ballot) \<le> b \<longleftrightarrow> ballot_cmp a b \<noteq> Greater"

definition less_ballot where
  "(a :: 'a ballot) < b \<longleftrightarrow> ballot_cmp a b = Less"

instance
proof
  fix x y z :: "'a ballot"
  show "x < y \<longleftrightarrow> x \<le> y \<and> \<not> y \<le> x"
    using ballot_ord.cmp_swap [of x y]
    by (cases "ballot_cmp x y") (auto simp: less_eq_ballot_def less_ballot_def)
  show "x \<le> x" by (simp add: less_eq_ballot_def ballot_ord.cmp_refl)
  show "x \<le> y \<Longrightarrow> y \<le> z \<Longrightarrow> x \<le> z"
    using ballot_ord.cmp_trans [of x y z] by (simp add: less_eq_ballot_def)
  show "x \<le> y \<Longrightarrow> y \<le> x \<Longrightarrow> x = y"
    using ballot_ord.cmp_swap [of x y] ballot_ord.cmp_Equal [of x y]
    by (cases "ballot_cmp x y") (auto simp: less_eq_ballot_def)
  show "x \<le> y \<or> y \<le> x"
    using ballot_ord.cmp_total [of x y] by (simp add: less_eq_ballot_def)
qed

end

lemma ballot_less_iff:
  "a < b \<longleftrightarrow> b_N a < b_N b \<or> b_N a = b_N b \<and> b_X a < b_X b"
  by (auto simp: less_ballot_def ballot_cmp_def cmp_lin_def)

lemma ballot_le_iff:
  "a \<le> b \<longleftrightarrow> b_N a < b_N b \<or> b_N a = b_N b \<and> b_X a \<le> b_X b"
  by (auto simp: less_eq_ballot_def ballot_cmp_def cmp_lin_def split: if_splits)

lemma ballot_le_counter: "a \<le> b \<Longrightarrow> b_N a \<le> b_N b"
  by (auto simp: ballot_le_iff)

lemma ballot_cmp_lin: "ballot_cmp a b = cmp_lin a b"
  by (cases "ballot_cmp a b")
     (auto simp: cmp_lin_def less_ballot_def ballot_ord.cmp_Equal_iff ballot_ord.cmp_refl)

text \<open>
  \<open>a\<close> is below and compatible with \<open>b\<close>: voting or accepting \<^verbatim>\<open>prepare(b)\<close> is also doing so
  for every such \<open>a\<close>.
\<close>

definition ballot_below :: "'v ballot \<Rightarrow> 'v ballot \<Rightarrow> bool" where
  "ballot_below a b \<longleftrightarrow> b_X a = b_X b \<and> b_N a \<le> b_N b"

lemma ballot_below_refl [simp]: "ballot_below b b"
  by (simp add: ballot_below_def)

lemma ballot_below_trans: "ballot_below a b \<Longrightarrow> ballot_below b c \<Longrightarrow> ballot_below a c"
  by (auto simp: ballot_below_def)

lemma ballot_below_le: "ballot_below a b \<Longrightarrow> a \<le> b"
  by (auto simp: ballot_below_def ballot_le_iff)

end
