(* ===== verification/Scp_Quorum_Set.thy ===== *)
theory Scp_Quorum_Set
  imports Scp_Prelude
begin

section \<open>Quorum sets (\<^verbatim>\<open>consensus/scp/types/src/quorum_set.rs\<close>)\<close>

text \<open>
  A quorum set is a threshold and a list of members; a member is a node or, again, a quorum
  set. The protobuf wrapper makes every member optional, and \<open>None\<close> is what a peer can send.
  The theory holds the constructors, \<^verbatim>\<open>is_valid\<close>, \<^verbatim>\<open>sort\<close>, \<^verbatim>\<open>nodes\<close>, the hand-written
  \<^verbatim>\<open>PartialEq\<close> and the derived \<^verbatim>\<open>Ord\<close>, and shows that the derived order is linear, that
  sorting is a normal form, and that \<^verbatim>\<open>==\<close> compares normal forms.
  Node identifiers are any linearly ordered type; \<^verbatim>\<open>NodeID\<close> compares by its public key.
\<close>

datatype 'id quorum_set =
    QuorumSet (threshold: u32) (members: "'id quorum_set_member option list")
and 'id quorum_set_member =
    Node 'id
  | InnerSet "'id quorum_set"

type_synonym 'id member_wrapper = "'id quorum_set_member option"

subsection \<open>Constructors\<close>

definition qs_new :: "u32 \<Rightarrow> 'id quorum_set_member list \<Rightarrow> 'id quorum_set" where
  "qs_new t ms = QuorumSet t (map Some ms)"

definition new_with_node_ids :: "u32 \<Rightarrow> 'id list \<Rightarrow> 'id quorum_set" where
  "new_with_node_ids t ids = qs_new t (map Node ids)"

definition new_with_inner_sets :: "u32 \<Rightarrow> 'id quorum_set list \<Rightarrow> 'id quorum_set" where
  "new_with_inner_sets t qs = qs_new t (map InnerSet qs)"

definition qs_empty :: "'id quorum_set" where
  "qs_empty = qs_new 0 []"

subsection \<open>Operations\<close>

fun is_valid :: "'id quorum_set \<Rightarrow> bool"
  and is_valid_members :: "'id member_wrapper list \<Rightarrow> bool" where
  "is_valid (QuorumSet t ms) =
     (if unat t > length ms then False else is_valid_members ms)"
| "is_valid_members [] = True"
| "is_valid_members (None # ms) = False"
| "is_valid_members (Some (Node n) # ms) = is_valid_members ms"
| "is_valid_members (Some (InnerSet q) # ms) =
     (if \<not> is_valid q then False else is_valid_members ms)"

fun nodes :: "'id quorum_set \<Rightarrow> 'id set"
  and nodes_members :: "'id member_wrapper list \<Rightarrow> 'id set" where
  "nodes (QuorumSet t ms) = nodes_members ms"
| "nodes_members [] = {}"
| "nodes_members (None # ms) = nodes_members ms"
| "nodes_members (Some (Node n) # ms) = insert n (nodes_members ms)"
| "nodes_members (Some (InnerSet q) # ms) = nodes q \<union> nodes_members ms"

text \<open>\<^verbatim>\<open>From<&QuorumSet<ID>> for QuorumSet<ResponderId>\<close>: empty wrappers are dropped.\<close>

fun qs_into :: "('id \<Rightarrow> 'rid) \<Rightarrow> 'id quorum_set \<Rightarrow> 'rid quorum_set"
  and qs_into_members :: "('id \<Rightarrow> 'rid) \<Rightarrow> 'id member_wrapper list \<Rightarrow> 'rid quorum_set_member list" where
  "qs_into f (QuorumSet t ms) = qs_new t (qs_into_members f ms)"
| "qs_into_members f [] = []"
| "qs_into_members f (None # ms) = qs_into_members f ms"
| "qs_into_members f (Some (Node n) # ms) = Node (f n) # qs_into_members f ms"
| "qs_into_members f (Some (InnerSet q) # ms) = InnerSet (qs_into f q) # qs_into_members f ms"

subsection \<open>The derived order\<close>

text \<open>
  \<^verbatim>\<open>#[derive(Ord)]\<close>: the threshold first, then the members lexicographically;
  an absent member is least and a node is less than an inner set.
\<close>

fun qs_cmp :: "'id::linorder quorum_set \<Rightarrow> 'id quorum_set \<Rightarrow> rust_ordering"
  and members_cmp :: "'id::linorder member_wrapper list \<Rightarrow> 'id member_wrapper list \<Rightarrow> rust_ordering"
  and wrapper_cmp :: "'id::linorder member_wrapper \<Rightarrow> 'id member_wrapper \<Rightarrow> rust_ordering"
  and member_cmp :: "'id::linorder quorum_set_member \<Rightarrow> 'id quorum_set_member \<Rightarrow> rust_ordering" where
  "qs_cmp (QuorumSet t ms) (QuorumSet t' ms') =
     (if t < t' then Less else if t' < t then Greater else members_cmp ms ms')"
| "members_cmp [] [] = Equal"
| "members_cmp [] (m' # ms') = Less"
| "members_cmp (m # ms) [] = Greater"
| "members_cmp (m # ms) (m' # ms') =
     (case wrapper_cmp m m' of Equal \<Rightarrow> members_cmp ms ms' | r \<Rightarrow> r)"
| "wrapper_cmp None None = Equal"
| "wrapper_cmp None (Some m') = Less"
| "wrapper_cmp (Some m) None = Greater"
| "wrapper_cmp (Some m) (Some m') = member_cmp m m'"
| "member_cmp (Node a) (Node b) = cmp_lin a b"
| "member_cmp (Node a) (InnerSet q) = Less"
| "member_cmp (InnerSet q) (Node b) = Greater"
| "member_cmp (InnerSet q) (InnerSet q') = qs_cmp q q'"

lemmas qs_cmp_induct = qs_cmp_members_cmp_wrapper_cmp_member_cmp.induct

lemma qs_cmp_swaps:
  fixes a b :: "'id::linorder quorum_set"
    and as bs :: "'id member_wrapper list"
    and w v :: "'id member_wrapper"
    and m n :: "'id quorum_set_member"
  shows "qs_cmp b a = reverse_ordering (qs_cmp a b)"
    and "members_cmp bs as = reverse_ordering (members_cmp as bs)"
    and "wrapper_cmp v w = reverse_ordering (wrapper_cmp w v)"
    and "member_cmp n m = reverse_ordering (member_cmp m n)"
  by (induction a b and as bs and w v and m n rule: qs_cmp_induct)
     (auto simp: cmp_lin_def split: rust_ordering.splits)

lemma qs_cmp_Equals:
  fixes a b :: "'id::linorder quorum_set"
    and as bs :: "'id member_wrapper list"
    and w v :: "'id member_wrapper"
    and m n :: "'id quorum_set_member"
  shows "qs_cmp a b = Equal \<longleftrightarrow> a = b"
    and "members_cmp as bs = Equal \<longleftrightarrow> as = bs"
    and "wrapper_cmp w v = Equal \<longleftrightarrow> w = v"
    and "member_cmp m n = Equal \<longleftrightarrow> m = n"
  by (induction a b and as bs and w v and m n rule: qs_cmp_induct)
     (auto split: rust_ordering.splits)

lemma qs_cmp_refls [simp]:
  "qs_cmp a a = Equal" "members_cmp as as = Equal" "wrapper_cmp w w = Equal" "member_cmp m m = Equal"
  by (simp_all add: qs_cmp_Equals)

lemma wrapper_cmp_Less_asym: "wrapper_cmp w v = Less \<Longrightarrow> wrapper_cmp v w = Greater"
  using qs_cmp_swaps(3) [of v w] by simp

lemma qs_cmp_Less_trans:
  fixes a b c :: "'id::linorder quorum_set"
    and as bs cs :: "'id member_wrapper list"
    and w v u :: "'id member_wrapper"
    and m n k :: "'id quorum_set_member"
  shows "qs_cmp a b = Less \<Longrightarrow> qs_cmp b c = Less \<Longrightarrow> qs_cmp a c = Less"
    and "members_cmp as bs = Less \<Longrightarrow> members_cmp bs cs = Less \<Longrightarrow> members_cmp as cs = Less"
    and "wrapper_cmp w v = Less \<Longrightarrow> wrapper_cmp v u = Less \<Longrightarrow> wrapper_cmp w u = Less"
    and "member_cmp m n = Less \<Longrightarrow> member_cmp n k = Less \<Longrightarrow> member_cmp m k = Less"
proof (induction a b and as bs and w v and m n arbitrary: c and cs and u and k rule: qs_cmp_induct)
  case (1 t ms t' ms')
  then show ?case by (cases c) (auto split: if_splits)
next
  case (3 m' ms')
  then show ?case by (cases cs) auto
next
  case (5 m ms m' ms')
  show ?case
  proof (cases cs)
    case (Cons m'' ms'')
    show ?thesis
      using 5 Cons
      by (auto simp: qs_cmp_Equals dest: wrapper_cmp_Less_asym split: rust_ordering.splits)
  qed (use 5 in simp)
next
  case (7 m')
  then show ?case by (cases u) auto
next
  case (9 m m')
  then show ?case by (cases u) auto
next
  case (10 a b)
  then show ?case by (cases k) auto
next
  case (11 a q)
  then show ?case by (cases k) auto
next
  case (13 q q')
  then show ?case by (cases k) auto
qed auto

interpretation qs_ord: rust_ord_eq UNIV "qs_cmp :: 'id::linorder quorum_set \<Rightarrow> _"
proof
  fix a b c :: "'id quorum_set"
  show "qs_cmp b a = reverse_ordering (qs_cmp a b)" by (rule qs_cmp_swaps)
  show "qs_cmp a b = Equal \<Longrightarrow> a = b" by (simp add: qs_cmp_Equals)
  show "qs_cmp a b \<noteq> Greater \<Longrightarrow> qs_cmp b c \<noteq> Greater \<Longrightarrow> qs_cmp a c \<noteq> Greater"
    by (cases "qs_cmp a b"; cases "qs_cmp b c")
       (auto simp: qs_cmp_Equals dest: qs_cmp_Less_trans(1))
qed

interpretation member_ord: rust_ord_eq UNIV "member_cmp :: 'id::linorder quorum_set_member \<Rightarrow> _"
proof
  fix a b c :: "'id quorum_set_member"
  show "member_cmp b a = reverse_ordering (member_cmp a b)" by (rule qs_cmp_swaps)
  show "member_cmp a b = Equal \<Longrightarrow> a = b" by (simp add: qs_cmp_Equals)
  show "member_cmp a b \<noteq> Greater \<Longrightarrow> member_cmp b c \<noteq> Greater \<Longrightarrow> member_cmp a c \<noteq> Greater"
    by (cases "member_cmp a b"; cases "member_cmp b c")
       (auto simp: qs_cmp_Equals dest: qs_cmp_Less_trans(4))
qed

text \<open>The derived orders as instances, so that \<open>sort\<close> of the library applies.\<close>

instantiation quorum_set_member :: (linorder) linorder
begin

definition less_eq_quorum_set_member where
  "(m :: 'a quorum_set_member) \<le> n \<longleftrightarrow> member_cmp m n \<noteq> Greater"

definition less_quorum_set_member where
  "(m :: 'a quorum_set_member) < n \<longleftrightarrow> member_cmp m n = Less"

instance
proof
  fix x y z :: "'a quorum_set_member"
  show "x < y \<longleftrightarrow> x \<le> y \<and> \<not> y \<le> x"
    using member_ord.cmp_swap [of x y]
    by (cases "member_cmp x y") (auto simp: less_eq_quorum_set_member_def less_quorum_set_member_def)
  show "x \<le> x" by (simp add: less_eq_quorum_set_member_def member_ord.cmp_refl)
  show "x \<le> y \<Longrightarrow> y \<le> z \<Longrightarrow> x \<le> z"
    using member_ord.cmp_trans [of x y z] by (simp add: less_eq_quorum_set_member_def)
  show "x \<le> y \<Longrightarrow> y \<le> x \<Longrightarrow> x = y"
    using member_ord.cmp_swap [of x y] member_ord.cmp_Equal [of x y]
    by (cases "member_cmp x y") (auto simp: less_eq_quorum_set_member_def)
  show "x \<le> y \<or> y \<le> x"
    using member_ord.cmp_total [of x y] by (simp add: less_eq_quorum_set_member_def)
qed

end

lemma wrapper_le_iff: "(w :: 'id::linorder member_wrapper) \<le> v \<longleftrightarrow> wrapper_cmp w v \<noteq> Greater"
  by (cases w; cases v) (simp_all add: less_eq_quorum_set_member_def)

subsection \<open>Sorting and equality\<close>

text \<open>\<^verbatim>\<open>sort\<close>: the inner sets first, then the members.\<close>

fun qs_sort :: "'id::linorder quorum_set \<Rightarrow> 'id quorum_set"
  and sort_inner :: "'id::linorder member_wrapper list \<Rightarrow> 'id member_wrapper list" where
  "qs_sort (QuorumSet t ms) = QuorumSet t (sort (sort_inner ms))"
| "sort_inner [] = []"
| "sort_inner (None # ms) = None # sort_inner ms"
| "sort_inner (Some (Node n) # ms) = Some (Node n) # sort_inner ms"
| "sort_inner (Some (InnerSet q) # ms) = Some (InnerSet (qs_sort q)) # sort_inner ms"

text \<open>A size that sorting keeps, for the recursion of \<^verbatim>\<open>eq\<close> through sorted copies.\<close>

fun qs_size :: "'id quorum_set \<Rightarrow> nat"
  and members_size :: "'id member_wrapper list \<Rightarrow> nat" where
  "qs_size (QuorumSet t ms) = Suc (members_size ms)"
| "members_size [] = 0"
| "members_size (None # ms) = Suc (members_size ms)"
| "members_size (Some (Node n) # ms) = Suc (members_size ms)"
| "members_size (Some (InnerSet q) # ms) = Suc (qs_size q + members_size ms)"

lemma members_size_Cons: "members_size (m # ms) = members_size [m] + members_size ms"
proof (cases m)
  case (Some k)
  then show ?thesis by (cases k) auto
qed simp

lemma members_size_mset: "members_size ms = (\<Sum>m \<in># mset ms. members_size [m])"
proof (induction ms)
  case (Cons m ms)
  then show ?case by (simp add: members_size_Cons [of m ms])
qed simp

lemma members_size_sort [simp]: "members_size (sort ms) = members_size ms"
  by (simp add: members_size_mset [of "sort ms"] members_size_mset [of ms])

lemma qs_size_sort [simp]:
  fixes q :: "'id::linorder quorum_set" and ms :: "'id member_wrapper list"
  shows "qs_size (qs_sort q) = qs_size q" and "members_size (sort_inner ms) = members_size ms"
  by (induction q and ms rule: qs_sort_sort_inner.induct) auto

text \<open>
  \<^verbatim>\<open>PartialEq for QuorumSet\<close>: equal thresholds and lengths, then the members of the sorted
  copies one by one; an inner set is compared with the same \<^verbatim>\<open>eq\<close>, which sorts again.
\<close>

function (sequential) qs_eq :: "'id::linorder quorum_set \<Rightarrow> 'id quorum_set \<Rightarrow> bool"
  and members_eq :: "'id::linorder member_wrapper list \<Rightarrow> 'id member_wrapper list \<Rightarrow> bool" where
  "qs_eq (QuorumSet t ms) (QuorumSet t' ms') =
     (if t = t' \<and> length ms = length ms'
      then members_eq (members (qs_sort (QuorumSet t ms))) (members (qs_sort (QuorumSet t' ms')))
      else False)"
| "members_eq [] [] = True"
| "members_eq (None # ms) (None # ms') = members_eq ms ms'"
| "members_eq (Some (Node a) # ms) (Some (Node b) # ms') = (a = b \<and> members_eq ms ms')"
| "members_eq (Some (InnerSet q) # ms) (Some (InnerSet q') # ms') = (qs_eq q q' \<and> members_eq ms ms')"
| "members_eq ms ms' = False"
  by pat_completeness auto
termination
  by (relation "measure (\<lambda>x. case x of Inl (a, b) \<Rightarrow> qs_size a | Inr (ms, ms') \<Rightarrow> members_size ms)")
     auto

lemma length_sort_inner [simp]: "length (sort_inner ms) = length ms"
proof (induction ms)
  case (Cons m ms)
  then show ?case
  proof (cases m)
    case (Some k)
    with Cons show ?thesis by (cases k) auto
  qed simp
qed simp

lemma sort_inner_Nil [simp]:
  "sort_inner ms = [] \<longleftrightarrow> ms = []" "[] = sort_inner ms \<longleftrightarrow> ms = []"
  using length_sort_inner [of ms] by (metis length_0_conv)+

lemma sort_inner_Some_None [simp]:
  "sort_inner (Some k # ms) \<noteq> None # ms'" "None # ms' \<noteq> sort_inner (Some k # ms)"
  by (cases k; simp)+

lemma sort_inner_fixed:
  assumes "\<And>m. m \<in> set ms \<Longrightarrow> sort_inner [m] = [m]"
  shows "sort_inner ms = ms"
  using assms
proof (induction ms)
  case (Cons m ms)
  then have "sort_inner ms = ms" and "sort_inner [m] = [m]" by auto
  then show ?case
  proof (cases m)
    case (Some k)
    with \<open>sort_inner ms = ms\<close> \<open>sort_inner [m] = [m]\<close> show ?thesis by (cases k) auto
  qed simp
qed simp

lemma sort_idem:
  fixes q :: "'id::linorder quorum_set" and ms :: "'id member_wrapper list"
  shows qs_sort_idem: "qs_sort (qs_sort q) = qs_sort q"
    and sort_inner_idem: "m \<in> set (sort_inner ms) \<Longrightarrow> sort_inner [m] = [m]"
proof (induction q and ms arbitrary: and m rule: qs_sort_sort_inner.induct)
  case (1 t ms)
  have "sort_inner (sort (sort_inner ms)) = sort (sort_inner ms)"
    by (rule sort_inner_fixed) (use 1 in auto)
  then show ?case by (simp add: sorted_sort_id)
qed auto

lemma sort_inner_sorted [simp]: "sort_inner (sort (sort_inner ms)) = sort (sort_inner ms)"
  by (rule sort_inner_fixed) (auto dest: sort_inner_idem)

lemma qs_eq_iff:
  fixes a b :: "'id::linorder quorum_set" and ms ms' :: "'id member_wrapper list"
  shows "qs_eq a b \<longleftrightarrow> qs_sort a = qs_sort b"
    and "members_eq ms ms' \<longleftrightarrow> sort_inner ms = sort_inner ms'"
proof (induction a b and ms ms' rule: qs_eq_members_eq.induct)
  case (1 t ms t' ms')
  have "length ms = length ms'" if "sort (sort_inner ms) = sort (sort_inner ms')"
    using arg_cong [OF that, of length] by simp
  with 1 show ?case by auto
qed auto

lemma sort_inner_mset: "mset (sort_inner ms) = (\<Sum>m \<in># mset ms. mset (sort_inner [m]))"
proof (induction ms)
  case (Cons m ms)
  then show ?case
  proof (cases m)
    case (Some k)
    with Cons show ?thesis by (cases k) auto
  qed simp
qed simp

lemma nodes_members_set: "nodes_members ms = (\<Union>m \<in> set ms. nodes_members [m])"
proof (induction ms)
  case (Cons m ms)
  then show ?case
  proof (cases m)
    case (Some k)
    with Cons show ?thesis by (cases k) auto
  qed simp
qed simp

lemma is_valid_members_set: "is_valid_members ms \<longleftrightarrow> (\<forall>m \<in> set ms. is_valid_members [m])"
proof (induction ms)
  case (Cons m ms)
  then show ?case
  proof (cases m)
    case (Some k)
    with Cons show ?thesis by (cases k) auto
  qed simp
qed simp

lemma nodes_members_sort [simp]: "nodes_members (sort ms) = nodes_members ms"
  by (metis nodes_members_set set_sort)

lemma is_valid_members_sort [simp]: "is_valid_members (sort ms) = is_valid_members ms"
  by (metis is_valid_members_set set_sort)

lemma nodes_qs_sort [simp]:
  fixes q :: "'id::linorder quorum_set" and ms :: "'id member_wrapper list"
  shows "nodes (qs_sort q) = nodes q" and "nodes_members (sort_inner ms) = nodes_members ms"
  by (induction q and ms rule: qs_sort_sort_inner.induct) auto

lemma is_valid_qs_sort [simp]:
  fixes q :: "'id::linorder quorum_set" and ms :: "'id member_wrapper list"
  shows "is_valid (qs_sort q) = is_valid q" and "is_valid_members (sort_inner ms) = is_valid_members ms"
  by (induction q and ms rule: qs_sort_sort_inner.induct) auto

lemma finite_nodes [simp]:
  fixes q :: "'id quorum_set" and ms :: "'id member_wrapper list"
  shows "finite (nodes q)" and "finite (nodes_members ms)"
  by (induction q and ms rule: nodes_nodes_members.induct) auto

subsection \<open>Properties\<close>

text \<open>
  C18. Equality of quorum sets is equality of their sorted forms: it does not depend on the order
  of members at any depth; sorting is idempotent and keeps validity and the set of nodes.
\<close>

theorem qs_eq_normal_form:
  fixes a b :: "'id::linorder quorum_set"
  shows "(qs_eq a b \<longleftrightarrow> qs_sort a = qs_sort b) \<and> qs_eq (qs_sort a) a \<and> qs_sort (qs_sort a) = qs_sort a \<and>
    is_valid (qs_sort a) = is_valid a \<and> nodes (qs_sort a) = nodes a"
  by (simp add: qs_eq_iff qs_sort_idem)

end
