(* ===== verification/Scp_Msg.thy ===== *)
theory Scp_Msg
  imports Scp_Ballot Scp_Quorum_Set
begin

section \<open>Messages (\<^verbatim>\<open>consensus/scp/src/msg.rs\<close>)\<close>

text \<open>
  The payloads of the five kinds of message, their comparison, the structural validation of
  a message, and what a message says in the federated vote: which values it votes for or
  accepts as nominated, which ballots as prepared, which counters as committed.
  A \<^verbatim>\<open>BTreeSet\<close> inside a payload is the ascending list of its elements, so that \<^verbatim>\<open>==\<close> and
  \<^verbatim>\<open>cmp\<close> of \<^verbatim>\<open>BTreeSet\<close> are those of lists.
\<close>

definition INFINITY :: u32 where
  "INFINITY = - 1"

record 'v nominate_payload =
  nom_X :: "'v list"
  nom_Y :: "'v list"

record 'v prepare_payload =
  prep_B :: "'v ballot"
  prep_P :: "'v ballot option"
  prep_PP :: "'v ballot option"
  prep_CN :: u32
  prep_HN :: u32

record 'v commit_payload =
  com_B :: "'v ballot"
  com_PN :: u32
  com_CN :: u32
  com_HN :: u32

record 'v externalize_payload =
  ext_C :: "'v ballot"
  ext_HN :: u32

datatype 'v topic =
    Nominate "'v nominate_payload"
  | NominatePrepare "'v nominate_payload" "'v prepare_payload"
  | Prepare "'v prepare_payload"
  | Commit "'v commit_payload"
  | Externalize "'v externalize_payload"

record ('id, 'v) msg =
  sender_id :: 'id
  msg_slot_index :: u64
  msg_quorum_set :: "'id quorum_set"
  topic :: "'v topic"

definition nominate_payload_new :: "'v::linorder set \<Rightarrow> 'v set \<Rightarrow> 'v nominate_payload" where
  "nominate_payload_new x y = \<lparr>nom_X = sorted_list_of_set x, nom_Y = sorted_list_of_set y\<rparr>"

definition msg_new ::
  "'id \<Rightarrow> 'id quorum_set \<Rightarrow> u64 \<Rightarrow> 'v topic \<Rightarrow> ('id, 'v) msg" where
  "msg_new sender q i t =
     \<lparr>sender_id = sender, msg_slot_index = i, msg_quorum_set = q, topic = t\<rparr>"

text \<open>The derived \<^verbatim>\<open>PartialEq\<close>: field by field, with \<^verbatim>\<open>QuorumSet::eq\<close> for the quorum set.\<close>

definition msg_eq :: "('id::linorder, 'v) msg \<Rightarrow> ('id, 'v) msg \<Rightarrow> bool" where
  "msg_eq m n \<longleftrightarrow>
     sender_id m = sender_id n \<and> msg_slot_index m = msg_slot_index n \<and>
     qs_eq (msg_quorum_set m) (msg_quorum_set n) \<and> topic m = topic n"

subsection \<open>Comparison\<close>

definition nominate_cmp ::
  "'v::linorder nominate_payload \<Rightarrow> 'v nominate_payload \<Rightarrow> rust_ordering" where
  "nominate_cmp a b =
     (if length (nom_Y a) \<noteq> length (nom_Y b) then cmp_lin (length (nom_Y a)) (length (nom_Y b))
      else if nom_Y a \<noteq> nom_Y b then cmp_lin (nom_Y a) (nom_Y b)
      else if length (nom_X a) \<noteq> length (nom_X b) then cmp_lin (length (nom_X a)) (length (nom_X b))
      else if nom_X a \<noteq> nom_X b then cmp_lin (nom_X a) (nom_X b)
      else Equal)"

definition prepare_cmp ::
  "'v::linorder prepare_payload \<Rightarrow> 'v prepare_payload \<Rightarrow> rust_ordering" where
  "prepare_cmp a b =
     (if prep_B a \<noteq> prep_B b then ballot_cmp (prep_B a) (prep_B b)
      else if prep_P a \<noteq> prep_P b then cmp_lin (prep_P a) (prep_P b)
      else if prep_PP a \<noteq> prep_PP b then cmp_lin (prep_PP a) (prep_PP b)
      else cmp_lin (prep_HN a) (prep_HN b))"

definition commit_cmp ::
  "'v::linorder commit_payload \<Rightarrow> 'v commit_payload \<Rightarrow> rust_ordering" where
  "commit_cmp a b =
     (if com_B a \<noteq> com_B b then ballot_cmp (com_B a) (com_B b)
      else if com_PN a \<noteq> com_PN b then cmp_lin (com_PN a) (com_PN b)
      else cmp_lin (com_HN a) (com_HN b))"

definition externalize_cmp ::
  "'v externalize_payload \<Rightarrow> 'v externalize_payload \<Rightarrow> rust_ordering" where
  "externalize_cmp a b = cmp_lin (ext_HN a) (ext_HN b)"

fun topic_cmp :: "'v::linorder topic \<Rightarrow> 'v topic \<Rightarrow> rust_ordering" where
  "topic_cmp (Nominate p) (Nominate q) = nominate_cmp p q"
| "topic_cmp (Nominate p) _ = Less"
| "topic_cmp (NominatePrepare n p) (Nominate _) = Greater"
| "topic_cmp (NominatePrepare n p) (NominatePrepare n' p') =
     (if p \<noteq> p' then prepare_cmp p p' else nominate_cmp n n')"
| "topic_cmp (NominatePrepare n p) _ = Less"
| "topic_cmp (Prepare p) (Nominate _) = Greater"
| "topic_cmp (Prepare p) (NominatePrepare _ _) = Greater"
| "topic_cmp (Prepare p) (Prepare q) = prepare_cmp p q"
| "topic_cmp (Prepare p) _ = Less"
| "topic_cmp (Commit p) (Nominate _) = Greater"
| "topic_cmp (Commit p) (NominatePrepare _ _) = Greater"
| "topic_cmp (Commit p) (Prepare _) = Greater"
| "topic_cmp (Commit p) (Commit q) = commit_cmp p q"
| "topic_cmp (Commit p) _ = Less"
| "topic_cmp (Externalize p) (Externalize q) = externalize_cmp p q"
| "topic_cmp (Externalize p) _ = Greater"

subsection \<open>Validation\<close>

datatype msg_error =
    InvalidQuorumSet
  | XIntersectsY
  | BLessThanP
  | PPNotLessThanP
  | CNGreaterThanHN
  | HNGreaterThanBN

definition validate_nominate :: "'v nominate_payload \<Rightarrow> msg_error + unit" where
  "validate_nominate p =
     (if set (nom_X p) \<inter> set (nom_Y p) \<noteq> {} then Inl XIntersectsY else Inr ())"

definition validate_prepare :: "'v::linorder prepare_payload \<Rightarrow> msg_error + unit" where
  "validate_prepare p =
     (case prep_P p of
        Some P \<Rightarrow>
          if prep_B p < P then Inl BLessThanP
          else (case prep_PP p of
                  Some PP \<Rightarrow>
                    if PP \<ge> P then Inl PPNotLessThanP
                    else if prep_CN p > prep_HN p then Inl CNGreaterThanHN
                    else if prep_HN p > b_N (prep_B p) then Inl HNGreaterThanBN
                    else Inr ()
                | None \<Rightarrow>
                    if prep_CN p > prep_HN p then Inl CNGreaterThanHN
                    else if prep_HN p > b_N (prep_B p) then Inl HNGreaterThanBN
                    else Inr ())
      | None \<Rightarrow>
          if prep_CN p > prep_HN p then Inl CNGreaterThanHN
          else if prep_HN p > b_N (prep_B p) then Inl HNGreaterThanBN
          else Inr ())"

definition validate :: "('id, 'v::linorder) msg \<Rightarrow> msg_error + unit" where
  "validate m =
     (if \<not> is_valid (msg_quorum_set m) then Inl InvalidQuorumSet
      else (case topic m of
              Nominate n \<Rightarrow> validate_nominate n
            | NominatePrepare n p \<Rightarrow>
                (case validate_nominate n of Inl e \<Rightarrow> Inl e | Inr _ \<Rightarrow> validate_prepare p)
            | Prepare p \<Rightarrow> validate_prepare p
            | Commit p \<Rightarrow> if com_CN p > com_HN p then Inl CNGreaterThanHN else Inr ()
            | Externalize _ \<Rightarrow> Inr ()))"

abbreviation msg_valid :: "('id, 'v::linorder) msg \<Rightarrow> bool" where
  "msg_valid m \<equiv> validate m = Inr ()"

subsection \<open>What a message says\<close>

definition bN :: "('id, 'v) msg \<Rightarrow> u32" where
  "bN m = (case topic m of
       Nominate _ \<Rightarrow> 0
     | NominatePrepare _ p \<Rightarrow> b_N (prep_B p)
     | Prepare p \<Rightarrow> b_N (prep_B p)
     | Commit p \<Rightarrow> b_N (com_B p)
     | Externalize _ \<Rightarrow> INFINITY)"

definition votes_or_accepts_nominated :: "('id, 'v) msg \<Rightarrow> 'v set option" where
  "votes_or_accepts_nominated m = (case topic m of
       Nominate p \<Rightarrow> Some (set (nom_X p) \<union> set (nom_Y p))
     | NominatePrepare p _ \<Rightarrow> Some (set (nom_X p) \<union> set (nom_Y p))
     | _ \<Rightarrow> None)"

definition accepts_nominated :: "('id, 'v) msg \<Rightarrow> 'v set option" where
  "accepts_nominated m = (case topic m of
       Nominate p \<Rightarrow> Some (set (nom_Y p))
     | NominatePrepare p _ \<Rightarrow> Some (set (nom_Y p))
     | _ \<Rightarrow> None)"

text \<open>The ballots \<open>P\<close> and, only when \<open>P\<close> is present, \<open>PP\<close> of a prepare payload.\<close>

definition prepared_ballots :: "'v prepare_payload \<Rightarrow> 'v ballot set" where
  "prepared_ballots p = (case prep_P p of
       None \<Rightarrow> {}
     | Some P \<Rightarrow> insert P (case prep_PP p of None \<Rightarrow> {} | Some PP \<Rightarrow> {PP}))"

definition votes_or_accepts_prepared :: "('id, 'v) msg \<Rightarrow> 'v ballot set" where
  "votes_or_accepts_prepared m = (case topic m of
       NominatePrepare _ p \<Rightarrow> insert (prep_B p) (prepared_ballots p)
     | Prepare p \<Rightarrow> insert (prep_B p) (prepared_ballots p)
     | Commit p \<Rightarrow> {Ballot INFINITY (b_X (com_B p))}
     | Externalize p \<Rightarrow> {Ballot INFINITY (b_X (ext_C p))}
     | Nominate _ \<Rightarrow> {})"

definition accepts_prepared :: "('id, 'v) msg \<Rightarrow> 'v ballot set" where
  "accepts_prepared m = (case topic m of
       NominatePrepare _ p \<Rightarrow> prepared_ballots p
     | Prepare p \<Rightarrow> prepared_ballots p
     | Commit p \<Rightarrow> {Ballot (com_PN p) (b_X (com_B p))}
     | Externalize p \<Rightarrow> {Ballot INFINITY (b_X (ext_C p))}
     | Nominate _ \<Rightarrow> {})"

text \<open>
  The tail both commit queries share: the overlap of the message's range with \<open>[min, max]\<close>,
  with its assertion.
\<close>

definition range_overlap :: "(u32 \<times> u32) option \<Rightarrow> u32 \<Rightarrow> u32 \<Rightarrow> (u32 \<times> u32) option run" where
  "range_overlap r lo hi = (case r of
       None \<Rightarrow> Some None
     | Some (a, b) \<Rightarrow>
         if a \<le> hi \<and> lo \<le> b
         then do { rust_assert (max a lo \<le> min b hi); Some (Some (max a lo, min b hi)) }
         else Some None)"

definition vote_commit_range :: "('id, 'v) msg \<Rightarrow> 'v list \<Rightarrow> (u32 \<times> u32) option" where
  "vote_commit_range m v = (case topic m of
       NominatePrepare _ p \<Rightarrow>
         if b_X (prep_B p) = v \<and> prep_CN p \<noteq> 0 then Some (prep_CN p, prep_HN p) else None
     | Prepare p \<Rightarrow>
         if b_X (prep_B p) = v \<and> prep_CN p \<noteq> 0 then Some (prep_CN p, prep_HN p) else None
     | Commit p \<Rightarrow> if b_X (com_B p) = v then Some (com_CN p, INFINITY) else None
     | Externalize p \<Rightarrow> if b_X (ext_C p) = v then Some (b_N (ext_C p), INFINITY) else None
     | Nominate _ \<Rightarrow> None)"

definition accept_commit_range :: "('id, 'v) msg \<Rightarrow> 'v list \<Rightarrow> (u32 \<times> u32) option" where
  "accept_commit_range m v = (case topic m of
       Commit p \<Rightarrow> if b_X (com_B p) = v then Some (com_CN p, com_HN p) else None
     | Externalize p \<Rightarrow> if b_X (ext_C p) = v then Some (b_N (ext_C p), INFINITY) else None
     | _ \<Rightarrow> None)"

definition votes_or_accepts_commits ::
  "('id, 'v) msg \<Rightarrow> 'v list \<Rightarrow> u32 \<Rightarrow> u32 \<Rightarrow> (u32 \<times> u32) option run" where
  "votes_or_accepts_commits m v lo hi =
     do { rust_assert (lo \<le> hi); range_overlap (vote_commit_range m v) lo hi }"

definition accepts_commits ::
  "('id, 'v) msg \<Rightarrow> 'v list \<Rightarrow> u32 \<Rightarrow> u32 \<Rightarrow> (u32 \<times> u32) option run" where
  "accepts_commits m v lo hi =
     do { rust_assert (lo \<le> hi); range_overlap (accept_commit_range m v) lo hi }"

definition opt_ballot_values :: "'v ballot option \<Rightarrow> 'v set" where
  "opt_ballot_values b = (case b of None \<Rightarrow> {} | Some b \<Rightarrow> set (b_X b))"

definition msg_values :: "('id, 'v) msg \<Rightarrow> 'v set" where
  "msg_values m = (case topic m of
       Nominate n \<Rightarrow> set (nom_X n) \<union> set (nom_Y n)
     | NominatePrepare n p \<Rightarrow>
         set (nom_X n) \<union> set (nom_Y n) \<union> set (b_X (prep_B p)) \<union>
         opt_ballot_values (prep_P p) \<union> opt_ballot_values (prep_PP p)
     | Prepare p \<Rightarrow>
         set (b_X (prep_B p)) \<union> opt_ballot_values (prep_P p) \<union> opt_ballot_values (prep_PP p)
     | Commit p \<Rightarrow> set (b_X (com_B p))
     | Externalize p \<Rightarrow> set (b_X (ext_C p)))"

subsection \<open>The comparisons against the contract of \<^verbatim>\<open>Ord\<close>\<close>

lemma nominate_cmp_key:
  "nominate_cmp a b =
     cmp_lin (length (nom_Y a), nom_Y a, length (nom_X a), nom_X a)
             (length (nom_Y b), nom_Y b, length (nom_X b), nom_X b)"
  by (auto simp: nominate_cmp_def cmp_lin_def)

lemma prepare_cmp_key:
  "prepare_cmp a b =
     cmp_lin (prep_B a, prep_P a, prep_PP a, prep_HN a) (prep_B b, prep_P b, prep_PP b, prep_HN b)"
  by (auto simp: prepare_cmp_def cmp_lin_def ballot_cmp_lin)

lemma commit_cmp_key:
  "commit_cmp a b = cmp_lin (com_B a, com_PN a, com_HN a) (com_B b, com_PN b, com_HN b)"
  by (auto simp: commit_cmp_def cmp_lin_def ballot_cmp_lin)

interpretation nominate_ord: rust_ord UNIV "nominate_cmp :: 'v::linorder nominate_payload \<Rightarrow> _"
  by (rule rust_ord_by_key) (rule nominate_cmp_key)

interpretation prepare_ord: rust_ord UNIV "prepare_cmp :: 'v::linorder prepare_payload \<Rightarrow> _"
  by (rule rust_ord_by_key) (rule prepare_cmp_key)

interpretation commit_ord: rust_ord UNIV "commit_cmp :: 'v::linorder commit_payload \<Rightarrow> _"
  by (rule rust_ord_by_key) (rule commit_cmp_key)

interpretation externalize_ord: rust_ord UNIV "externalize_cmp :: 'v externalize_payload \<Rightarrow> _"
  by (rule rust_ord_by_key) (rule externalize_cmp_def)

lemma nominate_cmp_Equal: "nominate_cmp a b = Equal \<Longrightarrow> a = b"
  by (cases a; cases b) (simp add: nominate_cmp_key)

text \<open>
  Two \<^verbatim>\<open>NominatePrepare\<close> topics are compared by their prepare payloads when these differ in
  any field, also when they differ in \<open>CN\<close> only, which \<open>prepare_cmp\<close> ignores. The relation is
  transitive on topics whose \<open>CN\<close> is 0 in that phase, which is what a slot emits.
\<close>

fun canonical_topic :: "'v topic \<Rightarrow> bool" where
  "canonical_topic (NominatePrepare n p) \<longleftrightarrow> prep_CN p = 0"
| "canonical_topic _ \<longleftrightarrow> True"

lemma prepare_cmp_Equal:
  "prepare_cmp p q = Equal \<Longrightarrow> prep_CN p = prep_CN q \<Longrightarrow> p = q"
  by (cases p; cases q) (simp add: prepare_cmp_key)

text \<open>The position of a topic's kind in the order, most significant in the comparison.\<close>

fun topic_rank :: "'v topic \<Rightarrow> nat" where
  "topic_rank (Nominate _) = 0"
| "topic_rank (NominatePrepare _ _) = 1"
| "topic_rank (Prepare _) = 2"
| "topic_rank (Commit _) = 3"
| "topic_rank (Externalize _) = 4"

lemma topic_cmp_rank:
  "topic_rank a \<noteq> topic_rank b \<Longrightarrow> topic_cmp a b = cmp_lin (topic_rank a) (topic_rank b)"
  by (cases a; cases b) (auto simp: cmp_lin_def)

lemma topic_cmp_rank_le: "topic_cmp a b \<noteq> Greater \<Longrightarrow> topic_rank a \<le> topic_rank b"
  using topic_cmp_rank [of a b] by (cases "topic_rank a = topic_rank b") auto

lemma topic_cmp_swap: "topic_cmp b a = reverse_ordering (topic_cmp a b)"
  using nominate_ord.cmp_swap prepare_ord.cmp_swap commit_ord.cmp_swap externalize_ord.cmp_swap
  by (cases a; cases b) auto

lemma nominate_prepare_cmp_key:
  assumes "prep_CN p = 0" and "prep_CN p' = 0"
  shows "topic_cmp (NominatePrepare n p) (NominatePrepare n' p') =
    cmp_lin ((prep_B p, prep_P p, prep_PP p, prep_HN p),
             (length (nom_Y n), nom_Y n, length (nom_X n), nom_X n))
            ((prep_B p', prep_P p', prep_PP p', prep_HN p'),
             (length (nom_Y n'), nom_Y n', length (nom_X n'), nom_X n'))"
  using assms
  by (cases p; cases p') (auto simp: prepare_cmp_key nominate_cmp_key cmp_lin_def)

lemma nominate_prepare_cmp_trans:
  assumes "prep_CN p = 0" "prep_CN p' = 0" "prep_CN p'' = 0"
    and "topic_cmp (NominatePrepare n p) (NominatePrepare n' p') \<noteq> Greater"
    and "topic_cmp (NominatePrepare n' p') (NominatePrepare n'' p'') \<noteq> Greater"
  shows "topic_cmp (NominatePrepare n p) (NominatePrepare n'' p'') \<noteq> Greater"
  using assms(4,5) unfolding nominate_prepare_cmp_key [OF assms(1,2)]
    nominate_prepare_cmp_key [OF assms(2,3)] nominate_prepare_cmp_key [OF assms(1,3)]
  by (rule lin.cmp_trans [OF UNIV_I UNIV_I UNIV_I])

interpretation topic_ord: rust_ord "Collect canonical_topic" "topic_cmp :: 'v::linorder topic \<Rightarrow> _"
proof
  fix a b c :: "'v topic"
  show "topic_cmp b a = reverse_ordering (topic_cmp a b)" by (rule topic_cmp_swap)
  assume can: "a \<in> Collect canonical_topic" "b \<in> Collect canonical_topic" "c \<in> Collect canonical_topic"
    and ab: "topic_cmp a b \<noteq> Greater" and bc: "topic_cmp b c \<noteq> Greater"
  show "topic_cmp a c \<noteq> Greater"
  proof (cases "topic_rank a = topic_rank c")
    case False
    with topic_cmp_rank_le [OF ab] topic_cmp_rank_le [OF bc] topic_cmp_rank [of a c]
    show ?thesis by (auto simp: cmp_lin_def)
  next
    case True
    with topic_cmp_rank_le [OF ab] topic_cmp_rank_le [OF bc]
    have "topic_rank a = topic_rank b" "topic_rank b = topic_rank c" by auto
    with can ab bc show ?thesis
      by (cases a; cases b; cases c)
         (auto simp del: topic_cmp.simps(7)
           dest: nominate_prepare_cmp_trans nominate_ord.cmp_trans [rotated 3] prepare_ord.cmp_trans [rotated 3]
             commit_ord.cmp_trans [rotated 3] externalize_ord.cmp_trans [rotated 3])
  qed
qed

subsection \<open>Ranges of commit counters\<close>

definition in_range :: "(u32 \<times> u32) option \<Rightarrow> u32 \<Rightarrow> bool" where
  "in_range r n \<longleftrightarrow> (case r of None \<Rightarrow> False | Some (a, b) \<Rightarrow> a \<le> n \<and> n \<le> b)"

definition range_ok :: "(u32 \<times> u32) option \<Rightarrow> bool" where
  "range_ok r \<longleftrightarrow> (case r of None \<Rightarrow> True | Some (a, b) \<Rightarrow> a \<le> b)"

lemma range_overlap_total:
  "range_ok r \<Longrightarrow> lo \<le> hi \<Longrightarrow> \<exists>x. range_overlap r lo hi = Some x"
  by (auto simp: range_overlap_def range_ok_def split: option.splits)

lemma range_overlap_Some:
  assumes "range_overlap r lo hi = Some (Some (c, d))"
  shows "c \<le> d" and "c \<le> n \<and> n \<le> d \<longleftrightarrow> in_range r n \<and> lo \<le> n \<and> n \<le> hi"
  using assms
  by (auto simp: range_overlap_def in_range_def run_simps split: option.splits if_splits)

lemma range_overlap_None:
  assumes "range_overlap r lo hi = Some None" and "lo \<le> n" "n \<le> hi"
  shows "\<not> in_range r n"
  using assms
  by (auto simp: range_overlap_def in_range_def run_simps split: option.splits if_splits)

lemma INFINITY_max [simp]: "n \<le> INFINITY"
  by (simp add: INFINITY_def)

lemma validate_prepare_CN: "validate_prepare p = Inr () \<Longrightarrow> prep_CN p \<le> prep_HN p"
  by (auto simp: validate_prepare_def split: option.splits if_splits)

lemma msg_valid_ranges:
  assumes "msg_valid m"
  shows "range_ok (vote_commit_range m v)" and "range_ok (accept_commit_range m v)"
  using assms
  by (auto simp: validate_def range_ok_def vote_commit_range_def accept_commit_range_def
      dest: validate_prepare_CN split: topic.splits if_splits sum.splits)

lemma accept_commit_range_kind:
  "accept_commit_range m v = Some r \<Longrightarrow>
   (\<exists>p. topic m = Commit p \<and> b_X (com_B p) = v) \<or> (\<exists>p. topic m = Externalize p \<and> b_X (ext_C p) = v)"
  by (auto simp: accept_commit_range_def split: topic.splits if_splits)

text \<open>Accepting a commit is also voting for it, as far as the ranges of a valid message go.\<close>

lemma accept_commit_in_vote:
  "in_range (accept_commit_range m v) n \<Longrightarrow> in_range (vote_commit_range m v) n"
  by (auto simp: in_range_def vote_commit_range_def accept_commit_range_def
      split: topic.splits if_splits option.splits)

lemma finite_prepared [simp]:
  "finite (prepared_ballots p)" "finite (accepts_prepared m)" "finite (votes_or_accepts_prepared m)"
  by (auto simp: prepared_ballots_def accepts_prepared_def votes_or_accepts_prepared_def
      split: option.splits topic.splits)

lemma finite_msg_values [simp]: "finite (msg_values m)"
  by (auto simp: msg_values_def opt_ballot_values_def split: topic.splits option.splits)

subsection \<open>Properties\<close>

text \<open>
  C17. What a valid message accepts as committed for given values within the counters \<open>lo\<close> to
  \<open>hi\<close>: the query does not abort, and the range it returns holds exactly the counters between
  \<open>lo\<close> and \<open>hi\<close> that the message accepts.
\<close>

theorem accepts_commits_exact:
  assumes "msg_valid m" and "lo \<le> hi"
  shows "\<exists>r. accepts_commits m v lo hi = Some r \<and>
    (\<forall>n. in_range r n \<longleftrightarrow> in_range (accept_commit_range m v) n \<and> lo \<le> n \<and> n \<le> hi)"
proof -
  obtain r where r: "range_overlap (accept_commit_range m v) lo hi = Some r"
    using range_overlap_total msg_valid_ranges(2) assms by blast
  have "in_range r n \<longleftrightarrow> in_range (accept_commit_range m v) n \<and> lo \<le> n \<and> n \<le> hi" for n
  proof (cases r)
    case None
    with r range_overlap_None [of "accept_commit_range m v" lo hi n] show ?thesis by (auto simp: in_range_def)
  next
    case (Some cd)
    with r range_overlap_Some(2) [of "accept_commit_range m v" lo hi "fst cd" "snd cd" n] show ?thesis
      by (auto simp: in_range_def)
  qed
  with r assms(2) show ?thesis by (simp add: accepts_commits_def)
qed

theorem accepts_commits_exact_witness:
  "\<exists>r. accepts_commits (msg_new (1 :: int) (new_with_node_ids 1 [2]) 7
      (Commit \<lparr>com_B = Ballot 6 [5 :: int], com_PN = 6, com_CN = 3, com_HN = 6\<rparr>)) [5] 4 9 = Some r \<and>
     in_range r 5 \<and> \<not> in_range r 7"
proof -
  let ?m = "msg_new (1 :: int) (new_with_node_ids 1 [2]) 7
      (Commit \<lparr>com_B = Ballot 6 [5 :: int], com_PN = 6, com_CN = 3, com_HN = 6\<rparr>)"
  have "msg_valid ?m" by code_simp
  from accepts_commits_exact [OF this, of 4 9 "[5]"] obtain r where "accepts_commits ?m [5] 4 9 = Some r"
    "\<forall>n. in_range r n \<longleftrightarrow> in_range (accept_commit_range ?m [5]) n \<and> 4 \<le> n \<and> n \<le> 9" by auto
  then show ?thesis by (auto simp: accept_commit_range_def msg_new_def in_range_def)
qed

text \<open>
  On the topics a slot emits (no commit vote inside a nominate-prepare topic) the comparison
  of topics is a total preorder: reversing the arguments reverses the result, and not-greater is
  transitive.
\<close>

theorem topic_cmp_preorder:
  assumes "canonical_topic a" and "canonical_topic b" and "canonical_topic c"
    and "topic_cmp a b \<noteq> Greater" and "topic_cmp b c \<noteq> Greater"
  shows "topic_cmp a c \<noteq> Greater \<and> topic_cmp b a = reverse_ordering (topic_cmp a b)"
  using topic_ord.cmp_trans [of a b c] topic_cmp_swap [of b a] assms by simp

theorem topic_cmp_preorder_witness:
  "topic_cmp (Nominate \<lparr>nom_X = [1 :: int], nom_Y = []\<rparr>) (Externalize \<lparr>ext_C = Ballot 1 [1], ext_HN = 1\<rparr>) \<noteq> Greater"
  using topic_cmp_preorder [of "Nominate \<lparr>nom_X = [1 :: int], nom_Y = []\<rparr>"
      "Commit \<lparr>com_B = Ballot 1 [1], com_PN = 1, com_CN = 1, com_HN = 1\<rparr>"
      "Externalize \<lparr>ext_C = Ballot 1 [1], ext_HN = 1\<rparr>"]
  by simp

text \<open>
  On arbitrary topics it is not: three nominate-prepare topics, of which one differs from the
  others in its commit counter only, are pairwise "not greater" along a chain and greater from
  end to end.
\<close>

theorem topic_cmp_not_transitive:
  "\<exists>a b c :: int topic. topic_cmp a b \<noteq> Greater \<and> topic_cmp b c \<noteq> Greater \<and> topic_cmp a c = Greater"
proof -
  define p where "p cn = \<lparr>prep_B = Ballot 2 [1 :: int], prep_P = None, prep_PP = None, prep_CN = cn, prep_HN = 2\<rparr>" for cn
  define t where "t cn y = NominatePrepare \<lparr>nom_X = [], nom_Y = y\<rparr> (p cn)" for cn y
  have "topic_cmp (t 0 [1, 2]) (t 1 [1]) \<noteq> Greater" "topic_cmp (t 1 [1]) (t 0 [1]) \<noteq> Greater"
    "topic_cmp (t 0 [1, 2]) (t 0 [1]) = Greater"
    by (simp_all add: t_def p_def prepare_cmp_def nominate_cmp_def)
  then show ?thesis by blast
qed

end
