(* ===== verification/Scp_Predicates.thy ===== *)
theory Scp_Predicates
  imports Scp_Msg
begin

section \<open>Predicates over messages (\<^verbatim>\<open>consensus/scp/src/predicates.rs\<close>)\<close>

text \<open>
  The search for quorums and blocking sets is generic in a predicate that a message either
  refuses or narrows. The trait \<^verbatim>\<open>Predicate\<close> is the locale \<open>scp_predicate\<close>: behind a
  predicate stands a set of candidates, and a message that is accepted leaves exactly the
  candidates it supports. The four structs of the source follow, each with the closures
  \<^verbatim>\<open>slot.rs\<close> puts into it, and each is shown to satisfy the contract.
\<close>

locale scp_predicate =
  fixes test :: "'p \<Rightarrow> ('id, 'v) msg \<Rightarrow> 'p option run"
    and wf :: "'p \<Rightarrow> bool"
    and cand :: "'p \<Rightarrow> 'c set"
    and holds :: "('id, 'v) msg \<Rightarrow> 'c \<Rightarrow> bool"
    and ok :: "('id, 'v) msg \<Rightarrow> bool"
  assumes test_returns: "wf p \<Longrightarrow> ok m \<Longrightarrow> \<exists>r. test p m = Some r"
    and test_wf: "wf p \<Longrightarrow> ok m \<Longrightarrow> test p m = Some (Some p') \<Longrightarrow> wf p'"
    and test_narrows: "wf p \<Longrightarrow> ok m \<Longrightarrow> test p m = Some (Some p') \<Longrightarrow>
      cand p' = {c \<in> cand p. holds m c}"
    and test_nonempty: "wf p \<Longrightarrow> ok m \<Longrightarrow> test p m = Some (Some p') \<Longrightarrow> cand p' \<noteq> {}"
    and test_rejects: "wf p \<Longrightarrow> ok m \<Longrightarrow> test p m = Some None \<Longrightarrow> {c \<in> cand p. holds m c} = {}"
begin

lemma test_cases:
  assumes "wf p" and "ok m"
  obtains "test p m = Some None" and "\<And>c. c \<in> cand p \<Longrightarrow> \<not> holds m c"
  | p' where "test p m = Some (Some p')" and "wf p'" and "cand p' = {c \<in> cand p. holds m c}"
      and "cand p' \<noteq> {}"
proof -
  obtain r where r: "test p m = Some r" using test_returns [OF assms] by blast
  show thesis
  proof (cases r)
    case None
    with r test_rejects [OF assms] that(1) show ?thesis by auto
  next
    case (Some p')
    with r test_wf [OF assms] test_narrows [OF assms] test_nonempty [OF assms] that(2)
    show ?thesis by auto
  qed
qed

end

subsection \<open>\<^verbatim>\<open>ValueSetPredicate\<close>\<close>

record ('id, 'v) value_set_predicate =
  vsp_values :: "'v set"
  vsp_test_fn :: "('id, 'v) msg \<Rightarrow> 'v set \<Rightarrow> 'v set"

definition value_set_test ::
  "('id, 'v) value_set_predicate \<Rightarrow> ('id, 'v) msg \<Rightarrow> ('id, 'v) value_set_predicate option run" where
  "value_set_test p m =
     (if Set.is_empty (vsp_values p) then Some None
      else let next_values = vsp_test_fn p m (vsp_values p) in
        if Set.is_empty next_values then Some None
        else Some (Some (p\<lparr>vsp_values := next_values\<rparr>)))"

text \<open>
  The closure of the nomination queries: the values the message votes for or accepts,
  as \<open>f\<close> reads it from the message.
\<close>

definition value_closure ::
  "(('id, 'v) msg \<Rightarrow> 'v set option) \<Rightarrow> ('id, 'v) msg \<Rightarrow> 'v set \<Rightarrow> 'v set" where
  "value_closure f m vs = (case f m of None \<Rightarrow> {} | Some ws \<Rightarrow> vs \<inter> ws)"

definition supports_value :: "(('id, 'v) msg \<Rightarrow> 'v set option) \<Rightarrow> ('id, 'v) msg \<Rightarrow> 'v \<Rightarrow> bool" where
  "supports_value f m v \<longleftrightarrow> (case f m of None \<Rightarrow> False | Some ws \<Rightarrow> v \<in> ws)"

interpretation vsp: scp_predicate
  value_set_test "\<lambda>p. vsp_test_fn p = value_closure f" vsp_values "supports_value f" "\<lambda>_. True"
  for f :: "('id, 'v) msg \<Rightarrow> 'v set option"
  by unfold_locales
     (auto simp: value_set_test_def value_closure_def supports_value_def Let_def
       split: if_splits option.splits)

text \<open>
  \<^verbatim>\<open>filter_to_max_values\<close>: \<^verbatim>\<open>max_by\<close> returns the last of several maximal elements, and the
  comparison looks at the number of nodes first.
\<close>

fun max_by :: "('a \<Rightarrow> 'a \<Rightarrow> rust_ordering) \<Rightarrow> 'a \<Rightarrow> 'a list \<Rightarrow> 'a" where
  "max_by cmp x [] = x"
| "max_by cmp x (y # ys) = max_by cmp (if cmp x y = Greater then x else y) ys"

definition filter_to_max_values :: "('id set \<times> 'v::linorder list) list \<Rightarrow> 'v list option" where
  "filter_to_max_values results = (case results of
       [] \<Rightarrow> None
     | r # rs \<Rightarrow>
         Some (snd (max_by
           (\<lambda>a b. if card (fst a) \<noteq> card (fst b) then cmp_lin (card (fst a)) (card (fst b))
                  else cmp_lin (snd a) (snd b)) r rs)))"

subsection \<open>\<^verbatim>\<open>BallotSetPredicate\<close>\<close>

record ('id, 'v) ballot_set_predicate =
  bsp_ballots :: "'v ballot set"
  bsp_test_fn :: "('id, 'v) msg \<Rightarrow> 'v ballot set \<Rightarrow> 'v ballot set"

definition ballot_set_test ::
  "('id, 'v) ballot_set_predicate \<Rightarrow> ('id, 'v) msg \<Rightarrow> ('id, 'v) ballot_set_predicate option run" where
  "ballot_set_test p m =
     (if Set.is_empty (bsp_ballots p) then Some None
      else let nextBallots = bsp_test_fn p m (bsp_ballots p) in
        if Set.is_empty nextBallots then Some None
        else Some (Some (p\<lparr>bsp_ballots := nextBallots\<rparr>)))"

text \<open>
  The closure of the prepare queries: for every pair of a ballot of the message and a
  candidate with the same values, the one with the smaller counter.
\<close>

definition ballot_closure ::
  "(('id, 'v) msg \<Rightarrow> 'v ballot set) \<Rightarrow> ('id, 'v) msg \<Rightarrow> 'v ballot set \<Rightarrow> 'v ballot set" where
  "ballot_closure f m candidates =
     (\<Union>a \<in> f m. \<Union>b \<in> candidates.
        if b_X a = b_X b then {Ballot (min (b_N a) (b_N b)) (b_X a)} else {})"

definition supports_ballot ::
  "(('id, 'v) msg \<Rightarrow> 'v ballot set) \<Rightarrow> ('id, 'v) msg \<Rightarrow> 'v ballot \<Rightarrow> bool" where
  "supports_ballot f m b \<longleftrightarrow> (\<exists>a \<in> f m. ballot_below b a)"

text \<open>A set of ballots stands for every ballot below one of them.\<close>

definition below_some :: "'v ballot set \<Rightarrow> 'v ballot set" where
  "below_some S = {b. \<exists>c \<in> S. ballot_below b c}"

lemma below_some_empty [simp]: "below_some S = {} \<longleftrightarrow> S = {}"
  unfolding below_some_def by (blast intro: ballot_below_refl)

lemma below_some_iff: "b \<in> below_some S \<longleftrightarrow> (\<exists>c \<in> S. ballot_below b c)"
  by (simp add: below_some_def)

lemma ballot_closure_below:
  "below_some (ballot_closure f m S) = {b \<in> below_some S. supports_ballot f m b}"
proof (rule set_eqI, rule iffI)
  fix b
  assume "b \<in> below_some (ballot_closure f m S)"
  then show "b \<in> {b \<in> below_some S. supports_ballot f m b}"
    by (auto simp: below_some_def ballot_closure_def supports_ballot_def ballot_below_def
        split: if_splits) metis+
next
  fix b
  assume "b \<in> {b \<in> below_some S. supports_ballot f m b}"
  then obtain a c where "c \<in> S" "a \<in> f m" "ballot_below b c" "ballot_below b a"
    by (auto simp: below_some_def supports_ballot_def)
  then have "Ballot (min (b_N a) (b_N c)) (b_X a) \<in> ballot_closure f m S"
    unfolding ballot_closure_def by (intro UN_I [of a] UN_I [of c]) (auto simp: ballot_below_def)
  moreover have "ballot_below b (Ballot (min (b_N a) (b_N c)) (b_X a))"
    using \<open>ballot_below b c\<close> \<open>ballot_below b a\<close> by (simp add: ballot_below_def)
  ultimately show "b \<in> below_some (ballot_closure f m S)"
    unfolding below_some_def by blast
qed

interpretation bsp: scp_predicate
  ballot_set_test "\<lambda>p. bsp_test_fn p = ballot_closure f" "\<lambda>p. below_some (bsp_ballots p)"
  "supports_ballot f" "\<lambda>_. True"
  for f :: "('id, 'v) msg \<Rightarrow> 'v ballot set"
proof
  fix p p' :: "('id, 'v) ballot_set_predicate" and m :: "('id, 'v) msg"
  assume wf: "bsp_test_fn p = ballot_closure f"
  show "\<exists>r. ballot_set_test p m = Some r"
    by (simp add: ballot_set_test_def Let_def)
  show "{c \<in> below_some (bsp_ballots p). supports_ballot f m c} = {}"
    if "ballot_set_test p m = Some None"
    using that wf ballot_closure_below [of f m "bsp_ballots p"]
    by (auto simp: ballot_set_test_def Let_def below_some_def split: if_splits)
  assume acc: "ballot_set_test p m = Some (Some p')"
  then have p': "p' = p\<lparr>bsp_ballots := ballot_closure f m (bsp_ballots p)\<rparr>"
    and ne: "ballot_closure f m (bsp_ballots p) \<noteq> {}"
    using wf by (auto simp: ballot_set_test_def Let_def split: if_splits)
  show "bsp_test_fn p' = ballot_closure f" using p' wf by simp
  show "below_some (bsp_ballots p') = {c \<in> below_some (bsp_ballots p). supports_ballot f m c}"
    using p' ballot_closure_below [of f m] by simp
  show "below_some (bsp_ballots p') \<noteq> {}" using p' ne by simp
qed

subsection \<open>\<^verbatim>\<open>BallotRangePredicate\<close>\<close>

type_synonym 'v ballot_ranges = "('v list \<times> (u32 \<times> u32)) list"

record ('id, 'v) ballot_range_predicate =
  brp_ranges :: "'v ballot_ranges"
  brp_test_fn :: "('id, 'v) msg \<Rightarrow> 'v ballot_ranges \<Rightarrow> 'v ballot_ranges run"

definition ballot_range_test ::
  "('id, 'v) ballot_range_predicate \<Rightarrow> ('id, 'v) msg \<Rightarrow> ('id, 'v) ballot_range_predicate option run" where
  "ballot_range_test p m =
     (if brp_ranges p = [] then Some None
      else do {
        ballot_ranges \<leftarrow> brp_test_fn p m (brp_ranges p);
        if ballot_ranges = [] then Some None
        else Some (Some (p\<lparr>brp_ranges := ballot_ranges\<rparr>)) })"

text \<open>
  The two closures of the commit queries. The one over accepted commits asserts that the
  range it is given and the range it gets back are not empty.
\<close>

fun accept_range_closure :: "('id, 'v) msg \<Rightarrow> 'v ballot_ranges \<Rightarrow> 'v ballot_ranges run" where
  "accept_range_closure m [] = Some []"
| "accept_range_closure m ((v, lo, hi) # rs) = do {
     rust_assert (lo \<le> hi);
     r \<leftarrow> accepts_commits m v lo hi;
     case r of
       None \<Rightarrow> accept_range_closure m rs
     | Some (a, b) \<Rightarrow> do {
         rust_assert (a \<le> b);
         rest \<leftarrow> accept_range_closure m rs;
         Some ((v, a, b) # rest) } }"

fun vote_range_closure :: "('id, 'v) msg \<Rightarrow> 'v ballot_ranges \<Rightarrow> 'v ballot_ranges run" where
  "vote_range_closure m [] = Some []"
| "vote_range_closure m ((v, lo, hi) # rs) = do {
     r \<leftarrow> votes_or_accepts_commits m v lo hi;
     case r of
       None \<Rightarrow> vote_range_closure m rs
     | Some (a, b) \<Rightarrow> do {
         rest \<leftarrow> vote_range_closure m rs;
         Some ((v, a, b) # rest) } }"

definition supports_commit ::
  "(('id, 'v) msg \<Rightarrow> 'v list \<Rightarrow> (u32 \<times> u32) option) \<Rightarrow> ('id, 'v) msg \<Rightarrow> 'v list \<times> u32 \<Rightarrow> bool" where
  "supports_commit g m = (\<lambda>(v, n). in_range (g m v) n)"

definition ranges_wf :: "'v ballot_ranges \<Rightarrow> bool" where
  "ranges_wf rs \<longleftrightarrow> (\<forall>(v, lo, hi) \<in> set rs. lo \<le> hi)"

text \<open>The ballots a set of ranges stands for.\<close>

definition range_ballots :: "'v ballot_ranges \<Rightarrow> ('v list \<times> u32) set" where
  "range_ballots rs = {(v, n). \<exists>lo hi. (v, lo, hi) \<in> set rs \<and> lo \<le> n \<and> n \<le> hi}"

lemma range_ballots_Nil [simp]: "range_ballots [] = {}"
  by (simp add: range_ballots_def)

lemma range_ballots_Cons:
  "range_ballots ((v, lo, hi) # rs) = {(w, n). w = v \<and> lo \<le> n \<and> n \<le> hi} \<union> range_ballots rs"
  by (auto simp: range_ballots_def)

lemma range_ballots_empty: "ranges_wf rs \<Longrightarrow> range_ballots rs = {} \<longleftrightarrow> rs = []"
  by (cases rs) (auto simp: range_ballots_Cons ranges_wf_def)

text \<open>
  Both closures, on valid messages and non-empty ranges, return the ranges of the candidates
  the message supports.
\<close>

lemma accept_range_closure_spec:
  assumes "msg_valid m" and "ranges_wf rs"
  shows "\<exists>rs'. accept_range_closure m rs = Some rs' \<and> ranges_wf rs' \<and>
    range_ballots rs' = {c \<in> range_ballots rs. supports_commit accept_commit_range m c}"
  using assms(2)
proof (induction rs)
  case (Cons e rs)
  obtain v lo hi where e: "e = (v, lo, hi)" by (cases e) auto
  with Cons have lohi: "lo \<le> hi" and "ranges_wf rs" by (auto simp: ranges_wf_def)
  with Cons.IH obtain rs' where rs': "accept_range_closure m rs = Some rs'" "ranges_wf rs'"
    "range_ballots rs' = {c \<in> range_ballots rs. supports_commit accept_commit_range m c}" by blast
  let ?r = "accept_commit_range m v"
  obtain x where x: "range_overlap ?r lo hi = Some x"
    using range_overlap_total [OF msg_valid_ranges(2) [OF assms(1)] lohi] by blast
  show ?case
  proof (cases x)
    case None
    with x range_overlap_None [of ?r lo hi] lohi rs' e show ?thesis
      by (auto simp: accepts_commits_def range_ballots_Cons supports_commit_def)
  next
    case (Some ab)
    then obtain a b where ab: "x = Some (a, b)" by (cases ab) auto
    with x lohi rs' e range_overlap_Some [of ?r lo hi a b] show ?thesis
      by (auto simp: accepts_commits_def range_ballots_Cons supports_commit_def ranges_wf_def)
  qed
qed (simp add: ranges_wf_def)

lemma vote_range_closure_spec:
  assumes "msg_valid m" and "ranges_wf rs"
  shows "\<exists>rs'. vote_range_closure m rs = Some rs' \<and> ranges_wf rs' \<and>
    range_ballots rs' = {c \<in> range_ballots rs. supports_commit vote_commit_range m c}"
  using assms(2)
proof (induction rs)
  case (Cons e rs)
  obtain v lo hi where e: "e = (v, lo, hi)" by (cases e) auto
  with Cons have lohi: "lo \<le> hi" and "ranges_wf rs" by (auto simp: ranges_wf_def)
  with Cons.IH obtain rs' where rs': "vote_range_closure m rs = Some rs'" "ranges_wf rs'"
    "range_ballots rs' = {c \<in> range_ballots rs. supports_commit vote_commit_range m c}" by blast
  let ?r = "vote_commit_range m v"
  obtain x where x: "range_overlap ?r lo hi = Some x"
    using range_overlap_total [OF msg_valid_ranges(1) [OF assms(1)] lohi] by blast
  show ?case
  proof (cases x)
    case None
    with x range_overlap_None [of ?r lo hi] lohi rs' e show ?thesis
      by (auto simp: votes_or_accepts_commits_def range_ballots_Cons supports_commit_def)
  next
    case (Some ab)
    then obtain a b where ab: "x = Some (a, b)" by (cases ab) auto
    with x lohi rs' e range_overlap_Some [of ?r lo hi a b] show ?thesis
      by (auto simp: votes_or_accepts_commits_def range_ballots_Cons supports_commit_def ranges_wf_def)
  qed
qed (simp add: ranges_wf_def)

lemma ballot_range_predicate_contract:
  fixes closure :: "('id, 'v::linorder) msg \<Rightarrow> 'v ballot_ranges \<Rightarrow> 'v ballot_ranges run"
  assumes spec: "\<And>m rs. msg_valid m \<Longrightarrow> ranges_wf rs \<Longrightarrow>
    \<exists>rs'. closure m rs = Some rs' \<and> ranges_wf rs' \<and>
      range_ballots rs' = {c \<in> range_ballots rs. supports_commit g m c}"
  shows "scp_predicate ballot_range_test
    (\<lambda>p. brp_test_fn p = closure \<and> ranges_wf (brp_ranges p))
    (\<lambda>p. range_ballots (brp_ranges p)) (supports_commit g) msg_valid"
proof
  fix p p' :: "('id, 'v) ballot_range_predicate" and m :: "('id, 'v) msg"
  assume wf: "brp_test_fn p = closure \<and> ranges_wf (brp_ranges p)" and ok: "msg_valid m"
  then obtain rs' where rs': "closure m (brp_ranges p) = Some rs'" "ranges_wf rs'"
    "range_ballots rs' = {c \<in> range_ballots (brp_ranges p). supports_commit g m c}"
    using spec by blast
  show "\<exists>r. ballot_range_test p m = Some r"
    using wf rs' by (simp add: ballot_range_test_def)
  show "{c \<in> range_ballots (brp_ranges p). supports_commit g m c} = {}"
    if "ballot_range_test p m = Some None"
    using that wf rs' by (auto simp: ballot_range_test_def split: if_splits)
  assume acc: "ballot_range_test p m = Some (Some p')"
  then have p': "p' = p\<lparr>brp_ranges := rs'\<rparr>" and ne: "rs' \<noteq> []"
    using wf rs'(1) by (auto simp: ballot_range_test_def split: if_splits)
  show "brp_test_fn p' = closure \<and> ranges_wf (brp_ranges p')" using p' wf rs' by simp
  show "range_ballots (brp_ranges p') = {c \<in> range_ballots (brp_ranges p). supports_commit g m c}"
    using p' rs' by simp
  show "range_ballots (brp_ranges p') \<noteq> {}" using p' ne range_ballots_empty [OF rs'(2)] by simp
qed

interpretation arp: scp_predicate
  ballot_range_test "\<lambda>p. brp_test_fn p = accept_range_closure \<and> ranges_wf (brp_ranges p)"
  "\<lambda>p. range_ballots (brp_ranges p)" "supports_commit accept_commit_range"
  "msg_valid :: ('id, 'v::linorder) msg \<Rightarrow> bool"
  by (rule ballot_range_predicate_contract) (rule accept_range_closure_spec)

interpretation vrp: scp_predicate
  ballot_range_test "\<lambda>p. brp_test_fn p = vote_range_closure \<and> ranges_wf (brp_ranges p)"
  "\<lambda>p. range_ballots (brp_ranges p)" "supports_commit vote_commit_range"
  "msg_valid :: ('id, 'v::linorder) msg \<Rightarrow> bool"
  by (rule ballot_range_predicate_contract) (rule vote_range_closure_spec)

subsection \<open>\<^verbatim>\<open>FuncPredicate\<close>\<close>

record ('id, 'v) func_predicate =
  fp_test_fn :: "('id, 'v) msg \<Rightarrow> bool"

definition func_test ::
  "('id, 'v) func_predicate \<Rightarrow> ('id, 'v) msg \<Rightarrow> ('id, 'v) func_predicate option run" where
  "func_test p m = (if fp_test_fn p m then Some (Some p) else Some None)"

interpretation fp: scp_predicate
  func_test "\<lambda>p. fp_test_fn p = t" "\<lambda>_. {()}" "\<lambda>m _. t m" "\<lambda>_. True"
  for t :: "('id, 'v) msg \<Rightarrow> bool"
  by unfold_locales (auto simp: func_test_def split: if_splits)

end
