(* ===== verification/Scp_Quorum_Search.thy ===== *)
theory Scp_Quorum_Search
  imports Scp_Predicates
begin

section \<open>Searching quorums and blocking sets (\<^verbatim>\<open>consensus/scp/src/quorum_set_ext.rs\<close>)\<close>

text \<open>
  \<^verbatim>\<open>weight\<close>, \<^verbatim>\<open>findQuorum\<close> and \<^verbatim>\<open>findBlockingSet\<close> with their recursive helpers, the
  declarative notions they compute (a set satisfying a quorum set, a quorum, a blocking
  set), and the theorems inside \<open>scp_predicate\<close> that both searches return, that what they
  find is what it should be, and that they find something whenever one candidate is left
  and a quorum or blocking set for it exists.
\<close>

subsection \<open>The code\<close>

fun weight :: "'id quorum_set \<Rightarrow> 'id \<Rightarrow> u32 \<times> u32"
  and weight_members :: "u32 \<Rightarrow> u32 \<Rightarrow> 'id member_wrapper list \<Rightarrow> 'id \<Rightarrow> u32 \<times> u32" where
  "weight (QuorumSet t ms) n = weight_members t (of_nat (length ms)) ms n"
| "weight_members t len [] n = (0, 1)"
| "weight_members t len (None # ms) n = weight_members t len ms n"
| "weight_members t len (Some (Node i) # ms) n =
     (if i = n then (t, len) else weight_members t len ms n)"
| "weight_members t len (Some (InnerSet q) # ms) n =
     (case weight q n of (num2, denom2) \<Rightarrow>
        if num2 > 0 then (t * num2, len * denom2) else weight_members t len ms n)"

text \<open>
  \<^verbatim>\<open>findQuorumHelper\<close>. An empty set in the result is the failure value. \<^verbatim>\<open>members[0]\<close> is
  only read when \<^verbatim>\<open>0 < threshold <= members.len()\<close>. The search enters the quorum set of
  another node only after adding that node, which has a message, to \<^verbatim>\<open>nodes_so_far\<close>: the
  number of nodes with a message that are not in \<^verbatim>\<open>nodes_so_far\<close> bounds the depth.
\<close>

function findQuorumHelper ::
  "('p \<Rightarrow> ('id, 'v) msg \<Rightarrow> 'p option run) \<Rightarrow> u32 \<Rightarrow> 'id member_wrapper list \<Rightarrow>
   ('id \<times> ('id, 'v) msg) list \<Rightarrow> 'p \<Rightarrow> 'id set \<Rightarrow> ('id set \<times> 'p) run" where
  "findQuorumHelper test thr [] msgs pred ns =
     (if thr = 0 then Some (ns, pred) else Some ({}, pred))"
| "findQuorumHelper test thr (m # ms) msgs pred ns =
     (if thr = 0 then Some (ns, pred)
      else if unat thr > length (m # ms) then Some ({}, pred)
      else case m of
        Some (Node n) \<Rightarrow>
          if n \<in> ns then findQuorumHelper test (thr - 1) ms msgs pred ns
          else (case map_of msgs n of
            None \<Rightarrow> findQuorumHelper test thr ms msgs pred ns
          | Some msg \<Rightarrow> do {
              r \<leftarrow> test pred msg;
              case r of
                None \<Rightarrow> findQuorumHelper test thr ms msgs pred ns
              | Some nextPred \<Rightarrow> do {
                  (ns2, pred2) \<leftarrow> findQuorumHelper test (threshold (msg_quorum_set msg))
                      (members (msg_quorum_set msg)) msgs nextPred (insert n ns);
                  if \<not> Set.is_empty ns2 then findQuorumHelper test (thr - 1) ms msgs pred2 ns2
                  else findQuorumHelper test thr ms msgs pred ns } })
      | Some (InnerSet q) \<Rightarrow> do {
          (ns2, pred2) \<leftarrow> findQuorumHelper test (threshold q) (members q) msgs pred ns;
          if \<not> Set.is_empty ns2 then findQuorumHelper test (thr - 1) ms msgs pred2 ns2
          else findQuorumHelper test thr ms msgs pred ns }
      | None \<Rightarrow> findQuorumHelper test thr ms msgs pred ns)"
  by pat_completeness auto

lemma findQuorumHelper_grows:
  "findQuorumHelper_dom (test, thr, ms, msgs, pred, ns) \<Longrightarrow>
   findQuorumHelper test thr ms msgs pred ns = Some (ns2, pred2) \<Longrightarrow> ns2 = {} \<or> ns \<subseteq> ns2"
proof (induction test thr ms msgs pred ns arbitrary: ns2 pred2 rule: findQuorumHelper.pinduct)
  case (1 test thr msgs pred ns)
  then show ?case by (auto simp: findQuorumHelper.psimps split: if_splits)
next
  case (2 test thr m ms msgs pred ns)
  from "2.prems" "2.IH" show ?case
    unfolding findQuorumHelper.psimps(2) [OF "2.hyps"]
    by (fastforce simp: run_simps split: if_splits option.splits quorum_set_member.splits)
qed

lemma card_keys_antimono: "ns \<subseteq> ns2 \<Longrightarrow> card (keys msgs - ns2) \<le> card (keys msgs - ns)"
  by (rule card_mono) auto

lemma card_keys_insert:
  "map_of msgs n = Some m \<Longrightarrow> n \<notin> ns \<Longrightarrow> card (keys msgs - insert n ns) < card (keys msgs - ns)"
  by (rule psubset_card_mono) (auto dest: map_of_in_keys)

lemma members_size_inner: "members_size (members q) < Suc (qs_size q + k)"
  by (cases q) simp

lemma findQuorumHelper_card:
  assumes "findQuorumHelper_dom (test, thr, ms, msgs, pred, ns)"
    and "findQuorumHelper test thr ms msgs pred ns = Some (ns2, pred2)" and "x \<in> ns2"
  shows "card (keys msgs - ns2) \<le> card (keys msgs - ns)"
  using findQuorumHelper_grows [OF assms(1,2)] assms(3) by (auto intro: card_keys_antimono)

termination findQuorumHelper
  by (relation "inv_image (less_than <*lex*> less_than)
        (\<lambda>(test, thr, ms, msgs, pred, ns). (card (keys msgs - ns), members_size ms))")
     (auto simp: card_keys_insert members_size_inner
        dest!: findQuorumHelper_card dest: card_keys_insert order.strict_trans1)

definition findQuorum ::
  "('p \<Rightarrow> ('id, 'v) msg \<Rightarrow> 'p option run) \<Rightarrow> 'id quorum_set \<Rightarrow> 'id \<Rightarrow>
   ('id \<times> ('id, 'v) msg) list \<Rightarrow> 'p \<Rightarrow> ('id set \<times> 'p) run" where
  "findQuorum test q node_id msgs pred =
     findQuorumHelper test (threshold q) (members q) msgs pred {node_id}"

text \<open>
  \<^verbatim>\<open>findBlockingSetHelper\<close>. The number of members needed from an inner set is computed in
  \<^verbatim>\<open>u32\<close> and wraps for a threshold above its number of members plus one.
\<close>

definition blocking_needed :: "'id quorum_set \<Rightarrow> u32" where
  "blocking_needed q = of_nat (length (members q)) - threshold q + 1"

function findBlockingSetHelper ::
  "('p \<Rightarrow> ('id, 'v) msg \<Rightarrow> 'p option run) \<Rightarrow> u32 \<Rightarrow> 'id member_wrapper list \<Rightarrow>
   ('id \<times> ('id, 'v) msg) list \<Rightarrow> 'p \<Rightarrow> 'id set \<Rightarrow> ('id set \<times> 'p) run" where
  "findBlockingSetHelper test needed [] msgs pred ns =
     (if needed = 0 then Some (ns, pred) else Some ({}, pred))"
| "findBlockingSetHelper test needed (m # ms) msgs pred ns =
     (if needed = 0 then Some (ns, pred)
      else if unat needed > length (m # ms) then Some ({}, pred)
      else case m of
        Some (Node n) \<Rightarrow>
          (case map_of msgs n of
            None \<Rightarrow> findBlockingSetHelper test needed ms msgs pred ns
          | Some msg \<Rightarrow> do {
              r \<leftarrow> test pred msg;
              case r of
                None \<Rightarrow> findBlockingSetHelper test needed ms msgs pred ns
              | Some nextPred \<Rightarrow>
                  findBlockingSetHelper test (needed - 1) ms msgs nextPred (insert n ns) })
      | Some (InnerSet q) \<Rightarrow> do {
          (ns2, pred2) \<leftarrow> findBlockingSetHelper test (blocking_needed q) (members q) msgs pred ns;
          if \<not> Set.is_empty ns2 then findBlockingSetHelper test (needed - 1) ms msgs pred2 ns2
          else findBlockingSetHelper test needed ms msgs pred ns }
      | None \<Rightarrow> findBlockingSetHelper test needed ms msgs pred ns)"
  by pat_completeness auto

termination findBlockingSetHelper
  by (relation "measure (\<lambda>(test, needed, ms, msgs, pred, ns). members_size ms)")
     (auto simp: members_size_inner)

definition findBlockingSet ::
  "('p \<Rightarrow> ('id, 'v) msg \<Rightarrow> 'p option run) \<Rightarrow> 'id quorum_set \<Rightarrow>
   ('id \<times> ('id, 'v) msg) list \<Rightarrow> 'p \<Rightarrow> ('id set \<times> 'p) run" where
  "findBlockingSet test q msgs pred =
     findBlockingSetHelper test (blocking_needed q) (members q) msgs pred {}"

lemma wrapper_cases [case_names Absent NodeId Inner]:
  obtains "m = None" | n where "m = Some (Node n)" | q where "m = Some (InnerSet q)"
  by (cases m; cases "the m") auto

subsection \<open>What the searches are for\<close>

text \<open>
  \<open>sat S q\<close>: the set of nodes \<open>S\<close> contains a slice of the quorum set \<open>q\<close>, that is, at least
  \<^verbatim>\<open>threshold\<close> members of \<open>q\<close> are in \<open>S\<close> or, for inner sets, satisfied by \<open>S\<close>.
\<close>

fun sat :: "'id set \<Rightarrow> 'id quorum_set \<Rightarrow> bool"
  and sat_count :: "'id set \<Rightarrow> 'id member_wrapper list \<Rightarrow> nat" where
  "sat S (QuorumSet t ms) \<longleftrightarrow> unat t \<le> sat_count S ms"
| "sat_count S [] = 0"
| "sat_count S (None # ms) = sat_count S ms"
| "sat_count S (Some (Node n) # ms) = (if n \<in> S then 1 else 0) + sat_count S ms"
| "sat_count S (Some (InnerSet q) # ms) = (if sat S q then 1 else 0) + sat_count S ms"

text \<open>
  A quorum of the node \<open>v\<close> with quorum set \<open>q\<close>, as far as the messages \<open>msgs\<close> show: a set
  with \<open>v\<close> in it that satisfies \<open>q\<close> and the quorum set every other member declares.
\<close>

definition quorum_of ::
  "('id \<times> ('id, 'v) msg) list \<Rightarrow> 'id \<Rightarrow> 'id quorum_set \<Rightarrow> 'id set \<Rightarrow> bool" where
  "quorum_of msgs v q Q \<longleftrightarrow>
     v \<in> Q \<and> sat Q q \<and>
     (\<forall>n \<in> Q - {v}. \<exists>m. map_of msgs n = Some m \<and> sat Q (msg_quorum_set m))"

text \<open>A set blocks \<open>q\<close> when no slice of \<open>q\<close> avoids it.\<close>

definition blocking :: "'id quorum_set \<Rightarrow> 'id set \<Rightarrow> bool" where
  "blocking q S \<longleftrightarrow> (\<forall>T. sat T q \<longrightarrow> T \<inter> S \<noteq> {})"

definition msgs_ok :: "(('id, 'v) msg \<Rightarrow> bool) \<Rightarrow> ('id \<times> ('id, 'v) msg) list \<Rightarrow> bool" where
  "msgs_ok ok msgs \<longleftrightarrow> (\<forall>n m. map_of msgs n = Some m \<longrightarrow> ok m)"

lemma sat_monos:
  fixes q :: "'id quorum_set" and ms :: "'id member_wrapper list"
  shows "S \<subseteq> T \<Longrightarrow> sat S q \<Longrightarrow> sat T q"
    and "S \<subseteq> T \<Longrightarrow> sat_count S ms \<le> sat_count T ms"
  by (induction S q and S ms rule: sat_sat_count.induct) auto

lemmas sat_mono = sat_monos(1) and sat_count_mono = sat_monos(2)

lemma sat_unfold: "sat S q \<longleftrightarrow> unat (threshold q) \<le> sat_count S (members q)"
  by (cases q) simp

lemma sat_count_Cons:
  "sat_count S (m # ms) = sat_count S [m] + sat_count S ms" "sat_count S [m] \<le> 1"
  by (cases m; cases "the m"; force)+

lemma sat_count_le: "sat_count S ms \<le> length ms"
proof (induction ms)
  case (Cons m ms)
  with sat_count_Cons(2) [of S m] show ?case by (simp add: sat_count_Cons(1) [of S m ms])
qed simp

lemma blocking_iff: "blocking q S \<longleftrightarrow> \<not> sat (- S) q"
proof
  assume "\<not> sat (- S) q"
  then have "T \<inter> S \<noteq> {}" if "sat T q" for T
    using that sat_mono [of T "- S" q] by blast
  then show "blocking q S" by (simp add: blocking_def)
qed (auto simp: blocking_def)

subsection \<open>The search for a quorum\<close>

text \<open>The equations of a step that has members to look at, by the kind of the first one.\<close>

lemma findQuorumHelper_eqs:
  assumes "thr \<noteq> 0" and "unat thr \<le> Suc (length ms)"
  shows "findQuorumHelper test thr (None # ms) msgs p ns = findQuorumHelper test thr ms msgs p ns"
    and "n \<in> ns \<Longrightarrow> findQuorumHelper test thr (Some (Node n) # ms) msgs p ns =
      findQuorumHelper test (thr - 1) ms msgs p ns"
    and "n \<notin> ns \<Longrightarrow> map_of msgs n = None \<Longrightarrow>
      findQuorumHelper test thr (Some (Node n) # ms) msgs p ns = findQuorumHelper test thr ms msgs p ns"
    and "n \<notin> ns \<Longrightarrow> map_of msgs n = Some msg \<Longrightarrow>
      findQuorumHelper test thr (Some (Node n) # ms) msgs p ns = do {
        r \<leftarrow> test p msg;
        case r of
          None \<Rightarrow> findQuorumHelper test thr ms msgs p ns
        | Some nextPred \<Rightarrow> do {
            (ns2, pred2) \<leftarrow> findQuorumHelper test (threshold (msg_quorum_set msg))
                (members (msg_quorum_set msg)) msgs nextPred (insert n ns);
            if ns2 \<noteq> {} then findQuorumHelper test (thr - 1) ms msgs pred2 ns2
            else findQuorumHelper test thr ms msgs p ns } }"
    and "findQuorumHelper test thr (Some (InnerSet q) # ms) msgs p ns = do {
        (ns2, pred2) \<leftarrow> findQuorumHelper test (threshold q) (members q) msgs p ns;
        if ns2 \<noteq> {} then findQuorumHelper test (thr - 1) ms msgs pred2 ns2
        else findQuorumHelper test thr ms msgs p ns }"
  using assms by (simp_all cong: option.case_cong)

declare findQuorumHelper.simps(2) [simp del]

text \<open>The ways a step can succeed.\<close>

lemma findQuorumHelper_NodeE:
  assumes "findQuorumHelper test thr (Some (Node n) # ms) msgs p ns = Some (ns2, p2)"
    and thr: "thr \<noteq> 0" "unat thr \<le> Suc (length ms)"
  obtains (skip) "findQuorumHelper test thr ms msgs p ns = Some (ns2, p2)"
  | (seen) "n \<in> ns" "findQuorumHelper test (thr - 1) ms msgs p ns = Some (ns2, p2)"
  | (node) msg p' ns3 p3 where "n \<notin> ns" "map_of msgs n = Some msg"
      "test p msg = Some (Some p')" "ns3 \<noteq> {}"
      "findQuorumHelper test (threshold (msg_quorum_set msg)) (members (msg_quorum_set msg)) msgs
         p' (insert n ns) = Some (ns3, p3)"
      "findQuorumHelper test (thr - 1) ms msgs p3 ns3 = Some (ns2, p2)"
proof (cases "n \<in> ns \<or> map_of msgs n = None")
  case True
  with assms(1) seen skip show ?thesis
    by (cases "n \<in> ns") (auto simp: findQuorumHelper_eqs(2,3) [OF thr])
next
  case False
  with assms(1) obtain msg r
    where msg: "map_of msgs n = Some msg" "test p msg = Some r"
      and r: "(case r of None \<Rightarrow> findQuorumHelper test thr ms msgs p ns
        | Some nextPred \<Rightarrow> do {
            (ns3, p3) \<leftarrow> findQuorumHelper test (threshold (msg_quorum_set msg))
                (members (msg_quorum_set msg)) msgs nextPred (insert n ns);
            if ns3 \<noteq> {} then findQuorumHelper test (thr - 1) ms msgs p3 ns3
            else findQuorumHelper test thr ms msgs p ns }) = Some (ns2, p2)"
    by (auto simp: findQuorumHelper_eqs(4) [OF thr] bind_eq_Some_conv)
  show ?thesis
  proof (cases r)
    case None
    with r skip show ?thesis by simp
  next
    case (Some p')
    with r obtain ns3 p3
      where i: "findQuorumHelper test (threshold (msg_quorum_set msg))
           (members (msg_quorum_set msg)) msgs p' (insert n ns) = Some (ns3, p3)"
        "(if ns3 \<noteq> {} then findQuorumHelper test (thr - 1) ms msgs p3 ns3
          else findQuorumHelper test thr ms msgs p ns) = Some (ns2, p2)"
      by (auto simp: bind_eq_Some_conv)
    with node [OF _ msg(1) _ _ i(1)] skip False msg(2) Some show ?thesis
      by (cases "ns3 = {}") auto
  qed
qed

lemma findQuorumHelper_ConsE:
  assumes "findQuorumHelper test thr (m # ms) msgs p ns = Some (ns2, p2)" and "ns2 \<noteq> {}"
  obtains (finished) "thr = 0" "ns2 = ns" "p2 = p"
  | (skip) "findQuorumHelper test thr ms msgs p ns = Some (ns2, p2)"
  | (seen) n where "m = Some (Node n)" "n \<in> ns" "thr \<noteq> 0"
      "findQuorumHelper test (thr - 1) ms msgs p ns = Some (ns2, p2)"
  | (node) n msg p' ns3 p3 where "m = Some (Node n)" "n \<notin> ns" "thr \<noteq> 0" "map_of msgs n = Some msg"
      "test p msg = Some (Some p')" "ns3 \<noteq> {}"
      "findQuorumHelper test (threshold (msg_quorum_set msg)) (members (msg_quorum_set msg)) msgs
         p' (insert n ns) = Some (ns3, p3)"
      "findQuorumHelper test (thr - 1) ms msgs p3 ns3 = Some (ns2, p2)"
  | (inner) q ns3 p3 where "m = Some (InnerSet q)" "thr \<noteq> 0" "ns3 \<noteq> {}"
      "findQuorumHelper test (threshold q) (members q) msgs p ns = Some (ns3, p3)"
      "findQuorumHelper test (thr - 1) ms msgs p3 ns3 = Some (ns2, p2)"
proof (cases "thr = 0")
  case True
  with assms finished show ?thesis by (simp add: findQuorumHelper.simps(2))
next
  case False
  with assms have thr: "thr \<noteq> 0" "unat thr \<le> Suc (length ms)"
    by (auto simp: findQuorumHelper.simps(2) split: if_splits)
  consider "m = None" | n where "m = Some (Node n)" | q where "m = Some (InnerSet q)"
    by (cases m; cases "the m") auto
  then show ?thesis
  proof cases
    case 1
    with assms(1) skip show ?thesis by (simp add: findQuorumHelper_eqs(1) [OF thr])
  next
    case (2 n)
    with assms(1) have "findQuorumHelper test thr (Some (Node n) # ms) msgs p ns = Some (ns2, p2)"
      by simp
    then show ?thesis
      by (rule findQuorumHelper_NodeE [OF _ thr]) (use 2 thr skip seen node in \<open>blast+\<close>)
  next
    case (3 q)
    with assms(1) obtain ns3 p3
      where r: "findQuorumHelper test (threshold q) (members q) msgs p ns = Some (ns3, p3)"
        "(if ns3 \<noteq> {} then findQuorumHelper test (thr - 1) ms msgs p3 ns3
          else findQuorumHelper test thr ms msgs p ns) = Some (ns2, p2)"
      by (auto simp: findQuorumHelper_eqs(5) [OF thr] bind_eq_Some_conv)
    with inner [OF 3 thr(1) _ r(1)] skip show ?thesis by (cases "ns3 = {}") auto
  qed
qed

text \<open>
  The induction behind the termination of the search, independent of thresholds and
  predicates: the nodes found so far only grow, and a declared quorum set is entered only
  with a new node.
\<close>

lemma quorum_search_induct [case_names Nil Cons]:
  assumes Nil: "\<And>ns. P [] ns"
    and Cons: "\<And>m ms ns. (\<And>ns'. ns \<subseteq> ns' \<Longrightarrow> P ms ns') \<Longrightarrow>
      (\<And>q ns'. m = Some (InnerSet q) \<Longrightarrow> ns \<subseteq> ns' \<Longrightarrow> P (members q) ns') \<Longrightarrow>
      (\<And>n msg ms'. m = Some (Node n) \<Longrightarrow> n \<notin> ns \<Longrightarrow> map_of msgs n = Some msg \<Longrightarrow>
         P ms' (insert n ns)) \<Longrightarrow> P (m # ms) ns"
  shows "P ms ns"
proof (induction "(card (keys msgs - ns), members_size ms)" arbitrary: ms ns rule: less_induct)
  case less
  show ?case
  proof (cases ms)
    case (Cons m ms')
    have size: "members_size ms' < members_size ms"
      unfolding Cons by (cases m; cases "the m") auto
    have lex: "P ms2 ns2" if "ns \<subseteq> ns2" "members_size ms2 < members_size ms" for ms2 ns2
      using less that card_keys_antimono [of ns ns2 msgs] by (auto simp: less_prod_def)
    show ?thesis unfolding Cons
    proof (rule assms(2))
      show "P (members q) ns'" if "m = Some (InnerSet q)" "ns \<subseteq> ns'" for q ns'
        using lex [OF that(2)] that(1) members_size_inner [of q] by (simp add: Cons)
      show "P ms2 (insert n ns)" if "n \<notin> ns" "map_of msgs n = Some msg" for n msg ms2
        using less card_keys_insert [OF that(2,1)] by (auto simp: less_prod_def)
    qed (use lex size in auto)
  qed (simp add: Nil)
qed

lemma unat_pred_le: "thr \<noteq> (0 :: u32) \<Longrightarrow> unat (thr - 1) \<le> k \<Longrightarrow> unat thr \<le> Suc k"
  using unat_pred [of thr] unat_gt_0 [of thr] by simp

context scp_predicate
begin

text \<open>
  The nodes \<open>ns2\<close> extend \<open>ns\<close>: every new node sent a message, its quorum set is satisfied by
  \<open>ns2\<close>, and the candidates left are those all these messages support.
\<close>

definition extends ::
  "('id \<times> ('id, 'v) msg) list \<Rightarrow> 'id set \<Rightarrow> 'p \<Rightarrow> 'id set \<Rightarrow> 'p \<Rightarrow> bool" where
  "extends msgs ns p ns2 p2 \<longleftrightarrow>
     ns \<subseteq> ns2 \<and> wf p2 \<and> (cand p \<noteq> {} \<longrightarrow> cand p2 \<noteq> {}) \<and>
     cand p2 = {c \<in> cand p. \<forall>n \<in> ns2 - ns. \<forall>m. map_of msgs n = Some m \<longrightarrow> holds m c} \<and>
     (\<forall>n \<in> ns2 - ns. \<exists>m. map_of msgs n = Some m \<and> sat ns2 (msg_quorum_set m))"

lemma extends_refl: "wf p \<Longrightarrow> extends msgs ns p ns p"
  by (simp add: extends_def)

lemma extends_trans:
  assumes "extends msgs ns p ns2 p2" and "extends msgs ns2 p2 ns3 p3"
  shows "extends msgs ns p ns3 p3"
proof -
  have sub: "ns \<subseteq> ns2" "ns2 \<subseteq> ns3" using assms by (auto simp: extends_def)
  have "\<exists>m. map_of msgs n = Some m \<and> sat ns3 (msg_quorum_set m)" if "n \<in> ns3 - ns" for n
    using that assms sat_mono [OF sub(2)] unfolding extends_def by (cases "n \<in> ns2") blast+
  moreover have "cand p3 = {c \<in> cand p. \<forall>n \<in> ns3 - ns. \<forall>m. map_of msgs n = Some m \<longrightarrow> holds m c}"
    using assms sub unfolding extends_def by blast
  ultimately show ?thesis using assms sub by (auto simp: extends_def)
qed

lemma extends_node:
  assumes "wf p" "ok m" "map_of msgs n = Some m" "test p m = Some (Some p')" "n \<notin> ns"
    and "extends msgs (insert n ns) p' ns2 p2" and "sat ns2 (msg_quorum_set m)"
  shows "extends msgs ns p ns2 p2"
proof -
  have "cand p' = {c \<in> cand p. holds m c}" "cand p' \<noteq> {}"
    using assms test_narrows test_nonempty by blast+
  moreover have "ns2 - ns = insert n (ns2 - insert n ns)"
    using assms(5,6) by (auto simp: extends_def)
  ultimately show ?thesis using assms(3,6,7) by (auto simp: extends_def)
qed

lemma findQuorumHelper_sound:
  assumes ok: "msgs_ok ok msgs"
  shows "findQuorumHelper test thr ms msgs p ns = Some (ns2, p2) \<Longrightarrow> ns2 \<noteq> {} \<Longrightarrow> wf p \<Longrightarrow>
    extends msgs ns p ns2 p2 \<and> unat thr \<le> sat_count ns2 ms"
proof (induction ms ns arbitrary: thr p ns2 p2 rule: quorum_search_induct [where msgs = msgs])
  case (Nil ns)
  then show ?case by (auto simp: extends_refl split: if_splits)
next
  case (Cons m ms ns)
  show ?case using Cons.prems(1,2)
  proof (cases rule: findQuorumHelper_ConsE)
    case finished
    with Cons.prems show ?thesis by (simp add: extends_refl)
  next
    case skip
    from Cons.IH(1) [OF subset_refl this Cons.prems(2,3)] show ?thesis
      by (auto simp: sat_count_Cons(1) [of ns2 m ms])
  next
    case (seen n)
    from Cons.IH(1) [OF subset_refl seen(4) Cons.prems(2,3)]
    have e: "extends msgs ns p ns2 p2" and u: "unat (thr - 1) \<le> sat_count ns2 ms" by auto
    from e seen(2) have "n \<in> ns2" by (auto simp: extends_def)
    with e unat_pred_le [OF seen(3) u] seen(1) show ?thesis by simp
  next
    case (node n msg p' ns3 p3)
    have "ok msg" using ok node by (auto simp: msgs_ok_def)
    with node Cons.prems have "wf p'" by (auto intro: test_wf)
    from Cons.IH(3) [OF node(1,2,4,7,6) this]
    have 3: "extends msgs (insert n ns) p' ns3 p3" "sat ns3 (msg_quorum_set msg)"
      by (auto simp: sat_unfold)
    from extends_node [OF Cons.prems(3) \<open>ok msg\<close> node(4,5,2) 3]
    have e: "extends msgs ns p ns3 p3" .
    with Cons.IH(1) [OF _ node(8) Cons.prems(2)]
    have "extends msgs ns3 p3 ns2 p2" "unat (thr - 1) \<le> sat_count ns2 ms"
      by (auto simp: extends_def)
    then have u: "unat thr \<le> Suc (sat_count ns2 ms)" and e2: "extends msgs ns p ns2 p2"
      using unat_pred_le [OF node(3)] extends_trans [OF e] by auto
    have "n \<in> ns2" using 3(1) \<open>extends msgs ns3 p3 ns2 p2\<close> by (auto simp: extends_def)
    with e2 u node(1) show ?thesis by simp
  next
    case (inner q ns3 p3)
    from Cons.IH(2) [OF inner(1) subset_refl inner(4,3) Cons.prems(3)]
    have 3: "extends msgs ns p ns3 p3" "sat ns3 q" by (auto simp: sat_unfold)
    with Cons.IH(1) [OF _ inner(5) Cons.prems(2)]
    have 2: "extends msgs ns3 p3 ns2 p2" "unat (thr - 1) \<le> sat_count ns2 ms"
      by (auto simp: extends_def)
    with 3(2) have "sat ns2 q" using sat_mono [of ns3 ns2 q] by (simp add: extends_def)
    with extends_trans [OF 3(1) 2(1)] unat_pred_le [OF inner(2) 2(2)] inner(1) show ?thesis by simp
  qed
qed

lemma findQuorumHelper_returns:
  assumes ok: "msgs_ok ok msgs"
  shows "wf p \<Longrightarrow> \<exists>r. findQuorumHelper test thr ms msgs p ns = Some r"
proof (induction ms ns arbitrary: thr p rule: quorum_search_induct [where msgs = msgs])
  case (Cons m ms ns)
  note here = Cons.IH(1) [OF subset_refl Cons.prems]
  have after: "\<exists>r. (do {
      (ns2, pred2) \<leftarrow> findQuorumHelper test thr' ms' msgs p' ns';
      if ns2 \<noteq> {} then findQuorumHelper test (thr - 1) ms msgs pred2 ns2
      else findQuorumHelper test thr ms msgs p ns }) = Some r"
    if ret: "\<exists>r. findQuorumHelper test thr' ms' msgs p' ns' = Some r" and wf: "wf p'" and "ns \<subseteq> ns'"
    for thr' ms' p' ns'
  proof -
    obtain ns3 p3 where r: "findQuorumHelper test thr' ms' msgs p' ns' = Some (ns3, p3)"
      using ret by auto
    show ?thesis
    proof (cases "ns3 = {}")
      case False
      from findQuorumHelper_sound [OF ok r False wf] have "wf p3" "ns' \<subseteq> ns3"
        by (auto simp: extends_def)
      with Cons.IH(1) [of ns3 p3 "thr - 1"] \<open>ns \<subseteq> ns'\<close> False r show ?thesis by auto
    qed (use r here [of thr] in simp)
  qed
  show ?case
  proof (cases "thr = 0 \<or> unat thr > length (m # ms)")
    case False
    then have thr: "thr \<noteq> 0" "unat thr \<le> Suc (length ms)" by auto
    consider "m = None" | n where "m = Some (Node n)" "n \<in> ns \<or> map_of msgs n = None"
      | n msg where "m = Some (Node n)" "n \<notin> ns" "map_of msgs n = Some msg"
      | q where "m = Some (InnerSet q)"
      by (cases m; cases "the m") auto
    then show ?thesis
    proof cases
      case (2 n)
      with here [of thr] here [of "thr - 1"] show ?thesis
        by (cases "n \<in> ns") (auto simp: findQuorumHelper_eqs(2,3) [OF thr])
    next
      case (3 n msg)
      have "ok msg" using ok 3 by (auto simp: msgs_ok_def)
      from Cons.prems this show ?thesis
      proof (cases rule: test_cases)
        case (2 p')
        from after [OF Cons.IH(3) [OF 3 2(2)] 2(2) subset_insertI] 2 3(1) show ?thesis
          by (simp add: findQuorumHelper_eqs(4) [OF thr 3(2,3)])
      qed (use 3 here [of thr] in \<open>simp add: findQuorumHelper_eqs(4) [OF thr 3(2,3)]\<close>)
    next
      case (4 q)
      from after [OF Cons.IH(2) [OF 4 subset_refl Cons.prems] Cons.prems subset_refl] 4
      show ?thesis by (simp add: findQuorumHelper_eqs(5) [OF thr])
    qed (use here [of thr] in \<open>simp add: findQuorumHelper_eqs(1) [OF thr]\<close>)
  qed (auto simp: findQuorumHelper.simps(2))
qed auto

text \<open>
  With a single candidate left the search is complete: if the nodes outside \<open>A\<close> of some set
  \<open>Q\<close> all sent messages that support the candidate and declare quorum sets \<open>Q\<close> satisfies,
  then it finds a quorum.
\<close>

definition quorum_found :: "u32 \<Rightarrow> 'id member_wrapper list \<Rightarrow>
    ('id \<times> ('id, 'v) msg) list \<Rightarrow> 'p \<Rightarrow> 'id set \<Rightarrow> bool" where
  "quorum_found thr ms msgs p ns \<longleftrightarrow>
     (\<exists>ns2 p2. findQuorumHelper test thr ms msgs p ns = Some (ns2, p2) \<and> ns2 \<noteq> {})"

definition supporting :: "('id \<times> ('id, 'v) msg) list \<Rightarrow> 'c \<Rightarrow> 'id set \<Rightarrow> 'id set \<Rightarrow> bool" where
  "supporting msgs c A Q \<longleftrightarrow>
     (\<forall>n \<in> Q - A. \<exists>m. map_of msgs n = Some m \<and> holds m c \<and> sat Q (msg_quorum_set m))"

lemma single_candidate:
  assumes "msgs_ok ok msgs" and "findQuorumHelper test thr ms msgs p ns = Some (ns2, p2)"
    and "ns2 \<noteq> {}" and "wf p" and "cand p = {c}"
  shows "ns \<subseteq> ns2 \<and> wf p2 \<and> cand p2 = {c}"
  using findQuorumHelper_sound [OF assms(1-4)] assms(5) by (auto simp: extends_def)

lemma supportingD:
  "supporting msgs c A Q \<Longrightarrow> A \<subseteq> ns \<Longrightarrow> n \<notin> ns \<Longrightarrow> n \<in> Q \<Longrightarrow>
   \<exists>m. map_of msgs n = Some m \<and> holds m c \<and> sat Q (msg_quorum_set m)"
  unfolding supporting_def by blast

lemma quorum_found_node:
  assumes ok: "msgs_ok ok msgs" and Q: "supporting msgs c A Q" and "A \<subseteq> ns" and p: "wf p" "cand p = {c}"
    and thr: "thr \<noteq> 0" "unat thr \<le> Suc (length ms)" and n: "n \<notin> ns"
    and skip: "n \<notin> Q \<Longrightarrow> quorum_found thr ms msgs p ns"
    and enter: "\<And>msg p'. map_of msgs n = Some msg \<Longrightarrow> wf p' \<Longrightarrow> cand p' = {c} \<Longrightarrow>
      sat Q (msg_quorum_set msg) \<Longrightarrow>
      quorum_found (threshold (msg_quorum_set msg)) (members (msg_quorum_set msg)) msgs p' (insert n ns)"
    and after: "\<And>thr' ms' p' ns3 p3. findQuorumHelper test thr' ms' msgs p' (insert n ns) = Some (ns3, p3) \<Longrightarrow>
      ns3 \<noteq> {} \<Longrightarrow> wf p' \<Longrightarrow> cand p' = {c} \<Longrightarrow> quorum_found (thr - 1) ms msgs p3 ns3"
  shows "quorum_found thr (Some (Node n) # ms) msgs p ns"
proof (cases "map_of msgs n")
  case None
  with supportingD [OF Q \<open>A \<subseteq> ns\<close> n] have "n \<notin> Q" by auto
  with None skip show ?thesis by (simp add: quorum_found_def findQuorumHelper_eqs(3) [OF thr n])
next
  case (Some msg)
  have "ok msg" using ok Some by (auto simp: msgs_ok_def)
  with p(1) show ?thesis
  proof (cases rule: test_cases)
    case 1
    with supportingD [OF Q \<open>A \<subseteq> ns\<close> n] p(2) Some have "n \<notin> Q" by auto
    with 1 skip show ?thesis by (simp add: quorum_found_def findQuorumHelper_eqs(4) [OF thr n Some])
  next
    case (2 p')
    then have p': "cand p' = {c}" using p(2) by auto
    obtain ns3 p3 where r: "findQuorumHelper test (threshold (msg_quorum_set msg))
        (members (msg_quorum_set msg)) msgs p' (insert n ns) = Some (ns3, p3)"
      using findQuorumHelper_returns [OF ok 2(2)] by fast
    show ?thesis
    proof (cases "ns3 = {}")
      case True
      with enter [OF Some 2(2) p'] r have "\<not> sat Q (msg_quorum_set msg)" by (auto simp: quorum_found_def)
      with supportingD [OF Q \<open>A \<subseteq> ns\<close> n] Some have "n \<notin> Q" by auto
      with skip 2(1) r True show ?thesis
        by (simp add: quorum_found_def findQuorumHelper_eqs(4) [OF thr n Some])
    next
      case False
      with after [OF r False 2(2) p'] 2(1) r show ?thesis
        by (simp add: quorum_found_def findQuorumHelper_eqs(4) [OF thr n Some])
    qed
  qed
qed

lemma findQuorumHelper_complete:
  assumes ok: "msgs_ok ok msgs" and Q: "supporting msgs c A Q"
  shows "wf p \<Longrightarrow> cand p = {c} \<Longrightarrow> A \<subseteq> ns \<Longrightarrow> ns \<noteq> {} \<Longrightarrow> unat thr \<le> sat_count (Q \<union> ns) ms \<Longrightarrow>
    quorum_found thr ms msgs p ns"
proof (induction ms ns arbitrary: thr p rule: quorum_search_induct [where msgs = msgs])
  case (Nil ns)
  then show ?case by (auto simp: quorum_found_def unat_eq_0)
next
  case (Cons m ms ns)
  let ?k = "sat_count (Q \<union> ns)"
  have here: "quorum_found thr' ms msgs p ns" if "unat thr' \<le> ?k ms" for thr'
    using Cons.IH(1) [OF subset_refl Cons.prems(1-4) that] .
  have pred: "unat (thr - 1) \<le> ?k ms" if "thr \<noteq> 0"
    using Cons.prems(5) sat_count_Cons(2) [of "Q \<union> ns" m] unat_pred [OF that]
    by (simp add: sat_count_Cons(1) [of _ m ms])
  have after: "quorum_found (thr - 1) ms msgs p3 ns3"
    if r: "findQuorumHelper test thr' ms' msgs p' ns' = Some (ns3, p3)" "ns3 \<noteq> {}" "wf p'" "cand p' = {c}"
      and "ns \<subseteq> ns'" "thr \<noteq> 0" for thr' ms' p' ns' ns3 p3
  proof -
    from single_candidate [OF ok r] have 3: "ns' \<subseteq> ns3" "wf p3" "cand p3 = {c}" by auto
    have "?k ms \<le> sat_count (Q \<union> ns3) ms" using 3(1) \<open>ns \<subseteq> ns'\<close> by (intro sat_count_mono) auto
    with pred [OF \<open>thr \<noteq> 0\<close>] Cons.IH(1) [OF _ 3(2,3)] Cons.prems(3) 3(1) \<open>ns \<subseteq> ns'\<close> \<open>ns3 \<noteq> {}\<close>
    show ?thesis by (auto intro: order.trans)
  qed
  show ?case
  proof (cases "thr = 0")
    case True
    with Cons.prems(4) show ?thesis by (simp add: quorum_found_def findQuorumHelper.simps(2))
  next
    case False
    with Cons.prems(5) sat_count_le [of "Q \<union> ns" "m # ms"]
    have thr: "thr \<noteq> 0" "unat thr \<le> Suc (length ms)" by auto
    consider "m = None" | n where "m = Some (Node n)" "n \<in> ns"
      | n where "m = Some (Node n)" "n \<notin> ns" | q where "m = Some (InnerSet q)"
      by (cases m; cases "the m") auto
    then show ?thesis
    proof cases
      case 1
      with here [of thr] Cons.prems(5) show ?thesis
        by (simp add: quorum_found_def findQuorumHelper_eqs(1) [OF thr])
    next
      case (2 n)
      with here [OF pred [OF False]] show ?thesis
        by (simp add: quorum_found_def findQuorumHelper_eqs(2) [OF thr])
    next
      case (3 n)
      show ?thesis unfolding 3(1)
      proof (rule quorum_found_node [OF ok Q Cons.prems(3,1,2) thr 3(2)])
        show "quorum_found thr ms msgs p ns" if "n \<notin> Q"
          using here [of thr] that Cons.prems(5) 3 by simp
        show "quorum_found (threshold q) (members q) msgs p' (insert n ns)"
          if "map_of msgs n = Some msg" "wf p'" "cand p' = {c}" "sat Q q" for msg p' q
          using Cons.prems(3) that(4) sat_mono [of Q "Q \<union> insert n ns" q]
          by (intro Cons.IH(3) [OF 3 that(1-3)]) (auto simp: sat_unfold)
      qed (rule after [OF _ _ _ _ subset_insertI False])
    next
      case (4 q)
      obtain ns3 p3 where r: "findQuorumHelper test (threshold q) (members q) msgs p ns = Some (ns3, p3)"
        using findQuorumHelper_returns [OF ok Cons.prems(1)] by fast
      show ?thesis
      proof (cases "ns3 = {}")
        case True
        with Cons.IH(2) [OF 4 subset_refl Cons.prems(1-4), of "threshold q"] r
        have "\<not> sat (Q \<union> ns) q" by (auto simp: quorum_found_def sat_unfold)
        with here [of thr] Cons.prems(5) 4 r True show ?thesis
          by (simp add: quorum_found_def findQuorumHelper_eqs(5) [OF thr])
      next
        case ne: False
        with after [OF r ne Cons.prems(1,2) subset_refl False] 4 r show ?thesis
          by (simp add: quorum_found_def findQuorumHelper_eqs(5) [OF thr])
      qed
    qed
  qed
qed

text \<open>The three facts for \<^verbatim>\<open>findQuorum\<close> itself.\<close>

lemma findQuorum_returns:
  "msgs_ok ok msgs \<Longrightarrow> wf p \<Longrightarrow> \<exists>Q p2. findQuorum test q v msgs p = Some (Q, p2)"
  unfolding findQuorum_def using findQuorumHelper_returns by fast

lemma findQuorum_sound:
  assumes "msgs_ok ok msgs" and "wf p" and "findQuorum test q v msgs p = Some (Q, p2)" and "Q \<noteq> {}"
  shows "quorum_of msgs v q Q" and "wf p2" and "cand p \<noteq> {} \<Longrightarrow> cand p2 \<noteq> {}"
    and "cand p2 = {c \<in> cand p. \<forall>n \<in> Q - {v}. \<forall>m. map_of msgs n = Some m \<longrightarrow> holds m c}"
  using findQuorumHelper_sound [OF assms(1) assms(3) [unfolded findQuorum_def] assms(4,2)]
  by (auto simp: quorum_of_def extends_def sat_unfold)

lemma findQuorum_complete:
  assumes "msgs_ok ok msgs" and "wf p" and "cand p = {c}" and "quorum_of msgs v q Q"
    and "\<And>n m. n \<in> Q - {v} \<Longrightarrow> map_of msgs n = Some m \<Longrightarrow> holds m c"
  shows "\<exists>Q' p2. findQuorum test q v msgs p = Some (Q', p2) \<and> Q' \<noteq> {}"
proof -
  have "supporting msgs c {v} Q"
    using assms(4,5) unfolding supporting_def quorum_of_def by blast
  from findQuorumHelper_complete [OF assms(1) this assms(2,3) subset_refl, of "threshold q" "members q"]
  show ?thesis using assms(4)
    by (auto simp: quorum_found_def findQuorum_def quorum_of_def sat_unfold insert_absorb)
qed

end

end
