(* ===== verification/Scp_Blocking_Search.thy ===== *)
theory Scp_Blocking_Search
  imports Scp_Quorum_Search
begin

section \<open>The search for a blocking set\<close>

text \<open>
  The theorems about \<^verbatim>\<open>findBlockingSet\<close>, inside \<open>scp_predicate\<close>: it returns, the set it finds
  blocks the quorum set and supports the candidates left, and with one candidate it finds a
  blocking set whenever there is one.
\<close>

lemma findBlockingSetHelper_eqs:
  assumes "needed \<noteq> 0" and "unat needed \<le> Suc (length ms)"
  shows "findBlockingSetHelper test needed (None # ms) msgs p ns =
      findBlockingSetHelper test needed ms msgs p ns"
    and "map_of msgs n = None \<Longrightarrow> findBlockingSetHelper test needed (Some (Node n) # ms) msgs p ns =
      findBlockingSetHelper test needed ms msgs p ns"
    and "map_of msgs n = Some msg \<Longrightarrow> test p msg = Some None \<Longrightarrow>
      findBlockingSetHelper test needed (Some (Node n) # ms) msgs p ns =
      findBlockingSetHelper test needed ms msgs p ns"
    and "map_of msgs n = Some msg \<Longrightarrow> test p msg = Some (Some p') \<Longrightarrow>
      findBlockingSetHelper test needed (Some (Node n) # ms) msgs p ns =
      findBlockingSetHelper test (needed - 1) ms msgs p' (insert n ns)"
    and "findBlockingSetHelper test (blocking_needed q) (members q) msgs p ns = Some (ns3, p3) \<Longrightarrow>
      findBlockingSetHelper test needed (Some (InnerSet q) # ms) msgs p ns =
      (if ns3 \<noteq> {} then findBlockingSetHelper test (needed - 1) ms msgs p3 ns3
       else findBlockingSetHelper test needed ms msgs p ns)"
  using assms by simp_all

declare findBlockingSetHelper.simps(2) [simp del]

lemma length_le_members_size: "length ms \<le> members_size ms"
proof (induction ms)
  case (Cons m ms)
  then show ?case by (cases m; cases "the m") auto
qed simp

lemma members_size_tail: "members_size ms \<le> members_size (m # ms)"
  by (cases m; cases "the m") auto

text \<open>\<^verbatim>\<open>members.len() as u32 - threshold + 1\<close> when it is a number of members that exists.\<close>

lemma blocking_needed_exact:
  assumes "Suc (length (members q)) < 2 ^ 32" and "unat (blocking_needed q) \<le> length (members q)"
  shows "unat (blocking_needed q) + unat (threshold q) = Suc (length (members q))"
proof -
  let ?n = "word_of_nat (Suc (length (members q))) :: u32"
  have n: "unat ?n = Suc (length (members q))" using assms(1) by (rule unat_word_of_nat)
  have b: "blocking_needed q = ?n - threshold q" by (simp add: blocking_needed_def)
  show ?thesis
  proof (cases "threshold q \<le> ?n")
    case True
    then show ?thesis using n unat_sub [OF True] by (simp add: b word_le_nat_alt)
  next
    case False
    then have "unat (?n - threshold q) = unat ?n + 2 ^ 32 - unat (threshold q)"
      by (simp add: unat_sub_if_size word_size word_le_nat_alt)
    with assms(2) n u32_unat_less [of "threshold q"] show ?thesis by (simp add: b)
  qed
qed

lemma blocking_needed_valid:
  assumes "Suc (length (members q)) < 2 ^ 32" and "unat (threshold q) \<le> length (members q)"
  shows "unat (blocking_needed q) + unat (threshold q) = Suc (length (members q))"
    and "blocking_needed q \<noteq> 0"
proof -
  let ?n = "word_of_nat (Suc (length (members q))) :: u32"
  have n: "unat ?n = Suc (length (members q))" using assms(1) by (rule unat_word_of_nat)
  have "threshold q \<le> ?n" using n assms(2) by (simp add: word_le_nat_alt)
  with n have "unat (?n - threshold q) + unat (threshold q) = Suc (length (members q))"
    using unat_sub [of "threshold q" ?n] assms(2) by (simp add: word_le_nat_alt)
  moreover have "blocking_needed q = ?n - threshold q" by (simp add: blocking_needed_def)
  ultimately show *: "unat (blocking_needed q) + unat (threshold q) = Suc (length (members q))"
    by simp
  then show "blocking_needed q \<noteq> 0" using assms(2) by auto
qed

context scp_predicate
begin

definition bl_extends ::
  "('id \<times> ('id, 'v) msg) list \<Rightarrow> 'id set \<Rightarrow> 'p \<Rightarrow> 'id set \<Rightarrow> 'p \<Rightarrow> bool" where
  "bl_extends msgs ns p ns2 p2 \<longleftrightarrow>
     ns \<subseteq> ns2 \<and> wf p2 \<and> (cand p \<noteq> {} \<longrightarrow> cand p2 \<noteq> {}) \<and> cand p2 \<subseteq> cand p \<and>
     (\<forall>n \<in> ns2 - ns. \<exists>m. map_of msgs n = Some m \<and> (\<forall>c \<in> cand p2. holds m c))"

lemma bl_extendsD:
  assumes "bl_extends msgs ns p ns2 p2" and "n \<in> ns2" and "n \<notin> ns"
  shows "\<exists>m. map_of msgs n = Some m \<and> (\<forall>c \<in> cand p2. holds m c)"
  using assms unfolding bl_extends_def by simp

lemma bl_extends_trans:
  assumes 1: "bl_extends msgs ns p ns2 p2" and 2: "bl_extends msgs ns2 p2 ns3 p3"
  shows "bl_extends msgs ns p ns3 p3"
proof -
  have sub: "ns \<subseteq> ns2" "ns2 \<subseteq> ns3" "cand p2 \<subseteq> cand p" "cand p3 \<subseteq> cand p2"
    using 1 2 by (simp_all add: bl_extends_def)
  have "\<exists>m. map_of msgs n = Some m \<and> (\<forall>c \<in> cand p3. holds m c)" if n: "n \<in> ns3 - ns" for n
  proof (cases "n \<in> ns2")
    case True
    with bl_extendsD [OF 1] n obtain m where "map_of msgs n = Some m" "\<forall>c \<in> cand p2. holds m c"
      by blast
    with sub(4) show ?thesis by blast
  qed (use 2 n in \<open>simp add: bl_extends_def\<close>)
  with 1 2 sub show ?thesis by (simp add: bl_extends_def subset_trans [of _ ns2] subset_trans [of _ "cand p2"])
qed

lemma bl_extends_node:
  assumes "wf p" "ok m" "map_of msgs n = Some m" "test p m = Some (Some p')"
  shows "bl_extends msgs ns p (insert n ns) p'"
proof -
  have "wf p'" "cand p' = {c \<in> cand p. holds m c}" "cand p' \<noteq> {}"
    using test_wf test_narrows test_nonempty assms(1,2,4) by blast+
  with assms(3) show ?thesis by (auto simp: bl_extends_def)
qed

text \<open>
  What a call of the helper found: enough members are blocked by \<open>ns2\<close>, as long as no number
  of members wraps.
\<close>

definition bl_result ::
  "u32 \<Rightarrow> 'id member_wrapper list \<Rightarrow> ('id \<times> ('id, 'v) msg) list \<Rightarrow> 'p \<Rightarrow> 'id set \<Rightarrow> 'id set \<Rightarrow> 'p \<Rightarrow> bool" where
  "bl_result needed ms msgs p ns ns2 p2 \<longleftrightarrow>
     ns2 \<noteq> {} \<longrightarrow> bl_extends msgs ns p ns2 p2 \<and>
       (Suc (members_size ms) < 2 ^ 32 \<longrightarrow> unat needed + sat_count (- ns2) ms \<le> length ms)"

lemma bl_result_skip:
  "bl_result needed ms msgs p ns ns2 p2 \<Longrightarrow> bl_result needed (m # ms) msgs p ns ns2 p2"
  using sat_count_Cons(2) [of "- ns2" m] members_size_tail [of ms m]
  by (auto simp: bl_result_def sat_count_Cons(1) [of _ m ms])

lemma bl_result_count:
  assumes "bl_extends msgs ns p ns3 p3" and "bl_result (needed - 1) ms msgs p3 ns3 ns2 p2"
    and "Suc (members_size (m # ms)) < 2 ^ 32 \<Longrightarrow> sat_count (- ns3) [m] = 0" and "needed \<noteq> 0"
  shows "bl_result needed (m # ms) msgs p ns ns2 p2"
proof (cases "ns2 = {}")
  case False
  with assms(2) have e: "bl_extends msgs ns3 p3 ns2 p2" by (simp add: bl_result_def)
  have "unat needed + sat_count (- ns2) (m # ms) \<le> Suc (length ms)"
    if size: "Suc (members_size (m # ms)) < 2 ^ 32"
  proof -
    have "sat_count (- ns2) [m] = 0"
      using e assms(3) [OF size] sat_count_mono [of "- ns2" "- ns3" "[m]"] by (simp add: bl_extends_def)
    moreover have "unat (needed - 1) + sat_count (- ns2) ms \<le> length ms"
      using assms(2) False size members_size_tail [of ms m] by (simp add: bl_result_def)
    ultimately show ?thesis using unat_pred [OF assms(4)] unat_gt_0 [of needed] assms(4)
      by (simp add: sat_count_Cons(1) [of _ m ms])
  qed
  with bl_extends_trans [OF assms(1) e] show ?thesis by (simp add: bl_result_def)
qed (simp add: bl_result_def)

lemma bl_result_blocks:
  assumes "bl_result (blocking_needed q) (members q) msgs p ns ns2 p2" and "ns2 \<noteq> {}"
    and "qs_size q < 2 ^ 32"
  shows "\<not> sat (- ns2) q"
proof -
  have size: "Suc (members_size (members q)) < 2 ^ 32" "Suc (length (members q)) < 2 ^ 32"
    using assms(3) length_le_members_size [of "members q"] by (cases q; simp)+
  with assms blocking_needed_exact [OF size(2)] show ?thesis by (auto simp: bl_result_def sat_unfold)
qed

lemma findBlockingSetHelper_sound:
  assumes ok: "msgs_ok ok msgs"
  shows "wf p \<Longrightarrow> \<exists>ns2 p2. findBlockingSetHelper test needed ms msgs p ns = Some (ns2, p2) \<and>
      bl_result needed ms msgs p ns ns2 p2"
proof (induction ms ns arbitrary: needed p rule: quorum_search_induct [where msgs = "[] :: ('id \<times> nat) list"])
  case (Nil ns)
  then show ?case by (auto simp: bl_result_def bl_extends_def)
next
  case (Cons m ms ns)
  note here = Cons.IH(1) [OF subset_refl Cons.prems(1)]
  show ?case
  proof (cases "needed = 0 \<or> unat needed > length (m # ms)")
    case True
    with Cons.prems(1) sat_count_le [of "- ns" "m # ms"] show ?thesis
      by (auto simp: findBlockingSetHelper.simps(2) bl_result_def bl_extends_def)
  next
    case False
    then have needed: "needed \<noteq> 0" "unat needed \<le> Suc (length ms)" by auto
    note eqs = findBlockingSetHelper_eqs [OF needed, where test = test and msgs = msgs and p = p]
    show ?thesis
    proof (cases m rule: wrapper_cases)
      case Absent
      with here [of needed] show ?thesis by (auto simp: eqs(1) intro: bl_result_skip)
    next
      case (NodeId n)
      show ?thesis
      proof (cases "map_of msgs n")
        case None
        with here [of needed] NodeId show ?thesis by (auto simp: eqs(2) intro: bl_result_skip)
      next
        case (Some msg)
        have "ok msg" using ok Some by (auto simp: msgs_ok_def)
        with Cons.prems(1) show ?thesis
        proof (cases rule: test_cases)
          case 1
          with here [of needed] NodeId Some show ?thesis by (auto simp: eqs(3) intro: bl_result_skip)
        next
          case (2 p')
          have "bl_extends msgs ns p (insert n ns) p'"
            using Cons.prems(1) \<open>ok msg\<close> Some 2(1) by (rule bl_extends_node)
          note count = bl_result_count [OF this _ _ needed(1), where m = m]
          obtain ns2 p2 where "findBlockingSetHelper test (needed - 1) ms msgs p' (insert n ns) = Some (ns2, p2)"
            and "bl_result (needed - 1) ms msgs p' (insert n ns) ns2 p2"
            using Cons.IH(1) [OF subset_insertI 2(2)] by blast
          with count [of ms ns2 p2] NodeId eqs(4) [OF Some 2(1)] show ?thesis by simp
        qed
      qed
    next
      case (Inner q)
      obtain ns3 p3
        where r: "findBlockingSetHelper test (blocking_needed q) (members q) msgs p ns = Some (ns3, p3)"
          and b: "bl_result (blocking_needed q) (members q) msgs p ns ns3 p3"
        using Cons.IH(2) [OF Inner subset_refl Cons.prems(1)] by blast
      show ?thesis
      proof (cases "ns3 = {}")
        case True
        with here [of needed] Inner r show ?thesis by (auto simp: eqs(5) intro: bl_result_skip)
      next
        case False
        with b have e: "bl_extends msgs ns p ns3 p3" by (simp add: bl_result_def)
        then have "wf p3" "ns \<subseteq> ns3" by (auto simp: bl_extends_def)
        obtain ns2 p2 where "findBlockingSetHelper test (needed - 1) ms msgs p3 ns3 = Some (ns2, p2)"
          and "bl_result (needed - 1) ms msgs p3 ns3 ns2 p2"
          using Cons.IH(1) [OF \<open>ns \<subseteq> ns3\<close> \<open>wf p3\<close>] by blast
        with bl_result_count [OF e _ _ needed(1), of ms ns2 p2 m] bl_result_blocks [OF b False]
          False Inner eqs(5) [OF r]
        show ?thesis by simp
      qed
    qed
  qed
qed

text \<open>Completeness for a single candidate.\<close>

definition blocking_found :: "u32 \<Rightarrow> 'id member_wrapper list \<Rightarrow>
    ('id \<times> ('id, 'v) msg) list \<Rightarrow> 'p \<Rightarrow> 'id set \<Rightarrow> bool" where
  "blocking_found needed ms msgs p ns \<longleftrightarrow>
     (\<exists>ns2 p2. findBlockingSetHelper test needed ms msgs p ns = Some (ns2, p2) \<and> ns2 \<noteq> {})"

definition supporters :: "('id \<times> ('id, 'v) msg) list \<Rightarrow> 'c \<Rightarrow> 'id set" where
  "supporters msgs c = {n. \<exists>m. map_of msgs n = Some m \<and> holds m c}"

lemma findBlockingSetHelper_complete:
  assumes ok: "msgs_ok ok msgs"
  shows "wf p \<Longrightarrow> cand p = {c} \<Longrightarrow> is_valid_members ms \<Longrightarrow> Suc (members_size ms) < 2 ^ 32 \<Longrightarrow>
    unat needed + sat_count (- supporters msgs c) ms \<le> length ms \<Longrightarrow> (needed = 0 \<longrightarrow> ns \<noteq> {}) \<Longrightarrow>
    blocking_found needed ms msgs p ns"
proof (induction ms ns arbitrary: needed p rule: quorum_search_induct [where msgs = "[] :: ('id \<times> nat) list"])
  case (Nil ns)
  then show ?case by (auto simp: blocking_found_def unat_eq_0)
next
  case (Cons m ms ns)
  let ?k = "sat_count (- supporters msgs c)"
  have size: "Suc (members_size ms) < 2 ^ 32" and valid: "is_valid_members ms"
    using Cons.prems(3,4) by (cases m; cases "the m"; auto split: if_splits)+
  have tail: "blocking_found needed' ms msgs p' ns'"
    if "ns \<subseteq> ns'" "wf p'" "cand p' = {c}" "unat needed' + ?k ms \<le> length ms" "needed' = 0 \<longrightarrow> ns' \<noteq> {}"
    for needed' p' ns'
    using Cons.IH(1) [OF that(1-3) valid size that(4,5)] .
  show ?case
  proof (cases "needed = 0")
    case True
    with Cons.prems(6) show ?thesis by (simp add: blocking_found_def findBlockingSetHelper.simps(2))
  next
    case False
    then have needed: "needed \<noteq> 0" "unat needed \<le> Suc (length ms)" using Cons.prems(5) by auto
    note eqs = findBlockingSetHelper_eqs [OF needed, where test = test and msgs = msgs and p = p]
    have pred: "unat (needed - 1) + ?k ms \<le> length ms"
      using Cons.prems(5) unat_pred [OF needed(1)] unat_gt_0 [of needed] needed(1)
      by (simp add: sat_count_Cons(1) [of _ m ms])
    have skip: "blocking_found needed ms msgs p ns" if "?k [m] = 1"
      using tail [OF subset_refl Cons.prems(1,2), of needed] Cons.prems(5,6) that
      by (simp add: sat_count_Cons(1) [of _ m ms])
    show ?thesis
    proof (cases m rule: wrapper_cases)
      case Absent
      with Cons.prems(3) show ?thesis by simp
    next
      case (NodeId n)
      show ?thesis
      proof (cases "map_of msgs n")
        case None
        then have "n \<notin> supporters msgs c" by (simp add: supporters_def)
        with skip None NodeId show ?thesis by (simp add: blocking_found_def eqs(2))
      next
        case (Some msg)
        have "ok msg" using ok Some by (auto simp: msgs_ok_def)
        with Cons.prems(1) show ?thesis
        proof (cases rule: test_cases)
          case 1
          with Cons.prems(2) Some have "n \<notin> supporters msgs c" by (auto simp: supporters_def)
          with skip Some NodeId 1(1) show ?thesis by (simp add: blocking_found_def eqs(3))
        next
          case (2 p')
          then have "cand p' = {c}" using Cons.prems(2) by auto
          from tail [OF subset_insertI 2(2) this pred, of n] NodeId show ?thesis
            by (simp add: blocking_found_def eqs(4) [OF Some 2(1)])
        qed
      qed
    next
      case (Inner q)
      with Cons.prems(3,4) length_le_members_size [of "members q"]
      have sq: "Suc (members_size (members q)) < 2 ^ 32" "Suc (length (members q)) < 2 ^ 32"
        and vq: "is_valid_members (members q)" "unat (threshold q) \<le> length (members q)"
        by (cases q; auto split: if_splits)+
      obtain ns3 p3
        where r: "findBlockingSetHelper test (blocking_needed q) (members q) msgs p ns = Some (ns3, p3)"
          and b: "bl_result (blocking_needed q) (members q) msgs p ns ns3 p3"
        using findBlockingSetHelper_sound [OF ok Cons.prems(1)] by blast
      show ?thesis
      proof (cases "ns3 = {}")
        case True
        have "sat (- supporters msgs c) q"
        proof (rule ccontr)
          assume "\<not> sat (- supporters msgs c) q"
          with blocking_needed_valid [OF sq(2) vq(2)]
          have "blocking_found (blocking_needed q) (members q) msgs p ns"
            by (intro Cons.IH(2) [OF Inner subset_refl Cons.prems(1,2) vq(1) sq(1)])
               (auto simp: sat_unfold)
          with r True show False by (simp add: blocking_found_def)
        qed
        with skip r True Inner show ?thesis by (simp add: blocking_found_def eqs(5))
      next
        case False
        with b have "wf p3" "ns \<subseteq> ns3" "cand p3 = {c}"
          using Cons.prems(2) by (auto simp: bl_result_def bl_extends_def)
        with tail [of ns3 p3 "needed - 1"] pred False Inner show ?thesis
          by (simp add: blocking_found_def eqs(5) [OF r])
      qed
    qed
  qed
qed

text \<open>The three facts for \<^verbatim>\<open>findBlockingSet\<close> itself.\<close>

lemma findBlockingSet_result:
  assumes "msgs_ok ok msgs" and "wf p"
  shows "\<exists>B p2. findBlockingSet test q msgs p = Some (B, p2) \<and>
    bl_result (blocking_needed q) (members q) msgs p {} B p2"
  using findBlockingSetHelper_sound [OF assms] unfolding findBlockingSet_def by blast

lemma findBlockingSet_returns:
  "msgs_ok ok msgs \<Longrightarrow> wf p \<Longrightarrow> \<exists>B p2. findBlockingSet test q msgs p = Some (B, p2)"
  using findBlockingSet_result by blast

lemma findBlockingSet_sound:
  assumes "msgs_ok ok msgs" and "wf p"
    and "findBlockingSet test q msgs p = Some (B, p2)" and "B \<noteq> {}"
  shows "qs_size q < 2 ^ 32 \<Longrightarrow> blocking q B"
    and "wf p2" and "cand p2 \<subseteq> cand p" and "cand p \<noteq> {} \<Longrightarrow> cand p2 \<noteq> {}"
    and "n \<in> B \<Longrightarrow> \<exists>m. map_of msgs n = Some m \<and> (\<forall>c \<in> cand p2. holds m c)"
proof -
  have b: "bl_result (blocking_needed q) (members q) msgs p {} B p2"
    using findBlockingSet_result [OF assms(1,2), of q] assms(3) by auto
  then show "blocking q B" if "qs_size q < 2 ^ 32"
    using bl_result_blocks assms(4) that by (simp add: blocking_iff)
  have e: "bl_extends msgs {} p B p2" using b assms(4) by (simp add: bl_result_def)
  then show "wf p2" "cand p2 \<subseteq> cand p" "cand p \<noteq> {} \<Longrightarrow> cand p2 \<noteq> {}" by (simp_all add: bl_extends_def)
  show "\<exists>m. map_of msgs n = Some m \<and> (\<forall>c \<in> cand p2. holds m c)" if "n \<in> B"
    using bl_extendsD [OF e that] by simp
qed

lemma findBlockingSet_complete:
  assumes "msgs_ok ok msgs" and "wf p" and "cand p = {c}" and "is_valid q" and "qs_size q < 2 ^ 32"
    and "blocking q S" and "\<And>n. n \<in> S \<Longrightarrow> \<exists>m. map_of msgs n = Some m \<and> holds m c"
  shows "\<exists>B p2. findBlockingSet test q msgs p = Some (B, p2) \<and> B \<noteq> {}"
proof -
  have size: "Suc (members_size (members q)) < 2 ^ 32" "Suc (length (members q)) < 2 ^ 32"
    using assms(5) length_le_members_size [of "members q"] by (cases q; simp)+
  have valid: "is_valid_members (members q)" "unat (threshold q) \<le> length (members q)"
    using assms(4) by (cases q; simp split: if_splits)+
  have "- supporters msgs c \<subseteq> - S" using assms(7) by (auto simp: supporters_def)
  with assms(6) have "\<not> sat (- supporters msgs c) q" using sat_mono [of "- supporters msgs c" "- S" q] by (auto simp: blocking_iff)
  with blocking_needed_valid [OF size(2) valid(2)]
  have "blocking_found (blocking_needed q) (members q) msgs p {}"
    by (intro findBlockingSetHelper_complete [OF assms(1-3) valid(1) size(1)]) (auto simp: sat_unfold)
  then show ?thesis by (simp add: blocking_found_def findBlockingSet_def)
qed

end

subsection \<open>The weight of a node\<close>

text \<open>The largest product of member counts along a path of nested sets.\<close>

fun denom_bound :: "'id quorum_set \<Rightarrow> nat"
  and inner_bound :: "'id member_wrapper list \<Rightarrow> nat" where
  "denom_bound (QuorumSet t ms) = max 1 (length ms) * inner_bound ms"
| "inner_bound [] = 1"
| "inner_bound (None # ms) = inner_bound ms"
| "inner_bound (Some (Node n) # ms) = inner_bound ms"
| "inner_bound (Some (InnerSet q) # ms) = max (denom_bound q) (inner_bound ms)"

lemma inner_bound_pos [simp]: "Suc 0 \<le> inner_bound ms"
proof (induction ms)
  case (Cons m ms)
  then show ?case by (cases m; cases "the m") (auto simp: le_max_iff_disj)
qed simp

lemma weight_product:
  fixes t len num denom :: u32
  assumes "t \<le> len" "num \<le> denom" "len \<noteq> 0" "denom \<noteq> 0" "unat len * unat denom < 2 ^ 32"
  shows "len * denom \<noteq> 0" "t * num \<le> len * denom" "unat (len * denom) = unat len * unat denom"
proof -
  show d: "unat (len * denom) = unat len * unat denom"
    using assms(5) by (simp add: unat_word_ariths)
  have le: "unat t * unat num \<le> unat len * unat denom"
    using assms(1,2) by (simp add: word_le_nat_alt mult_le_mono)
  then have "unat (t * num) = unat t * unat num"
    using assms(5) by (simp add: unat_word_ariths)
  with d le show "t * num \<le> len * denom" by (simp add: word_le_nat_alt)
  show "len * denom \<noteq> 0" using d assms(3,4) by (metis mult_is_0 unat_eq_0)
qed

lemma weight_bounds:
  fixes q :: "'id quorum_set" and ms :: "'id member_wrapper list"
  shows "is_valid q \<Longrightarrow> denom_bound q < 2 ^ 32 \<Longrightarrow> weight q n = (a, b) \<Longrightarrow>
      b \<noteq> 0 \<and> a \<le> b \<and> unat b \<le> denom_bound q \<and> (a \<noteq> 0 \<longrightarrow> n \<in> nodes q)"
    and "is_valid_members ms \<Longrightarrow> t \<le> len \<Longrightarrow> (len = 0 \<longrightarrow> ms = []) \<Longrightarrow>
      max 1 (unat len) * inner_bound ms < 2 ^ 32 \<Longrightarrow> weight_members t len ms n = (a, b) \<Longrightarrow>
      b \<noteq> 0 \<and> a \<le> b \<and> unat b \<le> max 1 (unat len) * inner_bound ms \<and> (a \<noteq> 0 \<longrightarrow> n \<in> nodes_members ms)"
proof (induction q n and t len ms n arbitrary: a b and a b rule: weight_weight_members.induct)
  case (1 t ms n)
  have "max 1 (length ms) * 1 \<le> max 1 (length ms) * inner_bound ms" by (rule mult_le_mono2) simp
  with "1.prems"(2) have len: "length ms < 2 ^ 32" by simp
  then have u: "unat (of_nat (length ms) :: u32) = length ms" by (simp add: unat_word_of_nat)
  with len have "of_nat (length ms) = (0 :: u32) \<longrightarrow> ms = []" by (metis length_0_conv unat_0)
  with 1 u show ?case by (auto simp: word_le_nat_alt split: if_split_asm)
next
  case (2 t len n)
  then show ?case by auto
next
  case (4 t len i ms n)
  then show ?case by (auto simp: le_max_iff_disj intro!: order.trans [OF _ mult_le_mono2 [OF inner_bound_pos]] split: if_split_asm)
next
  case (5 t len q ms n)
  obtain num denom where w: "weight q n = (num, denom)" by force
  have "1 \<le> max 1 (unat len)" by simp
  then have "denom_bound q \<le> max 1 (unat len) * inner_bound (Some (InnerSet q) # ms)"
    using mult_le_mono [of 1 "max 1 (unat len)" "denom_bound q" "max (denom_bound q) (inner_bound ms)"] by simp
  with "5.prems"(4) have q: "denom_bound q < 2 ^ 32" by linarith
  have v: "is_valid q" "is_valid_members ms" using "5.prems"(1) by (auto split: if_split_asm)
  note i = "5.IH"(1) [OF v(1) q w]
  have le: "max 1 (unat len) * inner_bound ms \<le> max 1 (unat len) * inner_bound (Some (InnerSet q) # ms)"
    "max 1 (unat len) * denom_bound q \<le> max 1 (unat len) * inner_bound (Some (InnerSet q) # ms)"
    by (simp_all add: mult_le_mono2)
  show ?case
  proof (cases "num = 0")
    case True
    with "5.prems" w have "weight_members t len ms n = (a, b)" by simp
    moreover have rest: "max 1 (unat len) * inner_bound ms < 2 ^ 32"
      using le(1) "5.prems"(4) by (rule le_less_trans)
    ultimately have r: "b \<noteq> 0 \<and> a \<le> b \<and> unat b \<le> max 1 (unat len) * inner_bound ms \<and>
        (a \<noteq> 0 \<longrightarrow> n \<in> nodes_members ms)"
      using "5.IH"(2) [OF w [symmetric] _ v(2) "5.prems"(2) _ rest, of a b] True "5.prems"(3) by auto
    then have "unat b \<le> max 1 (unat len) * inner_bound (Some (InnerSet q) # ms)"
      using le(1) by (blast intro: order.trans)
    with r show ?thesis by auto
  next
    case False
    with "5.prems"(5) w have ab: "a = t * num" "b = len * denom" by (auto simp: word_gt_0)
    have len: "len \<noteq> 0" using "5.prems"(3) by auto
    have "unat len * unat denom \<le> max 1 (unat len) * denom_bound q" using i by (simp add: mult_le_mono)
    with le(2) "5.prems"(4) have bnd: "unat len * unat denom < 2 ^ 32"
      "unat len * unat denom \<le> max 1 (unat len) * inner_bound (Some (InnerSet q) # ms)" by linarith+
    from weight_product [OF "5.prems"(2) _ len _ bnd(1), of num] i ab bnd(2) False show ?thesis by auto
  qed
qed auto

fun nested_pair :: "nat \<Rightarrow> int quorum_set" where
  "nested_pair 0 = new_with_node_ids 1 [7, 8]"
| "nested_pair (Suc k) = qs_new 1 [InnerSet (nested_pair k), Node 9]"

lemma nested_pair_weight: "weight (nested_pair k) 7 = (1, 2 * 2 ^ k)"
  by (induction k) (simp_all add: qs_new_def new_with_node_ids_def)

lemma nested_pair_bound: "denom_bound (nested_pair k) = 2 * 2 ^ k"
  by (induction k) (simp_all add: qs_new_def new_with_node_ids_def)

lemma nested_pair_valid: "is_valid (nested_pair k)"
  by (induction k) (simp_all add: qs_new_def new_with_node_ids_def)

text \<open>
  Weight of a node: in a valid quorum set whose member counts multiply to less than 2^32
  along every path of nested sets, the weight is a fraction between 0 and 1 with a nonzero
  denominator, and only nodes of the quorum set have a nonzero weight.
\<close>

theorem weight_fraction:
  assumes "is_valid q" and "denom_bound q < 2 ^ 32" and "weight q n = (num, denom)"
  shows "denom \<noteq> 0 \<and> num \<le> denom \<and> (num \<noteq> 0 \<longrightarrow> n \<in> nodes q)"
  using weight_bounds(1) [OF assms] by blast

theorem weight_fraction_witness:
  "weight (nested_pair 2) 7 = (1, 8) \<and> (7 :: int) \<in> nodes (nested_pair 2)"
proof -
  have "denom_bound (nested_pair 2) < 2 ^ 32" by (simp add: nested_pair_bound)
  with weight_fraction [of "nested_pair 2" 7 1 8] show ?thesis
    by (simp add: nested_pair_weight nested_pair_valid)
qed

text \<open>
  Without the bound the denominator wraps to zero: two-member sets nested 32 deep form a valid
  quorum set in which a node has weight 1/0.
\<close>

theorem weight_denominator_wraps:
  "is_valid (nested_pair 31) \<and> weight (nested_pair 31) 7 = (1, 0)"
  by (simp add: nested_pair_weight nested_pair_valid)

subsection \<open>Properties of the searches\<close>

text \<open>
  C6. The search for a quorum whose messages satisfy a condition terminates without aborting,
  finds a quorum exactly when there is one, and what it finds is one.
\<close>

theorem findQuorum_exact:
  "\<exists>Q p. findQuorum func_test q v msgs \<lparr>fp_test_fn = t\<rparr> = Some (Q, p) \<and>
     (Q \<noteq> {} \<longleftrightarrow> (\<exists>R. quorum_of msgs v q R \<and> (\<forall>n \<in> R - {v}. \<forall>m. map_of msgs n = Some m \<longrightarrow> t m))) \<and>
     (Q \<noteq> {} \<longrightarrow> quorum_of msgs v q Q \<and> (\<forall>n \<in> Q - {v}. \<forall>m. map_of msgs n = Some m \<longrightarrow> t m))"
proof -
  let ?p = "\<lparr>fp_test_fn = t\<rparr>"
  have ok: "msgs_ok (\<lambda>_. True) msgs" by (simp add: msgs_ok_def)
  obtain Q p where f: "findQuorum func_test q v msgs ?p = Some (Q, p)"
    using fp.findQuorum_returns [OF ok, of ?p t q v] by auto
  have sound: "quorum_of msgs v q Q \<and> (\<forall>n \<in> Q - {v}. \<forall>m. map_of msgs n = Some m \<longrightarrow> t m)" if "Q \<noteq> {}"
    using fp.findQuorum_sound(1,4) [OF ok _ f that, of t] by (auto split: if_split_asm)
  have "Q \<noteq> {}" if "quorum_of msgs v q R" "\<forall>n \<in> R - {v}. \<forall>m. map_of msgs n = Some m \<longrightarrow> t m" for R
    using fp.findQuorum_complete [OF ok _ _ that(1), of ?p t] that(2) f by auto
  with f sound show ?thesis by blast
qed

definition ex_search_msgs :: "(int \<times> (int, int) msg) list" where
  "ex_search_msgs = map (\<lambda>n. (n, msg_new n (new_with_node_ids 2 [1, 2, 3, 4]) 7 (Nominate \<lparr>nom_X = [5], nom_Y = []\<rparr>))) [2, 3]"

theorem findQuorum_exact_witness:
  "\<exists>Q p. findQuorum func_test (new_with_node_ids 2 [2, 3, 4]) 1 ex_search_msgs \<lparr>fp_test_fn = (\<lambda>m. bN m = 0)\<rparr> = Some (Q, p) \<and>
     quorum_of ex_search_msgs 1 (new_with_node_ids 2 [2, 3, 4]) Q"
proof -
  have "quorum_of ex_search_msgs 1 (new_with_node_ids 2 [2, 3, 4]) {1, 2, 3}"
    by (simp add: quorum_of_def ex_search_msgs_def new_with_node_ids_def qs_new_def msg_new_def)
  moreover have "\<forall>n \<in> {1, 2, 3} - {1}. \<forall>m. map_of ex_search_msgs n = Some m \<longrightarrow> bN m = 0"
    by (simp add: ex_search_msgs_def msg_new_def bN_def)
  ultimately show ?thesis
    using findQuorum_exact [of "new_with_node_ids 2 [2, 3, 4]" 1 ex_search_msgs "\<lambda>m. bN m = 0"] by blast
qed

lemma findBlockingSet_func:
  assumes "is_valid q" and "qs_size q < 2 ^ 32"
  shows "\<exists>B p. findBlockingSet func_test q msgs \<lparr>fp_test_fn = t\<rparr> = Some (B, p) \<and>
     (B \<noteq> {} \<longleftrightarrow> blocking q {n. \<exists>m. map_of msgs n = Some m \<and> t m}) \<and>
     (B \<noteq> {} \<longrightarrow> blocking q B \<and> B \<subseteq> {n. \<exists>m. map_of msgs n = Some m \<and> t m})"
proof -
  let ?p = "\<lparr>fp_test_fn = t\<rparr>" and ?S = "{n. \<exists>m. map_of msgs n = Some m \<and> t m}"
  have ok: "msgs_ok (\<lambda>_. True) msgs" by (simp add: msgs_ok_def)
  obtain B p where f: "findBlockingSet func_test q msgs ?p = Some (B, p)"
    using fp.findBlockingSet_returns [OF ok, of ?p t q] by auto
  have sound: "blocking q B \<and> B \<subseteq> ?S" if "B \<noteq> {}"
    using fp.findBlockingSet_sound(1,5) [OF ok _ f that, of t] assms(2) by auto
  have "B \<noteq> {}" if "blocking q ?S"
    using fp.findBlockingSet_complete [OF ok _ _ assms that, of ?p t] f by auto
  moreover have "blocking q ?S" if "B \<noteq> {}"
    using sound [OF that] by (auto simp: blocking_def)
  ultimately show ?thesis using f sound by blast
qed

text \<open>
  C7. The search for a blocking set whose messages satisfy a condition terminates without
  aborting, and for a valid quorum set with fewer than 2^32 members it finds a set exactly when
  the nodes whose messages satisfy the condition block the quorum set; what it finds blocks it.
\<close>

theorem findBlockingSet_exact:
  assumes "is_valid q" and "qs_size q < 2 ^ 32"
  shows "\<exists>B p. findBlockingSet func_test q msgs \<lparr>fp_test_fn = t\<rparr> = Some (B, p) \<and>
     (B \<noteq> {} \<longleftrightarrow> blocking q {n. \<exists>m. map_of msgs n = Some m \<and> t m}) \<and>
     (B \<noteq> {} \<longrightarrow> blocking q B \<and> B \<subseteq> {n. \<exists>m. map_of msgs n = Some m \<and> t m})"
  using assms by (rule findBlockingSet_func)

theorem findBlockingSet_exact_witness:
  "\<exists>B p. findBlockingSet func_test (new_with_node_ids 2 [2, 3, 4]) ex_search_msgs \<lparr>fp_test_fn = (\<lambda>m. bN m = 0)\<rparr> = Some (B, p) \<and>
     blocking (new_with_node_ids 2 [2, 3, 4]) B"
proof -
  have q: "is_valid (new_with_node_ids 2 [2, 3, 4 :: int])" "qs_size (new_with_node_ids 2 [2, 3, 4 :: int]) < 2 ^ 32"
    by (simp_all add: new_with_node_ids_def qs_new_def)
  have "blocking (new_with_node_ids 2 [2, 3, 4]) {n. \<exists>m. map_of ex_search_msgs n = Some m \<and> bN m = 0}"
    by (simp add: blocking_iff ex_search_msgs_def msg_new_def bN_def new_with_node_ids_def qs_new_def)
  with findBlockingSet_exact [OF q, of ex_search_msgs "\<lambda>m. bN m = 0"] show ?thesis by blast
qed

end
