(* ===== verification/Scp_Slot.thy ===== *)
theory Scp_Slot
  imports Scp_Blocking_Search
begin

section \<open>The state of a slot and the federated-voting queries (\<^verbatim>\<open>consensus/scp/src/slot.rs\<close>)\<close>

text \<open>
  The struct \<^verbatim>\<open>Slot\<close>, its constructor, the choice of the nomination leader, and the queries
  every phase makes over the received messages: which values are accepted or confirmed
  nominated, which ballots accepted or confirmed prepared, which ranges accepted or
  confirmed committed.

  What a call reads from outside the struct is the record \<open>ambient\<close>: the clock (one reading
  per call, in milliseconds), the order in which a \<^verbatim>\<open>HashSet\<close> of node ids or of values is
  iterated, the hash behind \<^verbatim>\<open>mc_common::fast_hash\<close> as a 256-bit number, and the bytes of a
  node's public key.
\<close>

datatype phase = PhNominatePrepare | PhPrepare | PhCommit | PhExternalize

record ('id, 'v, 'e) slot =
  sl_index :: u64
  sl_node_id :: 'id
  sl_quorum_set :: "'id quorum_set"
  sl_M :: "('id \<times> ('id, 'v) msg) list"
  sl_W :: "'v set"
  sl_X :: "'v set"
  sl_Y :: "'v set"
  sl_Z :: "'v set"
  sl_B :: "'v ballot"
  sl_P :: "'v ballot option"
  sl_PP :: "'v ballot option"
  sl_H :: "'v ballot option"
  sl_C :: "'v ballot option"
  sl_phase :: phase
  sl_last_sent_msg :: "('id, 'v) msg option"
  sl_max_priority_peers :: "'id set"
  sl_nominate_round :: u32
  sl_next_nominate_round_at :: "int option"
  sl_next_ballot_at :: "int option"
  sl_validity_fn :: "'v \<Rightarrow> 'e + unit"
  sl_combine_fn :: "'v list \<Rightarrow> 'e + 'v list"
  sl_valid_values :: "'v set"
  sl_base_round_interval :: int
  sl_base_ballot_interval :: int

record ('id, 'v) ambient =
  now :: int
  node_iter :: "'id set \<Rightarrow> 'id list"
  value_iter :: "'v set \<Rightarrow> 'v list"
  fast_hash :: "u8 list \<Rightarrow> int"
  key_bytes :: "'id \<Rightarrow> u8 list"

text \<open>An iteration visits every element of the collection.\<close>

definition ambient_ok :: "('id, 'v) ambient \<Rightarrow> bool" where
  "ambient_ok a \<longleftrightarrow>
     (\<forall>S. finite S \<longrightarrow> set (node_iter a S) = S) \<and> (\<forall>S. finite S \<longrightarrow> set (value_iter a S) = S)"

record slot_metrics =
  met_phase :: phase
  num_voted_nominated :: nat
  num_accepted_nominated :: nat
  num_confirmed_nominated :: nat
  cur_nomination_round :: u32
  met_bN :: u32

definition get_metrics :: "('id, 'v, 'e) slot \<Rightarrow> slot_metrics" where
  "get_metrics s =
     \<lparr>met_phase = sl_phase s, num_voted_nominated = card (sl_X s),
      num_accepted_nominated = card (sl_Y s), num_confirmed_nominated = card (sl_Z s),
      cur_nomination_round = sl_nominate_round s, met_bN = b_N (sl_B s)\<rparr>"

subsection \<open>Choosing the nomination leader\<close>

text \<open>\<^verbatim>\<open>to_be_bytes\<close>.\<close>

definition be_bytes64 :: "u64 \<Rightarrow> u8 list" where
  "be_bytes64 w = map (\<lambda>i. ucast (drop_bit (8 * i) w)) [7, 6, 5, 4, 3, 2, 1, 0]"

definition be_bytes32 :: "u32 \<Rightarrow> u8 list" where
  "be_bytes32 w = map (\<lambda>i. ucast (drop_bit (8 * i) w)) [3, 2, 1, 0]"

definition slot_round_salted_keccak ::
  "('id, 'v) ambient \<Rightarrow> u64 \<Rightarrow> u8 \<Rightarrow> u32 \<Rightarrow> u8 list \<Rightarrow> int" where
  "slot_round_salted_keccak a slot_index extra_salt round_index bytes =
     fast_hash a (be_bytes64 slot_index @ [extra_salt] @ be_bytes32 round_index @ bytes)"

definition slot_weight :: "('id, 'v, 'e) slot \<Rightarrow> 'id \<Rightarrow> u32 \<times> u32" where
  "slot_weight s n = (if n = sl_node_id s then (1, 1) else weight (sl_quorum_set s) n)"

text \<open>
  \<^verbatim>\<open>U256::MAX * num / denom\<close>, computed in \<^verbatim>\<open>U512\<close> (the product of a 256-bit and a 32-bit
  number does not reach saturation) and narrowed to \<^verbatim>\<open>U256\<close> with \<^verbatim>\<open>expect\<close>.
\<close>

definition weight256 :: "u32 \<times> u32 \<Rightarrow> int run" where
  "weight256 w = (case w of (num, denom) \<Rightarrow>
     if denom = 0 then None
     else let t = (2 ^ 256 - 1) * uint num div uint denom in
       if t < 2 ^ 256 then Some t else None)"

definition neighbors ::
  "('id, 'v) ambient \<Rightarrow> ('id, 'v, 'e) slot \<Rightarrow> u64 \<Rightarrow> u32 \<Rightarrow> 'id list run" where
  "neighbors a s slot_index nomination_round =
     list_filterM (\<lambda>n. do {
         w \<leftarrow> weight256 (slot_weight s n);
         Some (slot_round_salted_keccak a slot_index 1 nomination_round (key_bytes a n) < w) })
       (sl_node_id s # node_iter a (nodes (sl_quorum_set s)))"

fun max_priority_loop ::
  "('id, 'v) ambient \<Rightarrow> ('id, 'v, 'e) slot \<Rightarrow> u32 \<Rightarrow> 'id list \<Rightarrow> 'id \<Rightarrow> int \<Rightarrow> 'id" where
  "max_priority_loop a s round [] result max_priority = result"
| "max_priority_loop a s round (n # ns) result max_priority =
     (if n \<in> sl_max_priority_peers s then max_priority_loop a s round ns result max_priority
      else let node_priority = slot_round_salted_keccak a (sl_index s) 2 round (key_bytes a n) in
        if node_priority > max_priority then max_priority_loop a s round ns n node_priority
        else max_priority_loop a s round ns result max_priority)"

definition find_max_priority_peer ::
  "('id, 'v) ambient \<Rightarrow> ('id, 'v, 'e) slot \<Rightarrow> u32 \<Rightarrow> 'id run" where
  "find_max_priority_peer a s round = do {
     ns \<leftarrow> neighbors a s (sl_index s) round;
     Some (max_priority_loop a s round ns (sl_node_id s) 0) }"

definition slot_init ::
  "'id \<Rightarrow> 'id quorum_set \<Rightarrow> u64 \<Rightarrow> ('v \<Rightarrow> 'e + unit) \<Rightarrow> ('v list \<Rightarrow> 'e + 'v list) \<Rightarrow>
   ('id, 'v, 'e) slot" where
  "slot_init node_id quorum_set slot_index validity_fn combine_fn =
     \<lparr>sl_index = slot_index, sl_node_id = node_id, sl_quorum_set = quorum_set, sl_M = [],
      sl_W = {}, sl_X = {}, sl_Y = {}, sl_Z = {}, sl_B = Ballot 0 [], sl_P = None, sl_PP = None,
      sl_H = None, sl_C = None, sl_phase = PhNominatePrepare, sl_last_sent_msg = None,
      sl_max_priority_peers = {}, sl_nominate_round = 1, sl_next_nominate_round_at = None,
      sl_next_ballot_at = None, sl_validity_fn = validity_fn, sl_combine_fn = combine_fn,
      sl_valid_values = {}, sl_base_round_interval = 1000, sl_base_ballot_interval = 1000\<rparr>"

definition slot_new ::
  "('id, 'v) ambient \<Rightarrow> 'id \<Rightarrow> 'id quorum_set \<Rightarrow> u64 \<Rightarrow> ('v \<Rightarrow> 'e + unit) \<Rightarrow>
   ('v list \<Rightarrow> 'e + 'v list) \<Rightarrow> ('id, 'v, 'e) slot run" where
  "slot_new a node_id quorum_set slot_index validity_fn combine_fn = do {
     let s = slot_init node_id quorum_set slot_index validity_fn combine_fn;
     peer \<leftarrow> find_max_priority_peer a s (sl_nominate_round s);
     Some (s\<lparr>sl_max_priority_peers := insert peer (sl_max_priority_peers s)\<rparr>) }"

definition slot_validate :: "('id, 'v, 'e) slot \<Rightarrow> 'v \<Rightarrow> ('e + unit) \<times> ('id, 'v, 'e) slot" where
  "slot_validate s value =
     (if value \<in> sl_valid_values s then (Inr (), s)
      else case sl_validity_fn s value of
        Inr _ \<Rightarrow> (Inr (), s\<lparr>sl_valid_values := insert value (sl_valid_values s)\<rparr>)
      | Inl err \<Rightarrow> (Inl err, s))"

subsection \<open>Federated voting\<close>

definition find_blocking_set ::
  "('p \<Rightarrow> ('id, 'v) msg \<Rightarrow> 'p option run) \<Rightarrow> ('id, 'v, 'e) slot \<Rightarrow> 'p \<Rightarrow> ('id set \<times> 'p) run" where
  "find_blocking_set test s pred = findBlockingSet test (sl_quorum_set s) (sl_M s) pred"

definition find_quorum ::
  "('p \<Rightarrow> ('id, 'v) msg \<Rightarrow> 'p option run) \<Rightarrow> ('id, 'v, 'e) slot \<Rightarrow> 'p \<Rightarrow> ('id set \<times> 'p) run" where
  "find_quorum test s pred = findQuorum test (sl_quorum_set s) (sl_node_id s) (sl_M s) pred"

definition accepted_nominated_candidates :: "('id, 'v, 'e) slot \<Rightarrow> 'v set" where
  "accepted_nominated_candidates s =
     (\<Union>(n, m) \<in> set (sl_M s).
        if n = sl_node_id s then {} else case accepts_nominated m of None \<Rightarrow> {} | Some vals \<Rightarrow> vals)"

definition additional_values_accepted_nominated :: "('id, 'v, 'e) slot \<Rightarrow> 'v set run" where
  "additional_values_accepted_nominated s = do {
     accepted_from_blocking_set \<leftarrow> set_filterM (\<lambda>value. do {
         (nodeIDs, _) \<leftarrow> find_blocking_set value_set_test s
           \<lparr>vsp_values = {value}, vsp_test_fn = value_closure accepts_nominated\<rparr>;
         Some (\<not> Set.is_empty nodeIDs) }) (accepted_nominated_candidates s);
     (nodeIDs, pred) \<leftarrow> find_quorum value_set_test s
       \<lparr>vsp_values = sl_X s, vsp_test_fn = value_closure votes_or_accepts_nominated\<rparr>;
     Some (accepted_from_blocking_set \<union> (if \<not> Set.is_empty nodeIDs then vsp_values pred else {})) }"

definition additional_values_confirmed_nominated :: "('id, 'v, 'e) slot \<Rightarrow> 'v set run" where
  "additional_values_confirmed_nominated s = do {
     (quorum_ids, pred) \<leftarrow> find_quorum value_set_test s
       \<lparr>vsp_values = sl_Y s - sl_Z s, vsp_test_fn = value_closure accepts_nominated\<rparr>;
     Some (if \<not> Set.is_empty quorum_ids then vsp_values pred else {}) }"

definition accepted_prepared_candidates :: "('id, 'v, 'e) slot \<Rightarrow> 'v ballot set" where
  "accepted_prepared_candidates s =
     (\<Union>n \<in> nodes (sl_quorum_set s).
        case map_of (sl_M s) n of None \<Rightarrow> {} | Some m \<Rightarrow> accepts_prepared m)"

definition local_prepare_votes :: "('id, 'v, 'e) slot \<Rightarrow> 'v ballot set" where
  "local_prepare_votes s =
     (if \<not> ballot_is_zero (sl_B s) then {sl_B s} else {}) \<union>
     (case sl_P s of
        None \<Rightarrow> {}
      | Some P \<Rightarrow> insert P (case sl_PP s of None \<Rightarrow> {} | Some PP \<Rightarrow> {PP}))"

definition ballots_accepted_prepared :: "('id, 'v, 'e) slot \<Rightarrow> 'v ballot set run" where
  "ballots_accepted_prepared s = do {
     accepted_from_blocking_set \<leftarrow> set_filterM (\<lambda>ballot. do {
         (nodeIDs, _) \<leftarrow> find_blocking_set ballot_set_test s
           \<lparr>bsp_ballots = {ballot}, bsp_test_fn = ballot_closure accepts_prepared\<rparr>;
         Some (\<not> Set.is_empty nodeIDs) }) (accepted_prepared_candidates s);
     (nodeIDs, pred) \<leftarrow> find_quorum ballot_set_test s
       \<lparr>bsp_ballots = local_prepare_votes s, bsp_test_fn = ballot_closure votes_or_accepts_prepared\<rparr>;
     Some (accepted_from_blocking_set \<union> (if \<not> Set.is_empty nodeIDs then bsp_ballots pred else {})) }"

definition ballots_confirmed_prepared :: "('id, 'v, 'e) slot \<Rightarrow> 'v ballot set run" where
  "ballots_confirmed_prepared s = do {
     candidates \<leftarrow> ballots_accepted_prepared s;
     (node_ids, pred) \<leftarrow> find_quorum ballot_set_test s
       \<lparr>bsp_ballots = candidates, bsp_test_fn = ballot_closure accepts_prepared\<rparr>;
     Some (if \<not> Set.is_empty node_ids then bsp_ballots pred else {}) }"

text \<open>
  The ranges other nodes of the quorum set accepted committed. A later message for the same
  values replaces the range of an earlier one, so the iteration order matters.
\<close>

fun accepted_committed_candidates ::
  "('id \<times> ('id, 'v) msg) list \<Rightarrow> 'id list \<Rightarrow> 'v ballot_ranges \<Rightarrow> 'v ballot_ranges run" where
  "accepted_committed_candidates msgs [] candidates = Some candidates"
| "accepted_committed_candidates msgs (n # ns) candidates =
     (case map_of msgs n of
        None \<Rightarrow> accepted_committed_candidates msgs ns candidates
      | Some m \<Rightarrow>
          (case topic m of
             Commit p \<Rightarrow> do {
               rust_assert (com_CN p \<le> com_HN p);
               accepted_committed_candidates msgs ns
                 (AList.update (b_X (com_B p)) (com_CN p, com_HN p) candidates) }
           | Externalize p \<Rightarrow>
               accepted_committed_candidates msgs ns
                 (AList.update (b_X (ext_C p)) (b_N (ext_C p), INFINITY) candidates)
           | _ \<Rightarrow> accepted_committed_candidates msgs ns candidates))"

definition local_commit_votes :: "('id, 'v, 'e) slot \<Rightarrow> 'v ballot_ranges run" where
  "local_commit_votes s =
     (case (sl_C s, sl_H s) of
        (Some C, Some H) \<Rightarrow> do {
          rust_assert (b_N C \<le> b_N H);
          Some [(b_X (sl_B s), (b_N C, b_N H))] }
      | _ \<Rightarrow> Some [])"

definition upsert_range :: "'v list \<times> (u32 \<times> u32) \<Rightarrow> 'v ballot_ranges \<Rightarrow> 'v ballot_ranges" where
  "upsert_range e ranges = (case e of (vals, a, b) \<Rightarrow>
     (case map_of ranges vals of
        Some (c, d) \<Rightarrow> AList.update vals (min a c, max b d) ranges
      | None \<Rightarrow> AList.update vals (a, b) ranges))"

definition ballots_accepted_committed ::
  "('id, 'v) ambient \<Rightarrow> ('id, 'v, 'e) slot \<Rightarrow> 'v ballot_ranges run" where
  "ballots_accepted_committed a s = do {
     candidates \<leftarrow>
       accepted_committed_candidates (sl_M s) (node_iter a (nodes (sl_quorum_set s))) [];
     accepted_from_blocking_set \<leftarrow> list_filterM (\<lambda>(vals, r). do {
         (nodeIDs, _) \<leftarrow> find_blocking_set ballot_range_test s
           \<lparr>brp_ranges = [(vals, r)], brp_test_fn = accept_range_closure\<rparr>;
         Some (\<not> Set.is_empty nodeIDs) }) candidates;
     votes \<leftarrow> local_commit_votes s;
     (nodeIDs, pred) \<leftarrow> find_quorum ballot_range_test s
       \<lparr>brp_ranges = votes, brp_test_fn = vote_range_closure\<rparr>;
     Some (fold upsert_range
       (accepted_from_blocking_set @ (if \<not> Set.is_empty nodeIDs then brp_ranges pred else [])) []) }"

definition ballots_confirmed_committed ::
  "('id, 'v) ambient \<Rightarrow> ('id, 'v, 'e) slot \<Rightarrow> (u32 \<times> u32) option run" where
  "ballots_confirmed_committed a s =
     (if \<not> (sl_phase s = PhCommit \<or> sl_phase s = PhExternalize \<or> sl_H s = None) then Some None
      else do {
        candidates \<leftarrow>
          (if sl_phase s = PhCommit
           then Some [(b_X (sl_B s),
                       (case sl_C s of None \<Rightarrow> 0 | Some c \<Rightarrow> b_N c,
                        case sl_H s of None \<Rightarrow> 0 | Some h \<Rightarrow> b_N h))]
           else if sl_phase s = PhExternalize
           then do {
             accepted \<leftarrow> ballots_accepted_committed a s;
             Some (case map_of accepted (b_X (sl_B s)) of
                     None \<Rightarrow> [] | Some r \<Rightarrow> [(b_X (sl_B s), r)]) }
           else Some []);
        (node_ids, pred) \<leftarrow> find_quorum ballot_range_test s
          \<lparr>brp_ranges = candidates, brp_test_fn = accept_range_closure\<rparr>;
        Some (if \<not> Set.is_empty node_ids then map_of (brp_ranges pred) (b_X (sl_B s)) else None) })"

end
