(* ===== verification/Scp_Slot_Phases.thy ===== *)
theory Scp_Slot_Phases
  imports Scp_Slot
begin

section \<open>The phases of a slot (\<^verbatim>\<open>consensus/scp/src/slot.rs\<close>)\<close>

text \<open>
  Nomination, the ballot timer, and the prepare, commit and externalize phases, as functions
  on the state that can abort. The two phases that call themselves again after raising the
  ballot counter are split into one pass and the repetition: a pass ends by returning from
  the phase (\<open>Return\<close>), by reaching the final check of the invariants (\<open>Continue\<close>), or by
  calling the phase again (\<open>Rerun\<close>).
\<close>

datatype 's flow = Return 's | Continue 's | Rerun 's

subsection \<open>Timers\<close>

definition schedule_next_nomination_round ::
  "('id, 'v) ambient \<Rightarrow> ('id, 'v, 'e) slot \<Rightarrow> ('id, 'v, 'e) slot" where
  "schedule_next_nomination_round a s =
     (if sl_next_nominate_round_at s = None
      then s\<lparr>sl_next_nominate_round_at :=
               Some (now a + sl_base_round_interval s * uint (sl_nominate_round s))\<rparr>
      else s)"

definition cancel_next_nomination_round :: "('id, 'v, 'e) slot \<Rightarrow> ('id, 'v, 'e) slot" where
  "cancel_next_nomination_round s = s\<lparr>sl_next_nominate_round_at := None\<rparr>"

definition cancel_next_ballot_timer :: "('id, 'v, 'e) slot \<Rightarrow> ('id, 'v, 'e) slot" where
  "cancel_next_ballot_timer s = s\<lparr>sl_next_ballot_at := None\<rparr>"

definition maybe_set_ballot_timer ::
  "('id, 'v) ambient \<Rightarrow> ('id, 'v, 'e) slot \<Rightarrow> ('id, 'v, 'e) slot run" where
  "maybe_set_ballot_timer a s =
     (if sl_phase s = PhExternalize then Some s
      else if sl_next_ballot_at s = None then do {
        (quorum_ids, _) \<leftarrow> find_quorum func_test s \<lparr>fp_test_fn = (\<lambda>m. bN m \<ge> b_N (sl_B s))\<rparr>;
        Some (if \<not> Set.is_empty quorum_ids
              then s\<lparr>sl_next_ballot_at :=
                       Some (now a + sl_base_ballot_interval s * uint (saturating_succ (b_N (sl_B s))))\<rparr>
              else s) }
      else Some s)"

subsection \<open>Nomination\<close>

definition update_YZ :: "('id, 'v, 'e) slot \<Rightarrow> ('id, 'v, 'e) slot run" where
  "update_YZ s = do {
     accepted \<leftarrow> additional_values_accepted_nominated s;
     let s = s\<lparr>sl_X := sl_X s - accepted, sl_Y := sl_Y s \<union> accepted\<rparr>;
     rust_assert (sl_X s \<inter> sl_Y s = {});
     confirmed \<leftarrow> additional_values_confirmed_nominated s;
     Some (s\<lparr>sl_Z := sl_Z s \<union> confirmed\<rparr>) }"

text \<open>The values the node takes over from its own proposals and from the leaders.\<close>

definition leader_values :: "('id, 'v, 'e) slot \<Rightarrow> 'v set" where
  "leader_values s =
     (if sl_node_id s \<in> sl_max_priority_peers s then sl_W s else {}) \<union>
     (\<Union>(n, m) \<in> set (sl_M s).
        if n \<noteq> sl_node_id s \<and> n \<in> sl_max_priority_peers s
        then (case topic m of
                Nominate p \<Rightarrow> set (nom_X p) \<union> set (nom_Y p)
              | NominatePrepare p _ \<Rightarrow> set (nom_X p) \<union> set (nom_Y p)
              | _ \<Rightarrow> {})
        else {})"

definition vote_nominate :: "('id, 'v, 'e) slot \<Rightarrow> ('id, 'v, 'e) slot run" where
  "vote_nominate s =
     (if Set.is_empty (sl_Z s) then do {
        let s = s\<lparr>sl_X := sl_X s \<union> (leader_values s - sl_Y s)\<rparr>;
        rust_assert (sl_X s \<inter> sl_Y s = {});
        Some s }
      else Some s)"

text \<open>The first ballot, once a value is confirmed nominated.\<close>

definition start_ballot ::
  "('id, 'v) ambient \<Rightarrow> ('id, 'v, 'e) slot \<Rightarrow> ('id, 'v, 'e) slot" where
  "start_ballot a s =
     (if \<not> Set.is_empty (sl_Z s) \<and> ballot_is_zero (sl_B s)
      then (case sl_combine_fn s (value_iter a (sl_Z s)) of
              Inr vals \<Rightarrow> s\<lparr>sl_B := Ballot 1 vals\<rparr>
            | Inl _ \<Rightarrow> s)
      else s)"

definition do_nominate_phase ::
  "('id, 'v) ambient \<Rightarrow> ('id, 'v, 'e) slot \<Rightarrow> ('id, 'v, 'e) slot run" where
  "do_nominate_phase a s = do {
     rust_assert (sl_phase s = PhNominatePrepare);
     s \<leftarrow> vote_nominate (schedule_next_nomination_round a s);
     s \<leftarrow> update_YZ s;
     Some (start_ballot a s) }"

subsection \<open>Ballot counters and values\<close>

text \<open>
  Every node of the set found by a \<^verbatim>\<open>FuncPredicate\<close> search sent a message the function
  accepts. The loop of \<^verbatim>\<open>get_unblocking_ballot_counter\<close> ends because of it.
\<close>

lemma find_blocking_set_func:
  assumes "find_blocking_set func_test s \<lparr>fp_test_fn = t\<rparr> = Some (ids, p)" and "n \<in> ids"
  shows "\<exists>m. map_of (sl_M s) n = Some m \<and> t m"
  using fp.findBlockingSet_sound(5)
    [of "sl_M s" "\<lparr>fp_test_fn = t\<rparr>" t "sl_quorum_set s" ids p n] assms
  by (auto simp: find_blocking_set_def msgs_ok_def)

text \<open>\<^verbatim>\<open>self.M[node_id].bN()\<close> for every node of the set; the index aborts when there is no message.\<close>

definition ballot_counters :: "('id, 'v, 'e) slot \<Rightarrow> 'id set \<Rightarrow> u32 set run" where
  "ballot_counters s ids =
     (if \<exists>n \<in> ids. map_of (sl_M s) n = None then None
      else Some ((\<lambda>n. bN (the (map_of (sl_M s) n))) ` ids))"

lemma find_blocking_set_finite:
  assumes "find_blocking_set func_test s \<lparr>fp_test_fn = t\<rparr> = Some (ids, p)"
  shows "finite ids"
proof (rule finite_subset)
  show "ids \<subseteq> keys (sl_M s)"
    using find_blocking_set_func [OF assms] by (auto dest: map_of_in_keys)
qed simp

lemma ballot_counters_higher:
  assumes "find_blocking_set func_test s \<lparr>fp_test_fn = (\<lambda>m. bN m > c)\<rparr> = Some (ids, p)"
    and "ballot_counters s ids = Some ns" and "iter_min ns = Some n"
  shows "c < n"
proof -
  have ns: "ns = (\<lambda>n. bN (the (map_of (sl_M s) n))) ` ids"
    using assms(2) by (auto simp: ballot_counters_def split: if_splits)
  with find_blocking_set_finite [OF assms(1)] assms(3) have "n \<in> ns"
    by (auto simp: iter_min_Some)
  with ns find_blocking_set_func [OF assms(1)] show ?thesis by fastforce
qed

function unblocking_loop :: "('id, 'v, 'e) slot \<Rightarrow> u32 \<Rightarrow> u32 run" where
  "unblocking_loop s unblocking_counter = do {
     (blocking_set, _) \<leftarrow>
       find_blocking_set func_test s \<lparr>fp_test_fn = (\<lambda>m. bN m > unblocking_counter)\<rparr>;
     if Set.is_empty blocking_set then Some unblocking_counter
     else do {
       counters \<leftarrow> ballot_counters s blocking_set;
       min_ballot_counter \<leftarrow> iter_min counters;
       unblocking_loop s min_ballot_counter } }"
  by pat_completeness auto

termination unblocking_loop
proof (relation "measure (\<lambda>(s, c). 2 ^ 32 - unat c)", simp)
  fix s :: "('id, 'v, 'e) slot" and c n r ids p ns
  assume "find_blocking_set func_test s \<lparr>fp_test_fn = (\<lambda>m. bN m > c)\<rparr> = Some r" "(ids, p) = r"
    "ballot_counters s ids = Some ns" "iter_min ns = Some n"
  then have "c < n" using ballot_counters_higher by blast
  then show "((s, n), (s, c)) \<in> measure (\<lambda>(s, c). 2 ^ 32 - unat c)"
    using u32_unat_less [of n] by (simp add: word_less_nat_alt diff_less_mono2)
qed

definition get_unblocking_ballot_counter :: "('id, 'v, 'e) slot \<Rightarrow> u32 run" where
  "get_unblocking_ballot_counter s = unblocking_loop s (b_N (sl_B s))"

declare unblocking_loop.simps [simp del]

definition combined_values :: "('id, 'v) ambient \<Rightarrow> ('id, 'v, 'e) slot \<Rightarrow> 'v list option" where
  "combined_values a s =
     (if \<not> Set.is_empty (sl_Z s)
      then (case sl_combine_fn s (value_iter a (sl_Z s)) of Inr vals \<Rightarrow> Some vals | Inl _ \<Rightarrow> None)
      else None)"

definition get_next_ballot_values ::
  "('id, 'v::linorder) ambient \<Rightarrow> ('id, 'v, 'e) slot \<Rightarrow> 'v list option run" where
  "get_next_ballot_values a s = do {
     confirmed \<leftarrow> ballots_confirmed_prepared s;
     case iter_max confirmed of
       Some h \<Rightarrow> Some (Some (b_X h))
     | None \<Rightarrow>
         (case combined_values a s of
            Some vals \<Rightarrow> Some (Some vals)
          | None \<Rightarrow> do {
              accepted \<leftarrow> ballots_accepted_prepared s;
              case iter_max accepted of
                Some p \<Rightarrow> Some (Some (b_X p))
              | None \<Rightarrow>
                  if \<not> ballot_is_zero (sl_B s) then Some (Some (b_X (sl_B s))) else Some None }) }"

subsection \<open>The prepare phase\<close>

definition prepare_phase_invariants :: "('id, 'v::linorder, 'e) slot \<Rightarrow> bool" where
  "prepare_phase_invariants s \<longleftrightarrow>
     (sl_phase s = PhNominatePrepare \<or> sl_phase s = PhPrepare) \<and>
     (case (sl_P s, sl_PP s) of (Some P, Some PP) \<Rightarrow> PP < P \<and> b_X PP \<noteq> b_X P | _ \<Rightarrow> True) \<and>
     (case sl_C s of
        Some C \<Rightarrow> (case sl_H s of Some H \<Rightarrow> b_N C \<le> b_N H \<and> b_X C = b_X H | None \<Rightarrow> False)
      | None \<Rightarrow> True)"

definition check_prepare_phase_invariants :: "('id, 'v::linorder, 'e) slot \<Rightarrow> unit run" where
  "check_prepare_phase_invariants s = rust_assert (prepare_phase_invariants s)"

text \<open>\<open>p\<close> is greater than and incompatible with \<open>b\<close>.\<close>

definition aborts :: "'v::linorder ballot option \<Rightarrow> 'v ballot \<Rightarrow> bool" where
  "aborts p b = (case p of None \<Rightarrow> False | Some p \<Rightarrow> p > b \<and> b_X p \<noteq> b_X b)"

text \<open>Step 1: the highest ballot accepted prepared, and the highest incompatible one below it.\<close>

definition prepare_step1 :: "('id, 'v::linorder, 'e) slot \<Rightarrow> ('id, 'v, 'e) slot flow run" where
  "prepare_step1 s = do {
     accepted_prepared \<leftarrow> ballots_accepted_prepared s;
     case iter_max accepted_prepared of
       None \<Rightarrow> Some (Continue s)
     | Some new_P \<Rightarrow>
         if (case sl_P s of Some current_P \<Rightarrow> new_P \<ge> current_P | None \<Rightarrow> True)
         then Some (Continue (s\<lparr>sl_P := Some new_P,
           sl_PP := iter_max (Set.filter (\<lambda>b. b < new_P \<and> b_X b \<noteq> b_X new_P) accepted_prepared)\<rparr>))
         else Some (Return s) }"

definition assert_PP_below_P :: "('id, 'v::linorder, 'e) slot \<Rightarrow> unit run" where
  "assert_PP_below_P s =
     rust_assert (case (sl_P s, sl_PP s) of (Some p, Some pp) \<Rightarrow> pp < p \<and> b_X p \<noteq> b_X pp | _ \<Rightarrow> True)"

definition prepare_abort_C :: "('id, 'v::linorder, 'e) slot \<Rightarrow> ('id, 'v, 'e) slot" where
  "prepare_abort_C s =
     (case sl_C s of
        Some c \<Rightarrow> if aborts (sl_P s) c \<or> aborts (sl_PP s) c then s\<lparr>sl_C := None\<rparr> else s
      | None \<Rightarrow> s)"

text \<open>Step 2: the highest ballot confirmed prepared ends nomination.\<close>

definition prepare_step2 :: "('id, 'v::linorder, 'e) slot \<Rightarrow> ('id, 'v, 'e) slot run" where
  "prepare_step2 s = do {
     confirmed \<leftarrow> ballots_confirmed_prepared s;
     case iter_max confirmed of
       None \<Rightarrow> Some s
     | Some h \<Rightarrow>
         let s = (if sl_phase s = PhNominatePrepare
                  then (cancel_next_nomination_round s)\<lparr>sl_phase := PhPrepare\<rparr> else s) in
         Some (s\<lparr>sl_H := Some (case sl_H s of Some current_h \<Rightarrow> max h current_h | None \<Rightarrow> h)\<rparr>) }"

definition assert_C_below_H :: "('id, 'v, 'e) slot \<Rightarrow> unit run" where
  "assert_C_below_H s =
     rust_assert (case (sl_C s, sl_H s) of (Some C, Some H) \<Rightarrow> b_N C \<le> b_N H | _ \<Rightarrow> True)"

text \<open>Step 3: vote to commit, from the lowest ballot not aborted.\<close>

definition raise_above :: "'v::linorder ballot option \<Rightarrow> 'v ballot \<Rightarrow> 'v ballot" where
  "raise_above p c = (case p of
       None \<Rightarrow> c
     | Some p \<Rightarrow>
         if p > c \<and> b_X p \<noteq> b_X c
         then Ballot (if b_X c > b_X p then b_N p else b_N p + 1) (b_X c)
         else c)"

definition prepare_step3 :: "('id, 'v::linorder, 'e) slot \<Rightarrow> ('id, 'v, 'e) slot run" where
  "prepare_step3 s =
     (case (sl_C s, sl_H s) of
        (None, Some h) \<Rightarrow>
          if sl_B s \<le> h \<and> \<not> aborts (sl_P s) h \<and> \<not> aborts (sl_PP s) h
          then do {
            let c = Ballot (if b_X h \<ge> b_X (sl_B s) then b_N (sl_B s) else b_N (sl_B s) + 1) (b_X h);
            let c = raise_above (sl_P s) c;
            let c = raise_above (sl_PP s) c;
            rust_assert (sl_B s \<le> c);
            rust_assert (b_X c = b_X h);
            rust_assert (b_N c \<le> b_N h);
            Some (s\<lparr>sl_C := Some c\<rparr>) }
          else Some s
      | _ \<Rightarrow> Some s)"

text \<open>Steps 4 and 8 move the ballot up to \<open>h\<close>; a new value needs a new counter.\<close>

definition raise_to :: "'v ballot \<Rightarrow> 'v ballot \<Rightarrow> 'v ballot" where
  "raise_to b h =
     (if b_X b \<noteq> b_X h then Ballot (max (b_N b + 1) (b_N h)) (b_X h)
      else Ballot (max (b_N b) (b_N h)) (b_X h))"

text \<open>Step 4: a ballot accepted committed starts the commit phase.\<close>

definition prepare_step4 ::
  "('id, 'v::linorder) ambient \<Rightarrow> ('id, 'v, 'e) slot \<Rightarrow> ('id, 'v, 'e) slot flow run" where
  "prepare_step4 a s = do {
     accept_commits \<leftarrow> ballots_accepted_committed a s;
     case iter_min ((\<lambda>(vals, lo, hi). Ballot lo vals) ` set accept_commits) of
       None \<Rightarrow> Some (Continue s)
     | Some c \<Rightarrow> do {
         h \<leftarrow> iter_max ((\<lambda>(vals, lo, hi). Ballot hi vals) `
                Set.filter (\<lambda>(vals, _). vals = b_X c) (set accept_commits));
         rust_assert (b_N c \<le> b_N h);
         let s = cancel_next_nomination_round
           (s\<lparr>sl_C := Some c, sl_H := Some h, sl_B := raise_to (sl_B s) h, sl_phase := PhCommit\<rparr>);
         accepted_prepared \<leftarrow> ballots_accepted_prepared s;
         let s = s\<lparr>sl_P := iter_max (Set.filter (\<lambda>p. b_X p = b_X (sl_B s)) accepted_prepared)\<rparr>;
         rust_assert (sl_P s \<noteq> None);
         Some (Return (s\<lparr>sl_PP := None\<rparr>)) } }"

definition prepare_step8 :: "('id, 'v, 'e) slot \<Rightarrow> ('id, 'v, 'e) slot" where
  "prepare_step8 s =
     (case sl_H s of Some h \<Rightarrow> s\<lparr>sl_B := raise_to (sl_B s) h\<rparr> | None \<Rightarrow> s)"

text \<open>Step 9: catch up with a blocking set on higher counters.\<close>

definition prepare_step9 ::
  "('id, 'v::linorder) ambient \<Rightarrow> ('id, 'v, 'e) slot \<Rightarrow> ('id, 'v, 'e) slot flow run" where
  "prepare_step9 a s = do {
     unblocking_counter \<leftarrow> get_unblocking_ballot_counter s;
     if b_N (sl_B s) < unblocking_counter then do {
       next_values \<leftarrow> get_next_ballot_values a s;
       case next_values of
         None \<Rightarrow> Some (Continue s)
       | Some x \<Rightarrow> do {
           s \<leftarrow> maybe_set_ballot_timer a
                 ((cancel_next_ballot_timer s)\<lparr>sl_B := Ballot unblocking_counter x\<rparr>);
           Some (Rerun s) } }
     else Some (Continue s) }"

definition prepare_pass ::
  "('id, 'v::linorder) ambient \<Rightarrow> ('id, 'v, 'e) slot \<Rightarrow> ('id, 'v, 'e) slot flow run" where
  "prepare_pass a s = do {
     check_prepare_phase_invariants s;
     r \<leftarrow> prepare_step1 s;
     case r of
       Continue s \<Rightarrow> do {
         assert_PP_below_P s;
         s \<leftarrow> prepare_step2 (prepare_abort_C s);
         assert_C_below_H s;
         s \<leftarrow> prepare_step3 s;
         assert_C_below_H s;
         r \<leftarrow> prepare_step4 a s;
         case r of
           Continue s \<Rightarrow> prepare_step9 a (prepare_step8 s)
         | _ \<Rightarrow> Some r }
     | _ \<Rightarrow> Some r }"

partial_function (option) do_prepare_phase ::
  "('id, 'v::linorder) ambient \<Rightarrow> ('id, 'v, 'e) slot \<Rightarrow> ('id, 'v, 'e) slot run" where
  "do_prepare_phase a s = do {
     r \<leftarrow> prepare_pass a s;
     case r of
       Return s \<Rightarrow> Some s
     | Continue s \<Rightarrow> do { check_prepare_phase_invariants s; Some s }
     | Rerun s \<Rightarrow> do {
         s \<leftarrow> do_prepare_phase a s;
         check_prepare_phase_invariants s;
         Some s } }"

declare do_prepare_phase.simps [code]

subsection \<open>The commit phase\<close>

definition commit_phase_invariants :: "('id, 'v, 'e) slot \<Rightarrow> bool" where
  "commit_phase_invariants s \<longleftrightarrow>
     sl_phase s = PhCommit \<and> \<not> ballot_is_zero (sl_B s) \<and>
     (case sl_P s of Some P \<Rightarrow> b_X P = b_X (sl_B s) | None \<Rightarrow> False) \<and>
     sl_PP s = None \<and>
     (case sl_H s of Some H \<Rightarrow> b_X H = b_X (sl_B s) | None \<Rightarrow> False) \<and>
     (case sl_C s of Some C \<Rightarrow> b_X C = b_X (sl_B s) | None \<Rightarrow> False)"

definition check_commit_phase_invariants :: "('id, 'v, 'e) slot \<Rightarrow> unit run" where
  "check_commit_phase_invariants s = rust_assert (commit_phase_invariants s)"

definition commit_step5 :: "('id, 'v::linorder, 'e) slot \<Rightarrow> ('id, 'v, 'e) slot run" where
  "commit_step5 s = do {
     accepted_prepared \<leftarrow> ballots_accepted_prepared s;
     case iter_max (Set.filter (\<lambda>p. b_X p = b_X (sl_B s)) accepted_prepared) of
       None \<Rightarrow> Some s
     | Some new_P \<Rightarrow> do {
         P \<leftarrow> sl_P s;
         Some (if new_P < P then s else s\<lparr>sl_P := Some new_P\<rparr>) } }"

definition set_C_H :: "u32 \<times> u32 \<Rightarrow> ('id, 'v, 'e) slot \<Rightarrow> ('id, 'v, 'e) slot" where
  "set_C_H r s = (case r of (cn, hn) \<Rightarrow>
     s\<lparr>sl_C := Some (Ballot cn (b_X (sl_B s))), sl_H := Some (Ballot hn (b_X (sl_B s)))\<rparr>)"

definition commit_step6 ::
  "('id, 'v) ambient \<Rightarrow> ('id, 'v, 'e) slot \<Rightarrow> ('id, 'v, 'e) slot run" where
  "commit_step6 a s = do {
     accepted \<leftarrow> ballots_accepted_committed a s;
     Some (case map_of accepted (b_X (sl_B s)) of Some r \<Rightarrow> set_C_H r s | None \<Rightarrow> s) }"

text \<open>Step 7: a ballot confirmed committed is externalized.\<close>

definition externalized :: "u32 \<times> u32 \<Rightarrow> ('id, 'v, 'e) slot \<Rightarrow> ('id, 'v, 'e) slot" where
  "externalized r s =
     (cancel_next_ballot_timer (cancel_next_nomination_round (set_C_H r s)))\<lparr>sl_phase := PhExternalize\<rparr>"

definition commit_step7 ::
  "('id, 'v) ambient \<Rightarrow> ('id, 'v, 'e) slot \<Rightarrow> ('id, 'v, 'e) slot flow run" where
  "commit_step7 a s = do {
     confirmed \<leftarrow> ballots_confirmed_committed a s;
     Some (case confirmed of Some r \<Rightarrow> Return (externalized r s) | None \<Rightarrow> Continue s) }"

definition set_B_N :: "u32 \<Rightarrow> ('id, 'v, 'e) slot \<Rightarrow> ('id, 'v, 'e) slot" where
  "set_B_N n s = s\<lparr>sl_B := Ballot n (b_X (sl_B s))\<rparr>"

definition commit_step8 :: "('id, 'v, 'e) slot \<Rightarrow> ('id, 'v, 'e) slot" where
  "commit_step8 s =
     (case sl_H s of
        Some h \<Rightarrow> if b_N (sl_B s) < b_N h then set_B_N (b_N h) s else s
      | None \<Rightarrow> s)"

definition commit_step9 :: "('id, 'v, 'e) slot \<Rightarrow> ('id, 'v, 'e) slot flow run" where
  "commit_step9 s = do {
     unblocking_counter \<leftarrow> get_unblocking_ballot_counter s;
     Some (if b_N (sl_B s) < unblocking_counter
           then Rerun (set_B_N unblocking_counter (cancel_next_ballot_timer s))
           else Continue s) }"

definition commit_pass ::
  "('id, 'v::linorder) ambient \<Rightarrow> ('id, 'v, 'e) slot \<Rightarrow> ('id, 'v, 'e) slot flow run" where
  "commit_pass a s = do {
     check_commit_phase_invariants s;
     s \<leftarrow> commit_step5 s;
     s \<leftarrow> commit_step6 a s;
     r \<leftarrow> commit_step7 a s;
     case r of
       Continue s \<Rightarrow> commit_step9 (commit_step8 s)
     | _ \<Rightarrow> Some r }"

text \<open>The counter only grows from one pass to the next, so the repetition ends.\<close>

lemma commit_step5_B: "commit_step5 s = Some s' \<Longrightarrow> sl_B s' = sl_B s"
  by (auto simp: commit_step5_def elim!: run_elims split: option.split_asm if_split_asm)

lemma commit_step6_B: "commit_step6 a s = Some s' \<Longrightarrow> sl_B s' = sl_B s"
  by (auto simp: commit_step6_def set_C_H_def run_simps split: option.splits)

lemma commit_step7_Continue: "commit_step7 a s = Some (Continue s') \<Longrightarrow> s' = s"
  by (auto simp: commit_step7_def run_simps split: option.splits)

lemma commit_step7_not_Rerun: "commit_step7 a s \<noteq> Some (Rerun s')"
  by (auto simp: commit_step7_def run_simps split: option.splits)

lemma commit_step8_B: "b_N (sl_B s) \<le> b_N (sl_B (commit_step8 s))"
  by (auto simp: commit_step8_def set_B_N_def split: option.splits)

lemma commit_step9_Rerun: "commit_step9 s = Some (Rerun s') \<Longrightarrow> b_N (sl_B s) < b_N (sl_B s')"
  by (auto simp: commit_step9_def set_B_N_def run_simps split: if_splits)

lemma commit_pass_Rerun_counter:
  assumes "commit_pass a s = Some (Rerun s')"
  shows "b_N (sl_B s) < b_N (sl_B s')"
proof -
  from assms obtain s1 s2 where "commit_step5 s = Some s1" "commit_step6 a s1 = Some s2"
    "commit_step9 (commit_step8 s2) = Some (Rerun s')"
    by (auto simp: commit_pass_def commit_step7_not_Rerun elim!: run_elims
        dest!: commit_step7_Continue split: flow.split_asm)
  with commit_step5_B [of s s1] commit_step6_B [of a s1 s2] commit_step8_B [of s2]
    commit_step9_Rerun [of "commit_step8 s2" s']
  show ?thesis by simp
qed

function do_commit_phase ::
  "('id, 'v::linorder) ambient \<Rightarrow> ('id, 'v, 'e) slot \<Rightarrow> ('id, 'v, 'e) slot run" where
  "do_commit_phase a s = do {
     r \<leftarrow> commit_pass a s;
     case r of
       Return s \<Rightarrow> Some s
     | Continue s \<Rightarrow> do { check_commit_phase_invariants s; Some s }
     | Rerun s \<Rightarrow> do {
         s \<leftarrow> do_commit_phase a s;
         check_commit_phase_invariants s;
         Some s } }"
  by pat_completeness auto

termination do_commit_phase
proof (relation "measure (\<lambda>(a, s). 2 ^ 32 - unat (b_N (sl_B s)))", simp)
  fix a :: "('id, 'v::linorder) ambient" and s s' :: "('id, 'v, 'e) slot" and r
  assume "commit_pass a s = Some r" "r = Rerun s'"
  then have "b_N (sl_B s) < b_N (sl_B s')" using commit_pass_Rerun_counter by blast
  then show "((a, s'), (a, s)) \<in> measure (\<lambda>(a, s). 2 ^ 32 - unat (b_N (sl_B s)))"
    using u32_unat_less [of "b_N (sl_B s')"] by (simp add: word_less_nat_alt diff_less_mono2)
qed

declare do_commit_phase.simps [simp del]

subsection \<open>The externalize phase and the ballot protocol\<close>

definition externalize_phase_invariants :: "('id, 'v, 'e) slot \<Rightarrow> bool" where
  "externalize_phase_invariants s \<longleftrightarrow>
     sl_phase s = PhExternalize \<and> \<not> ballot_is_zero (sl_B s) \<and>
     (case sl_H s of Some H \<Rightarrow> b_X H = b_X (sl_B s) | None \<Rightarrow> False) \<and>
     (case sl_C s of Some C \<Rightarrow> b_X C = b_X (sl_B s) | None \<Rightarrow> False) \<and>
     sl_PP s = None"

definition check_externalize_phase_invariants :: "('id, 'v, 'e) slot \<Rightarrow> unit run" where
  "check_externalize_phase_invariants s = rust_assert (externalize_phase_invariants s)"

definition do_externalize_phase ::
  "('id, 'v) ambient \<Rightarrow> ('id, 'v, 'e) slot \<Rightarrow> ('id, 'v, 'e) slot run" where
  "do_externalize_phase a s = do {
     check_externalize_phase_invariants s;
     confirmed \<leftarrow> ballots_confirmed_committed a s;
     s \<leftarrow> (case confirmed of
            Some (_, hn) \<Rightarrow> do {
              H \<leftarrow> sl_H s;
              Some (if hn \<ge> b_N H then s\<lparr>sl_H := Some (Ballot hn (b_X H))\<rparr> else s) }
          | None \<Rightarrow> Some s);
     check_externalize_phase_invariants s;
     Some s }"

definition do_ballot_protocol ::
  "('id, 'v::linorder) ambient \<Rightarrow> ('id, 'v, 'e) slot \<Rightarrow> ('id, 'v, 'e) slot run" where
  "do_ballot_protocol a s = do {
     s \<leftarrow> maybe_set_ballot_timer a s;
     s \<leftarrow> (if sl_phase s = PhNominatePrepare \<or> sl_phase s = PhPrepare then do_prepare_phase a s else Some s);
     s \<leftarrow> (if sl_phase s = PhCommit then do_commit_phase a s else Some s);
     (if sl_phase s = PhExternalize then do_externalize_phase a s else Some s) }"

end
