(* ===== verification/Scp_Slot_Handlers.thy ===== *)
theory Scp_Slot_Handlers
  imports Scp_Slot_Phases
begin

section \<open>The interface of a slot (\<^verbatim>\<open>impl ScpSlot for Slot\<close> and \<^verbatim>\<open>out_msg\<close>)\<close>

text \<open>
  What the node calls on a slot: proposing values, handling a batch of messages, processing
  timeouts. Each runs the phases and returns the message to broadcast, if any. The
  \<^verbatim>\<open>Result\<close> that \<^verbatim>\<open>propose_values\<close> and \<^verbatim>\<open>handle_messages\<close> return is always \<^verbatim>\<open>Ok\<close>; the model
  returns what is inside.
\<close>

subsection \<open>The message that describes the state\<close>

definition clamp_P :: "'v::linorder ballot \<Rightarrow> 'v ballot \<Rightarrow> 'v ballot" where
  "clamp_P B P =
     (if P > B
      then (if b_X P > b_X B then Ballot (b_N B - 1) (b_X P) else Ballot (b_N B) (b_X P))
      else P)"

definition clamp_PP :: "'v::linorder ballot \<Rightarrow> 'v ballot \<Rightarrow> 'v ballot option" where
  "clamp_PP clamped_P PP =
     (if PP > clamped_P
      then (if b_N PP > 0
            then (if b_X PP > b_X clamped_P then Some (Ballot (b_N clamped_P - 1) (b_X PP))
                  else Some (Ballot (b_N clamped_P) (b_X PP)))
            else None)
      else Some PP)"

definition clamped_P :: "('id, 'v::linorder, 'e) slot \<Rightarrow> 'v ballot option" where
  "clamped_P s = map_option (clamp_P (sl_B s)) (sl_P s)"

definition clamped_PP :: "('id, 'v::linorder, 'e) slot \<Rightarrow> 'v ballot option" where
  "clamped_PP s = (case (clamped_P s, sl_PP s) of
       (Some p, Some PP) \<Rightarrow> clamp_PP p PP
     | _ \<Rightarrow> None)"

definition out_HN :: "('id, 'v, 'e) slot \<Rightarrow> u32" where
  "out_HN s = (case sl_H s of
       Some h \<Rightarrow> if b_X h = b_X (sl_B s) then b_N h else 0
     | None \<Rightarrow> 0)"

definition out_CN :: "('id, 'v, 'e) slot \<Rightarrow> u32" where
  "out_CN s = (case sl_C s of
       Some c \<Rightarrow> if out_HN s \<noteq> 0 then b_N c else 0
     | None \<Rightarrow> 0)"

definition out_prepare_payload :: "('id, 'v::linorder, 'e) slot \<Rightarrow> 'v prepare_payload" where
  "out_prepare_payload s =
     \<lparr>prep_B = sl_B s, prep_P = clamped_P s, prep_PP = clamped_PP s,
      prep_CN = out_CN s, prep_HN = out_HN s\<rparr>"

definition out_topic :: "('id, 'v::linorder, 'e) slot \<Rightarrow> 'v topic option run" where
  "out_topic s = (case sl_phase s of
       PhNominatePrepare \<Rightarrow>
         if \<not> ballot_is_zero (sl_B s)
         then Some (Some (NominatePrepare (nominate_payload_new (sl_X s) (sl_Y s)) (out_prepare_payload s)))
         else if \<not> Set.is_empty (sl_X s) \<or> \<not> Set.is_empty (sl_Y s)
         then Some (Some (Nominate (nominate_payload_new (sl_X s) (sl_Y s))))
         else Some None
     | PhPrepare \<Rightarrow> Some (Some (Prepare (out_prepare_payload s)))
     | PhCommit \<Rightarrow> Some (Some (Commit
         \<lparr>com_B = sl_B s,
          com_PN = (case clamped_P s of None \<Rightarrow> 0 | Some p \<Rightarrow> b_N p),
          com_CN = (case sl_C s of None \<Rightarrow> 0 | Some c \<Rightarrow> b_N c),
          com_HN = (case sl_H s of None \<Rightarrow> 0 | Some h \<Rightarrow> b_N h)\<rparr>))
     | PhExternalize \<Rightarrow> do {
         C \<leftarrow> sl_C s;
         H \<leftarrow> sl_H s;
         Some (Some (Externalize \<lparr>ext_C = C, ext_HN = b_N H\<rparr>)) })"

definition out_msg ::
  "('id::linorder, 'v::linorder, 'e) slot \<Rightarrow> (('id, 'v) msg option \<times> ('id, 'v, 'e) slot) run" where
  "out_msg s = do {
     topic_opt \<leftarrow> out_topic s;
     case topic_opt of
       None \<Rightarrow> Some (None, s)
     | Some t \<Rightarrow> do {
         let m = msg_new (sl_node_id s) (sl_quorum_set s) (sl_index s) t;
         rust_assert (validate m = Inr ());
         Some (case sl_last_sent_msg s of
                 Some last_msg \<Rightarrow>
                   if \<not> msg_eq m last_msg then (Some m, s\<lparr>sl_last_sent_msg := Some m\<rparr>) else (None, s)
               | None \<Rightarrow> (Some m, s\<lparr>sl_last_sent_msg := Some m\<rparr>)) } }"

subsection \<open>Timeouts\<close>

definition nomination_timeout ::
  "('id, 'v) ambient \<Rightarrow> ('id, 'v, 'e) slot \<Rightarrow> (bool \<times> ('id, 'v, 'e) slot) run" where
  "nomination_timeout a s =
     (if (case sl_next_nominate_round_at s of Some t \<Rightarrow> now a > t | None \<Rightarrow> False)
      then do {
        let s = cancel_next_nomination_round s;
        let s = s\<lparr>sl_nominate_round := sl_nominate_round s + 1\<rparr>;
        peer \<leftarrow> find_max_priority_peer a s (sl_nominate_round s);
        s \<leftarrow> do_nominate_phase a
               (s\<lparr>sl_max_priority_peers := insert peer (sl_max_priority_peers s)\<rparr>);
        Some (True, s) }
      else Some (False, s))"

text \<open>The next ballot when the timer of the current one has fired.\<close>

definition next_ballot ::
  "('id, 'v::linorder) ambient \<Rightarrow> ('id, 'v, 'e) slot \<Rightarrow> ('id, 'v, 'e) slot run" where
  "next_ballot a s =
     (let next_counter = b_N (sl_B s) + 1 in
      case sl_phase s of
        PhCommit \<Rightarrow> Some (set_B_N next_counter s)
      | PhExternalize \<Rightarrow> Some s
      | _ \<Rightarrow> do {
          x_opt \<leftarrow> get_next_ballot_values a s;
          Some (case x_opt of Some x \<Rightarrow> s\<lparr>sl_B := Ballot next_counter x\<rparr> | None \<Rightarrow> s) })"

definition ballot_timeout ::
  "('id, 'v::linorder) ambient \<Rightarrow> ('id, 'v, 'e) slot \<Rightarrow> (bool \<times> ('id, 'v, 'e) slot) run" where
  "ballot_timeout a s =
     (if (case sl_next_ballot_at s of Some t \<Rightarrow> now a > t | None \<Rightarrow> False)
      then do {
        s \<leftarrow> next_ballot a (cancel_next_ballot_timer s);
        s \<leftarrow> do_ballot_protocol a s;
        Some (True, s) }
      else Some (False, s))"

definition process_timeouts ::
  "('id::linorder, 'v::linorder) ambient \<Rightarrow> ('id, 'v, 'e) slot \<Rightarrow>
   (('id, 'v) msg list \<times> ('id, 'v, 'e) slot) run" where
  "process_timeouts a s = do {
     (nominate, s) \<leftarrow> nomination_timeout a s;
     (ballot, s) \<leftarrow> ballot_timeout a s;
     if nominate \<or> ballot then do {
       (emitted, s) \<leftarrow> out_msg s;
       Some (case emitted of Some m \<Rightarrow> [m] | None \<Rightarrow> [], s) }
     else Some ([], s) }"

subsection \<open>Proposals\<close>

fun filter_valid ::
  "('id, 'v, 'e) slot \<Rightarrow> 'v list \<Rightarrow> 'v list \<times> ('id, 'v, 'e) slot" where
  "filter_valid s [] = ([], s)"
| "filter_valid s (v # vs) =
     (case slot_validate s v of
        (Inr _, s) \<Rightarrow> (case filter_valid s vs of (ws, s) \<Rightarrow> (v # ws, s))
      | (Inl _, s) \<Rightarrow> filter_valid s vs)"

definition propose_values ::
  "('id::linorder, 'v::linorder) ambient \<Rightarrow> ('id, 'v, 'e) slot \<Rightarrow> 'v set \<Rightarrow>
   (('id, 'v) msg option \<times> ('id, 'v, 'e) slot) run" where
  "propose_values a s vals =
     (if \<not> (sl_phase s = PhNominatePrepare \<and> Set.is_empty (sl_Z s)) then out_msg s
      else (case filter_valid s (sorted_list_of_set vals) of (valid_values, s) \<Rightarrow>
        if valid_values = [] then Some (None, s)
        else do {
          s \<leftarrow> do_nominate_phase a (s\<lparr>sl_W := sl_W s \<union> set valid_values\<rparr>);
          s \<leftarrow> do_ballot_protocol a s;
          out_msg s }))"

subsection \<open>Messages\<close>

fun all_valid :: "('id, 'v, 'e) slot \<Rightarrow> 'v list \<Rightarrow> bool \<times> ('id, 'v, 'e) slot" where
  "all_valid s [] = (True, s)"
| "all_valid s (v # vs) =
     (case slot_validate s v of
        (Inr _, s) \<Rightarrow> all_valid s vs
      | (Inl _, s) \<Rightarrow> (False, s))"

definition is_higher :: "('id, 'v::linorder, 'e) slot \<Rightarrow> ('id, 'v) msg \<Rightarrow> bool" where
  "is_higher s m = (case map_of (sl_M s) (sender_id m) of
       Some existing_msg \<Rightarrow> topic_cmp (topic m) (topic existing_msg) = Greater
     | None \<Rightarrow> True)"

text \<open>One turn of the message loop: whether the message was stored, and the new state.\<close>

definition store_msg ::
  "('id, 'v::linorder, 'e) slot \<Rightarrow> ('id, 'v) msg \<Rightarrow> bool \<times> ('id, 'v, 'e) slot" where
  "store_msg s m =
     (if is_higher s m \<and> validate m = Inr ()
      then (case (if sl_phase s \<noteq> PhExternalize then all_valid s (sorted_list_of_set (msg_values m))
                  else (True, s)) of
              (False, s) \<Rightarrow> (False, s)
            | (True, s) \<Rightarrow> (True, s\<lparr>sl_M := AList.update (sender_id m) m (sl_M s)\<rparr>))
      else (False, s))"

fun store_msgs ::
  "('id, 'v::linorder, 'e) slot \<Rightarrow> ('id, 'v) msg list \<Rightarrow> bool \<times> ('id, 'v, 'e) slot" where
  "store_msgs s [] = (False, s)"
| "store_msgs s (m # ms) =
     (case store_msg s m of (stored, s) \<Rightarrow>
        (case store_msgs s ms of (later, s) \<Rightarrow> (stored \<or> later, s)))"

definition msgs_for_slot ::
  "('id, 'v::linorder, 'e) slot \<Rightarrow> ('id, 'v) msg list \<Rightarrow> ('id, 'v) msg list" where
  "msgs_for_slot s msgs =
     sort_by (\<lambda>a b. topic_cmp (topic b) (topic a))
       (filter (\<lambda>m. msg_slot_index m = sl_index s) (filter (\<lambda>m. sender_id m \<noteq> sl_node_id s) msgs))"

definition handle_messages ::
  "('id::linorder, 'v::linorder) ambient \<Rightarrow> ('id, 'v, 'e) slot \<Rightarrow> ('id, 'v) msg list \<Rightarrow>
   (('id, 'v) msg option \<times> ('id, 'v, 'e) slot) run" where
  "handle_messages a s msgs =
     (case store_msgs s (msgs_for_slot s msgs) of (has_higher_messages, s) \<Rightarrow>
        if has_higher_messages then do {
          s \<leftarrow> (if sl_phase s = PhNominatePrepare then do_nominate_phase a s else Some s);
          s \<leftarrow> do_ballot_protocol a s;
          out_msg s }
        else Some (None, s))"

definition handle_message ::
  "('id::linorder, 'v::linorder) ambient \<Rightarrow> ('id, 'v, 'e) slot \<Rightarrow> ('id, 'v) msg \<Rightarrow>
   (('id, 'v) msg option \<times> ('id, 'v, 'e) slot) run" where
  "handle_message a s m = handle_messages a s [m]"

end
