(* ===== verification/Scp_Slot_Queries.thy ===== *)
theory Scp_Slot_Queries
  imports Scp_Slot
begin

section \<open>What the federated-voting queries establish\<close>

text \<open>
  The queries of \<^verbatim>\<open>slot.rs\<close> against federated voting. A node accepts a statement when a
  blocking set accepts it or when a quorum votes for or accepts it, and confirms it when a
  quorum accepts it. For each query: it returns when the stored messages are valid, and what
  it returns is backed by a blocking set or a quorum of the messages received.
\<close>

definition quorum_backs ::
  "(('id, 'v) msg \<Rightarrow> 'c \<Rightarrow> bool) \<Rightarrow> ('id, 'v, 'e) slot \<Rightarrow> 'c set \<Rightarrow> bool" where
  "quorum_backs holds s A \<longleftrightarrow>
     (\<exists>Q. quorum_of (sl_M s) (sl_node_id s) (sl_quorum_set s) Q \<and>
          (\<forall>n \<in> Q - {sl_node_id s}. \<forall>m. map_of (sl_M s) n = Some m \<longrightarrow> (\<forall>c \<in> A. holds m c)))"

definition blocking_backs ::
  "(('id, 'v) msg \<Rightarrow> 'c \<Rightarrow> bool) \<Rightarrow> ('id, 'v, 'e) slot \<Rightarrow> 'c \<Rightarrow> bool" where
  "blocking_backs holds s c \<longleftrightarrow>
     (\<exists>S. S \<noteq> {} \<and> (qs_size (sl_quorum_set s) < 2 ^ 32 \<longrightarrow> blocking (sl_quorum_set s) S) \<and>
          (\<forall>n \<in> S. \<exists>m. map_of (sl_M s) n = Some m \<and> holds m c))"

abbreviation M_valid :: "('id, 'v::linorder, 'e) slot \<Rightarrow> bool" where
  "M_valid s \<equiv> msgs_ok msg_valid (sl_M s)"

lemma msgs_ok_True [simp]: "msgs_ok (\<lambda>_. True) msgs"
  by (simp add: msgs_ok_def)

context scp_predicate
begin

lemma find_quorum_backs:
  assumes "find_quorum test s p = Some (Q, p2)" and "Q \<noteq> {}" and "wf p" and "msgs_ok ok (sl_M s)"
  shows "quorum_backs holds s (cand p2)" and "cand p2 \<subseteq> cand p" and "wf p2"
    and "cand p \<noteq> {} \<Longrightarrow> cand p2 \<noteq> {}"
proof -
  note f = findQuorum_sound [OF assms(4,3) assms(1) [unfolded find_quorum_def] assms(2)]
  then show "quorum_backs holds s (cand p2)" unfolding quorum_backs_def by (intro exI [of _ Q]) auto
  show "cand p2 \<subseteq> cand p" "wf p2" "cand p \<noteq> {} \<Longrightarrow> cand p2 \<noteq> {}" using f by auto
qed

lemma find_blocking_set_backs:
  assumes "find_blocking_set test s p = Some (S, p2)" and "S \<noteq> {}" and "wf p" and "msgs_ok ok (sl_M s)"
    and "cand p \<noteq> {}"
  shows "\<exists>c \<in> cand p. blocking_backs holds s c"
proof -
  note f = findBlockingSet_sound [OF assms(4,3) assms(1) [unfolded find_blocking_set_def] assms(2)]
  from f(4) assms(5) obtain c where c: "c \<in> cand p2" by blast
  with f(1,5) assms(2) have "blocking_backs holds s c"
    unfolding blocking_backs_def by (intro exI [of _ S]) blast
  with c f(3) show ?thesis by blast
qed

lemma find_quorum_returns: "wf p \<Longrightarrow> msgs_ok ok (sl_M s) \<Longrightarrow> \<exists>Q p2. find_quorum test s p = Some (Q, p2)"
  unfolding find_quorum_def by (rule findQuorum_returns)

lemma find_blocking_set_returns:
  "wf p \<Longrightarrow> msgs_ok ok (sl_M s) \<Longrightarrow> \<exists>S p2. find_blocking_set test s p = Some (S, p2)"
  unfolding find_blocking_set_def by (rule findBlockingSet_returns)

end

lemma quorum_backs_mono: "quorum_backs holds s A \<Longrightarrow> B \<subseteq> A \<Longrightarrow> quorum_backs holds s B"
  unfolding quorum_backs_def by blast

text \<open>The searches as the queries call them.\<close>

lemma value_quorum:
  assumes "find_quorum value_set_test s \<lparr>vsp_values = V, vsp_test_fn = value_closure f\<rparr> = Some (Q, p2)"
    and "Q \<noteq> {}"
  shows "vsp_values p2 \<subseteq> V" and "quorum_backs (supports_value f) s (vsp_values p2)"
  using vsp.find_quorum_backs(1,2) [where f = f, OF assms] by simp_all

lemma value_blocking:
  assumes "find_blocking_set value_set_test s \<lparr>vsp_values = {v}, vsp_test_fn = value_closure f\<rparr> = Some (S, p2)"
    and "S \<noteq> {}"
  shows "blocking_backs (supports_value f) s v"
  using vsp.find_blocking_set_backs [where f = f, OF assms] by simp

lemma ballot_quorum:
  assumes "find_quorum ballot_set_test s \<lparr>bsp_ballots = S, bsp_test_fn = ballot_closure f\<rparr> = Some (Q, p2)"
    and "Q \<noteq> {}"
  shows "below_some (bsp_ballots p2) \<subseteq> below_some S"
    and "quorum_backs (supports_ballot f) s (below_some (bsp_ballots p2))"
  using bsp.find_quorum_backs(1,2) [where f = f, OF assms] by simp_all

lemma ballot_blocking:
  assumes "find_blocking_set ballot_set_test s \<lparr>bsp_ballots = {b}, bsp_test_fn = ballot_closure f\<rparr> = Some (S, p2)"
    and "S \<noteq> {}"
  shows "\<exists>c. ballot_below c b \<and> blocking_backs (supports_ballot f) s c"
proof -
  have "\<exists>c \<in> below_some {b}. blocking_backs (supports_ballot f) s c"
    using bsp.find_blocking_set_backs [where f = f, OF assms] by simp
  then show ?thesis by (auto simp: below_some_iff)
qed

lemma in_below_some: "b \<in> S \<Longrightarrow> b \<in> below_some S"
  by (auto simp: below_some_iff intro: ballot_below_refl)

subsection \<open>Nomination\<close>

lemma additional_values_accepted_nominated_returns:
  "\<exists>A. additional_values_accepted_nominated s = Some A"
proof -
  let ?test = "\<lambda>v. do { (nodeIDs, _) \<leftarrow> find_blocking_set value_set_test s
      \<lparr>vsp_values = {v}, vsp_test_fn = value_closure accepts_nominated\<rparr>; Some (\<not> Set.is_empty nodeIDs) }"
  have "?test v \<noteq> None" for v
    using vsp.find_blocking_set_returns [of "\<lparr>vsp_values = {v}, vsp_test_fn = value_closure accepts_nominated\<rparr>"
        accepts_nominated s] by auto
  then obtain B where "set_filterM ?test (accepted_nominated_candidates s) = Some B"
    using set_filterM_total [of _ ?test] by blast
  moreover obtain Q p2 where "find_quorum value_set_test s
      \<lparr>vsp_values = sl_X s, vsp_test_fn = value_closure votes_or_accepts_nominated\<rparr> = Some (Q, p2)"
    using vsp.find_quorum_returns [of "\<lparr>vsp_values = sl_X s, vsp_test_fn = value_closure votes_or_accepts_nominated\<rparr>"
        votes_or_accepts_nominated s] by auto
  ultimately show ?thesis by (simp add: additional_values_accepted_nominated_def)
qed

lemma additional_values_accepted_nominatedE:
  assumes "additional_values_accepted_nominated s = Some A" and "v \<in> A"
  obtains "v \<in> accepted_nominated_candidates s" "blocking_backs (supports_value accepts_nominated) s v"
  | "v \<in> sl_X s" "quorum_backs (supports_value votes_or_accepts_nominated) s {v}"
proof -
  let ?p = "\<lambda>v. \<lparr>vsp_values = {v}, vsp_test_fn = value_closure accepts_nominated\<rparr>"
  let ?q = "\<lparr>vsp_values = sl_X s, vsp_test_fn = value_closure votes_or_accepts_nominated\<rparr>"
  from assms(1) obtain B Q p2
    where B: "set_filterM (\<lambda>v. do { (nodeIDs, _) \<leftarrow> find_blocking_set value_set_test s (?p v);
        Some (\<not> Set.is_empty nodeIDs) }) (accepted_nominated_candidates s) = Some B"
      and Q: "find_quorum value_set_test s ?q = Some (Q, p2)"
      and A: "A = B \<union> (if Q \<noteq> {} then vsp_values p2 else {})"
    by (auto simp: additional_values_accepted_nominated_def elim!: run_elims)
  show thesis
  proof (cases "v \<in> B")
    case True
    with set_filterM_SomeD [OF B] obtain S p3 where S: "find_blocking_set value_set_test s (?p v) = Some (S, p3)"
      "S \<noteq> {}" "v \<in> accepted_nominated_candidates s" by (auto elim!: run_elims)
    from that(1) [OF S(3) value_blocking [OF S(1,2)]] show ?thesis .
  next
    case False
    with A assms(2) have ne: "Q \<noteq> {}" and v: "v \<in> vsp_values p2" by (auto split: if_splits)
    from value_quorum [OF Q ne] v that(2) show ?thesis
      by (auto intro: quorum_backs_mono)
  qed
qed

lemma additional_values_confirmed_nominated_returns:
  "\<exists>A. additional_values_confirmed_nominated s = Some A"
  using vsp.find_quorum_returns [of "\<lparr>vsp_values = sl_Y s - sl_Z s, vsp_test_fn = value_closure accepts_nominated\<rparr>"
      accepts_nominated s]
  by (auto simp: additional_values_confirmed_nominated_def)

lemma additional_values_confirmed_nominated_backed:
  assumes "additional_values_confirmed_nominated s = Some A"
  shows "A \<subseteq> sl_Y s - sl_Z s" and "A = {} \<or> quorum_backs (supports_value accepts_nominated) s A"
proof -
  let ?q = "\<lparr>vsp_values = sl_Y s - sl_Z s, vsp_test_fn = value_closure accepts_nominated\<rparr>"
  from assms obtain Q p2 where Q: "find_quorum value_set_test s ?q = Some (Q, p2)"
    and A: "A = (if Q \<noteq> {} then vsp_values p2 else {})"
    by (auto simp: additional_values_confirmed_nominated_def elim!: run_elims)
  from A value_quorum [OF Q]
  show "A \<subseteq> sl_Y s - sl_Z s" and "A = {} \<or> quorum_backs (supports_value accepts_nominated) s A"
    by (auto split: if_splits)
qed

subsection \<open>Prepared ballots\<close>

text \<open>
  A ballot accepted through a blocking set is the ballot some node of the quorum set
  accepted; the set itself is only known to accept ballots with the same values, possibly
  with smaller counters.
\<close>

lemma ballots_accepted_preparedE:
  assumes "ballots_accepted_prepared s = Some A" and "b \<in> A"
  obtains c where "b \<in> accepted_prepared_candidates s" "ballot_below c b"
      "blocking_backs (supports_ballot accepts_prepared) s c"
  | "b \<in> below_some (local_prepare_votes s)"
      "quorum_backs (supports_ballot votes_or_accepts_prepared) s {b}"
proof -
  let ?p = "\<lambda>v. \<lparr>bsp_ballots = {v}, bsp_test_fn = ballot_closure accepts_prepared\<rparr>"
  let ?q = "\<lparr>bsp_ballots = local_prepare_votes s, bsp_test_fn = ballot_closure votes_or_accepts_prepared\<rparr>"
  from assms(1) obtain B Q p2
    where B: "set_filterM (\<lambda>v. do { (nodeIDs, _) \<leftarrow> find_blocking_set ballot_set_test s (?p v);
        Some (\<not> Set.is_empty nodeIDs) }) (accepted_prepared_candidates s) = Some B"
      and Q: "find_quorum ballot_set_test s ?q = Some (Q, p2)"
      and A: "A = B \<union> (if Q \<noteq> {} then bsp_ballots p2 else {})"
    by (auto simp: ballots_accepted_prepared_def elim!: run_elims)
  show thesis
  proof (cases "b \<in> B")
    case True
    with set_filterM_SomeD [OF B] obtain S p3 where S: "find_blocking_set ballot_set_test s (?p b) = Some (S, p3)"
      "S \<noteq> {}" and b: "b \<in> accepted_prepared_candidates s" by (auto elim!: run_elims)
    from ballot_blocking [OF S] b that(1) show ?thesis by auto
  next
    case False
    with A assms(2) have ne: "Q \<noteq> {}" and "b \<in> bsp_ballots p2" by (auto split: if_splits)
    then have b: "b \<in> below_some (bsp_ballots p2)" by (intro in_below_some)
    from ballot_quorum [OF Q ne] b that(2) show ?thesis by (auto intro: quorum_backs_mono)
  qed
qed

lemma ballots_accepted_prepared_returns: "\<exists>A. ballots_accepted_prepared s = Some A"
proof -
  let ?test = "\<lambda>b. do { (nodeIDs, _) \<leftarrow> find_blocking_set ballot_set_test s
      \<lparr>bsp_ballots = {b}, bsp_test_fn = ballot_closure accepts_prepared\<rparr>; Some (\<not> Set.is_empty nodeIDs) }"
  have "?test b \<noteq> None" for b
    using bsp.find_blocking_set_returns [of "\<lparr>bsp_ballots = {b}, bsp_test_fn = ballot_closure accepts_prepared\<rparr>"
        accepts_prepared s] by auto
  then obtain B where "set_filterM ?test (accepted_prepared_candidates s) = Some B"
    using set_filterM_total [of _ ?test] by blast
  moreover obtain Q p2 where "find_quorum ballot_set_test s
      \<lparr>bsp_ballots = local_prepare_votes s, bsp_test_fn = ballot_closure votes_or_accepts_prepared\<rparr> = Some (Q, p2)"
    using bsp.find_quorum_returns [of "\<lparr>bsp_ballots = local_prepare_votes s,
        bsp_test_fn = ballot_closure votes_or_accepts_prepared\<rparr>" votes_or_accepts_prepared s] by auto
  ultimately show ?thesis by (simp add: ballots_accepted_prepared_def)
qed

lemma ballots_confirmed_prepared_returns: "\<exists>A. ballots_confirmed_prepared s = Some A"
proof -
  obtain A where "ballots_accepted_prepared s = Some A" using ballots_accepted_prepared_returns by blast
  moreover obtain Q p2 where "find_quorum ballot_set_test s
      \<lparr>bsp_ballots = A, bsp_test_fn = ballot_closure accepts_prepared\<rparr> = Some (Q, p2)"
    using bsp.find_quorum_returns [of "\<lparr>bsp_ballots = A, bsp_test_fn = ballot_closure accepts_prepared\<rparr>"
        accepts_prepared s] by auto
  ultimately show ?thesis by (simp add: ballots_confirmed_prepared_def)
qed

lemma ballots_confirmed_prepared_backed:
  assumes "ballots_confirmed_prepared s = Some A"
  obtains A0 where "ballots_accepted_prepared s = Some A0" "A \<subseteq> below_some A0"
    "A = {} \<or> quorum_backs (supports_ballot accepts_prepared) s A"
proof -
  from assms obtain A0 Q p2 where A0: "ballots_accepted_prepared s = Some A0"
    and Q: "find_quorum ballot_set_test s
      \<lparr>bsp_ballots = A0, bsp_test_fn = ballot_closure accepts_prepared\<rparr> = Some (Q, p2)"
    and A: "A = (if Q \<noteq> {} then bsp_ballots p2 else {})"
    by (auto simp: ballots_confirmed_prepared_def elim!: run_elims)
  show thesis
  proof (cases "Q = {}")
    case False
    have "bsp_ballots p2 \<subseteq> below_some (bsp_ballots p2)" by (auto intro: in_below_some)
    with ballot_quorum [OF Q False] A False show ?thesis
      by (intro that [OF A0]) (auto intro: quorum_backs_mono)
  qed (use A A0 that in auto)
qed

subsection \<open>Committed ranges\<close>

lemma set_alist_update: "x \<in> set (AList.update k v al) \<Longrightarrow> x = (k, v) \<or> x \<in> set al"
  by (induction al) (auto split: if_splits)

lemma keys_alist_update [simp]: "keys (AList.update k v al) = insert k (keys al)"
  by (induction al) auto

lemma ranges_wfD: "ranges_wf rs \<Longrightarrow> (v, lo, hi) \<in> set rs \<Longrightarrow> lo \<le> hi"
  by (auto simp: ranges_wf_def)

lemma ranges_wf_Nil [simp]: "ranges_wf []"
  by (simp add: ranges_wf_def)

lemma ranges_wf_update: "ranges_wf rs \<Longrightarrow> lo \<le> hi \<Longrightarrow> ranges_wf (AList.update v (lo, hi) rs)"
  by (fastforce simp: ranges_wf_def dest: set_alist_update)

lemma ranges_wf_map_of: "ranges_wf rs \<Longrightarrow> map_of rs v = Some (lo, hi) \<Longrightarrow> lo \<le> hi"
  by (auto simp: ranges_wf_def dest!: map_of_SomeD)

lemma accepted_committed_candidates_wf:
  "accepted_committed_candidates msgs ns acc = Some rs \<Longrightarrow> ranges_wf acc \<Longrightarrow> ranges_wf rs"
proof (induction ns arbitrary: acc)
  case (Cons n ns)
  note IH = Cons.IH and update = ranges_wf_update [OF Cons.prems(2)]
  show ?case
  proof (cases "map_of msgs n")
    case (Some m)
    from Cons.prems Some show ?thesis
      by (cases "topic m") (auto elim!: run_elims dest!: IH intro: update)
  qed (use Cons in auto)
qed simp

lemma accepted_committed_candidates_returns:
  "msgs_ok msg_valid msgs \<Longrightarrow> \<exists>rs. accepted_committed_candidates msgs ns acc = Some rs"
proof (induction msgs ns acc rule: accepted_committed_candidates.induct)
  case (2 msgs n ns acc)
  show ?case
  proof (cases "map_of msgs n")
    case (Some m)
    with "2.prems" have "msg_valid m" by (simp add: msgs_ok_def)
    then have "com_CN p \<le> com_HN p" if "topic m = Commit p" for p
      using that by (auto simp: validate_def split: if_split_asm)
    with 2 Some show ?thesis by (auto split: topic.split)
  qed (use 2 in auto)
qed simp

lemma hull_le: "a \<le> b \<Longrightarrow> min a c \<le> max b (d :: u32)"
  by (rule order.trans [OF min.cobounded1 order.trans [OF _ max.cobounded1]])

lemma upsert_range_wf: "ranges_wf rs \<Longrightarrow> fst (snd e) \<le> snd (snd e) \<Longrightarrow> ranges_wf (upsert_range e rs)"
  by (auto simp: upsert_range_def hull_le intro!: ranges_wf_update split: prod.splits option.splits)

lemma fold_upsert_range_wf: "ranges_wf es \<Longrightarrow> ranges_wf rs \<Longrightarrow> ranges_wf (fold upsert_range es rs)"
proof (induction es arbitrary: rs)
  case (Cons e es)
  then have "ranges_wf es" "fst (snd e) \<le> snd (snd e)" by (auto simp: ranges_wf_def split: prod.splits)
  with Cons show ?case by (simp add: upsert_range_wf)
qed simp

lemma keys_upsert_range: "keys (upsert_range e rs) = insert (fst e) (keys rs)"
  by (cases e) (simp add: upsert_range_def split: option.split)

lemma keys_fold_upsert_range: "keys (fold upsert_range es rs) = keys es \<union> keys rs"
  by (induction es arbitrary: rs) (auto simp: keys_upsert_range)

lemma ranges_wf_append: "ranges_wf (as @ bs) \<longleftrightarrow> ranges_wf as \<and> ranges_wf bs"
  by (simp add: ranges_wf_def ball_Un)

lemma local_commit_votes_wf: "local_commit_votes s = Some rs \<Longrightarrow> ranges_wf rs"
  by (auto simp: local_commit_votes_def ranges_wf_def elim!: run_elims split: option.split_asm)

lemma range_blocking:
  assumes "find_blocking_set ballot_range_test s \<lparr>brp_ranges = [(v, lo, hi)], brp_test_fn = accept_range_closure\<rparr>
      = Some (S, p2)" and "S \<noteq> {}" and "lo \<le> hi" and "M_valid s"
  shows "\<exists>n. blocking_backs (supports_commit accept_commit_range) s (v, n)"
proof -
  have "\<exists>c \<in> range_ballots [(v, lo, hi)]. blocking_backs (supports_commit accept_commit_range) s c"
    using arp.find_blocking_set_backs [OF assms(1,2) _ assms(4)] assms(3)
    by (auto simp: ranges_wf_def range_ballots_Cons)
  then show ?thesis by (auto simp: range_ballots_Cons)
qed

text \<open>Taking \<open>ballots_accepted_committed\<close> apart.\<close>

lemma ballots_accepted_committedE:
  assumes "ballots_accepted_committed a s = Some rs" and "M_valid s"
  obtains cs bs vs Q p2 where
    "ranges_wf bs" "set bs \<subseteq> set cs"
    "accepted_committed_candidates (sl_M s) (node_iter a (nodes (sl_quorum_set s))) [] = Some cs"
    "\<And>v r. (v, r) \<in> set bs \<Longrightarrow> \<exists>n. blocking_backs (supports_commit accept_commit_range) s (v, n)"
    "local_commit_votes s = Some vs" "ranges_wf vs"
    "find_quorum ballot_range_test s \<lparr>brp_ranges = vs, brp_test_fn = vote_range_closure\<rparr> = Some (Q, p2)"
    "rs = fold upsert_range (bs @ (if Q \<noteq> {} then brp_ranges p2 else [])) []"
proof -
  let ?test = "\<lambda>(vals, r). do {
      (nodeIDs, _) \<leftarrow> find_blocking_set ballot_range_test s
        \<lparr>brp_ranges = [(vals, r)], brp_test_fn = accept_range_closure\<rparr>;
      Some (\<not> Set.is_empty nodeIDs) }"
  from assms(1) obtain cs bs vs Q p2
    where cs: "accepted_committed_candidates (sl_M s) (node_iter a (nodes (sl_quorum_set s))) [] = Some cs"
      and bs: "list_filterM ?test cs = Some bs" and vs: "local_commit_votes s = Some vs"
      and Q: "find_quorum ballot_range_test s \<lparr>brp_ranges = vs, brp_test_fn = vote_range_closure\<rparr> = Some (Q, p2)"
      and rs: "rs = fold upsert_range (bs @ (if Q \<noteq> {} then brp_ranges p2 else [])) []"
    by (auto simp: ballots_accepted_committed_def elim!: run_elims)
  have wf: "ranges_wf cs" using accepted_committed_candidates_wf [OF cs] by (simp add: ranges_wf_def)
  then have "ranges_wf bs" and sub: "set bs \<subseteq> set cs"
    using list_filterM_SomeD [OF bs] by (auto simp: ranges_wf_def)
  moreover have "\<exists>n. blocking_backs (supports_commit accept_commit_range) s (v, n)" if "(v, r) \<in> set bs" for v r
  proof -
    obtain lo hi where r: "r = (lo, hi)" by (cases r)
    from that list_filterM_SomeD [OF bs] obtain S p3
      where "find_blocking_set ballot_range_test s \<lparr>brp_ranges = [(v, lo, hi)], brp_test_fn = accept_range_closure\<rparr>
          = Some (S, p3)" "S \<noteq> {}"
      by (auto simp: r elim!: run_elims)
    moreover have "lo \<le> hi" using wf sub that by (auto simp: ranges_wf_def r)
    ultimately show ?thesis using range_blocking assms(2) by blast
  qed
  ultimately show thesis using that cs vs Q rs local_commit_votes_wf [OF vs] by blast
qed

lemma vote_range_quorum:
  assumes "find_quorum ballot_range_test s \<lparr>brp_ranges = vs, brp_test_fn = vote_range_closure\<rparr> = Some (Q, p2)"
    and "Q \<noteq> {}" and "ranges_wf vs" and "M_valid s"
  shows "ranges_wf (brp_ranges p2)" and "range_ballots (brp_ranges p2) \<subseteq> range_ballots vs"
    and "quorum_backs (supports_commit vote_commit_range) s (range_ballots (brp_ranges p2))"
  using vrp.find_quorum_backs(1-3) [OF assms(1,2) _ assms(4)] assms(3) by simp_all

lemma accept_range_quorum:
  assumes "find_quorum ballot_range_test s \<lparr>brp_ranges = vs, brp_test_fn = accept_range_closure\<rparr> = Some (Q, p2)"
    and "Q \<noteq> {}" and "ranges_wf vs" and "M_valid s"
  shows "ranges_wf (brp_ranges p2)" and "range_ballots (brp_ranges p2) \<subseteq> range_ballots vs"
    and "quorum_backs (supports_commit accept_commit_range) s (range_ballots (brp_ranges p2))"
  using arp.find_quorum_backs(1-3) [OF assms(1,2) _ assms(4)] assms(3) by simp_all

lemma ballots_accepted_committed_wf:
  assumes "ballots_accepted_committed a s = Some rs" and "M_valid s"
  shows "ranges_wf rs"
  using assms
proof (cases rule: ballots_accepted_committedE)
  case (1 cs bs vs Q p2)
  then have "ranges_wf (bs @ (if Q \<noteq> {} then brp_ranges p2 else []))"
    using vote_range_quorum(1) [OF 1(7) _ 1(6) assms(2)] by (simp add: ranges_wf_append)
  with 1(8) show ?thesis by (simp add: fold_upsert_range_wf del: fold_append)
qed

lemma ballots_accepted_committed_returns:
  assumes "M_valid s" and "\<And>C H. sl_C s = Some C \<Longrightarrow> sl_H s = Some H \<Longrightarrow> b_N C \<le> b_N H"
  shows "\<exists>rs. ballots_accepted_committed a s = Some rs"
proof -
  let ?test = "\<lambda>(vals, r). do {
      (nodeIDs, _) \<leftarrow> find_blocking_set ballot_range_test s
        \<lparr>brp_ranges = [(vals, r)], brp_test_fn = accept_range_closure\<rparr>;
      Some (\<not> Set.is_empty nodeIDs) }"
  obtain cs where cs: "accepted_committed_candidates (sl_M s) (node_iter a (nodes (sl_quorum_set s))) [] = Some cs"
    using accepted_committed_candidates_returns [OF assms(1)] by blast
  have wf: "ranges_wf cs" using accepted_committed_candidates_wf [OF cs] by (simp add: ranges_wf_def)
  have "?test e \<noteq> None" if "e \<in> set cs" for e
    using arp.find_blocking_set_returns [of "\<lparr>brp_ranges = [e], brp_test_fn = accept_range_closure\<rparr>" s]
      ranges_wfD [OF wf] that assms(1) by (cases e) (fastforce simp: ranges_wf_def)
  then obtain bs where "list_filterM ?test cs = Some bs" using list_filterM_total [of cs ?test] by blast
  moreover obtain vs where vs: "local_commit_votes s = Some vs"
    using assms(2) by (cases "sl_C s"; cases "sl_H s") (auto simp: local_commit_votes_def)
  moreover obtain Q p2 where
    "find_quorum ballot_range_test s \<lparr>brp_ranges = vs, brp_test_fn = vote_range_closure\<rparr> = Some (Q, p2)"
    using vrp.find_quorum_returns [of "\<lparr>brp_ranges = vs, brp_test_fn = vote_range_closure\<rparr>" s]
      local_commit_votes_wf [OF vs] assms(1) by auto
  ultimately show ?thesis using cs by (simp add: ballots_accepted_committed_def)
qed

text \<open>
  A value accepted committed is backed by a blocking set that accepted it, or it is the
  value of the current ballot and a quorum votes for or accepts it.
\<close>

lemma ballots_accepted_committed_backed:
  assumes "ballots_accepted_committed a s = Some rs" and "M_valid s" and "v \<in> keys rs"
  shows "(\<exists>n. blocking_backs (supports_commit accept_commit_range) s (v, n)) \<or>
    v = b_X (sl_B s) \<and> (\<exists>n. quorum_backs (supports_commit vote_commit_range) s {(v, n)})"
  using assms(1,2)
proof (cases rule: ballots_accepted_committedE)
  case (1 cs bs vs Q p2)
  from assms(3) 1(8) consider "v \<in> keys bs" | "Q \<noteq> {}" "v \<in> keys (brp_ranges p2)"
    by (auto simp: keys_fold_upsert_range split: if_splits)
  then show ?thesis
  proof cases
    case 1
    with \<open>\<And>v r. (v, r) \<in> set bs \<Longrightarrow> \<exists>n. blocking_backs (supports_commit accept_commit_range) s (v, n)\<close>
    show ?thesis by auto
  next
    case 2
    note q = vote_range_quorum [OF 1(7) 2(1) 1(6) assms(2)]
    from 2(2) obtain lo hi where "(v, lo, hi) \<in> set (brp_ranges p2)" by auto
    with ranges_wfD [OF q(1)] have in_p2: "(v, lo) \<in> range_ballots (brp_ranges p2)"
      by (fastforce simp: range_ballots_def)
    with q(2) have "(v, lo) \<in> range_ballots vs" by blast
    with 1(5) have "v = b_X (sl_B s)"
      by (auto simp: local_commit_votes_def range_ballots_def elim!: run_elims split: option.split_asm)
    moreover have "quorum_backs (supports_commit vote_commit_range) s {(v, lo)}"
      using q(3) in_p2 by (auto intro: quorum_backs_mono)
    ultimately show ?thesis by blast
  qed
qed

definition commit_range_ok :: "('id, 'v, 'e) slot \<Rightarrow> bool" where
  "commit_range_ok s \<longleftrightarrow> (\<forall>C H. sl_C s = Some C \<longrightarrow> sl_H s = Some H \<longrightarrow> b_N C \<le> b_N H)"

text \<open>A range confirmed committed is accepted committed by every other node of a quorum.\<close>

lemma ballots_confirmed_committed_backed:
  assumes r: "ballots_confirmed_committed a s = Some (Some (lo, hi))" and M: "M_valid s"
    and CH: "commit_range_ok s" "sl_phase s = PhCommit \<Longrightarrow> sl_C s \<noteq> None \<and> sl_H s \<noteq> None"
  shows "lo \<le> hi" and "quorum_backs (supports_commit accept_commit_range) s
    {(v, n). v = b_X (sl_B s) \<and> lo \<le> n \<and> n \<le> hi}"
proof -
  from r obtain cs Q p2
    where Q: "find_quorum ballot_range_test s \<lparr>brp_ranges = cs, brp_test_fn = accept_range_closure\<rparr> = Some (Q, p2)"
      and ne: "Q \<noteq> {}" and m: "map_of (brp_ranges p2) (b_X (sl_B s)) = Some (lo, hi)"
      and cs: "ranges_wf cs"
  proof (cases "sl_phase s")
    case PhCommit
    with CH obtain C H where CH': "sl_C s = Some C" "sl_H s = Some H" "b_N C \<le> b_N H"
      by (auto simp: commit_range_ok_def)
    with r PhCommit that [of "[(b_X (sl_B s), b_N C, b_N H)]"] show ?thesis
      by (auto simp: ballots_confirmed_committed_def ranges_wf_def elim!: run_elims split: if_split_asm)
  next
    case PhExternalize
    from r PhExternalize obtain acc where acc: "ballots_accepted_committed a s = Some acc"
      by (auto simp: ballots_confirmed_committed_def elim!: run_elims)
    let ?cs = "case map_of acc (b_X (sl_B s)) of None \<Rightarrow> [] | Some r \<Rightarrow> [(b_X (sl_B s), r)]"
    have "ranges_wf ?cs" using ranges_wf_map_of [OF ballots_accepted_committed_wf [OF acc M]]
      by (auto simp: ranges_wf_def split: option.split)
    with r PhExternalize acc that [of ?cs] show ?thesis
      by (auto simp: ballots_confirmed_committed_def elim!: run_elims split: if_split_asm)
  qed (use r that [of "[]"] in \<open>auto simp: ballots_confirmed_committed_def ranges_wf_def
        elim!: run_elims split: if_split_asm\<close>)
  note q = accept_range_quorum [OF Q ne cs M]
  show "lo \<le> hi" using ranges_wf_map_of [OF q(1) m] .
  have "{(v, n). v = b_X (sl_B s) \<and> lo \<le> n \<and> n \<le> hi} \<subseteq> range_ballots (brp_ranges p2)"
    using map_of_SomeD [OF m] by (auto simp: range_ballots_def)
  then show "quorum_backs (supports_commit accept_commit_range) s
      {(v, n). v = b_X (sl_B s) \<and> lo \<le> n \<and> n \<le> hi}"
    using q(3) by (blast intro: quorum_backs_mono)
qed

subsection \<open>Properties\<close>

text \<open>A slot of node 1 that trusts two of the nodes 2, 3 and 4, with given messages.\<close>

definition ex_query_slot :: "(int \<times> int topic) list \<Rightarrow> (int, int, unit) slot" where
  "ex_query_slot ts =
     (slot_init 1 (new_with_node_ids 2 [2, 3, 4]) 7 (\<lambda>_. Inr ()) Inr)
       \<lparr>sl_M := map (\<lambda>(n, t). (n, msg_new n (new_with_node_ids 2 [1, 2, 3, 4]) 7 t)) ts\<rparr>"

text \<open>
  C15. Accepting a nominated value: the query never aborts, and every value it returns is accepted
  nominated by a blocking set, or is voted for by the slot itself and voted for or accepted by
  a quorum of it.
\<close>

theorem accepted_nominated_backed:
  "\<exists>A. additional_values_accepted_nominated s = Some A \<and>
     (\<forall>v \<in> A. blocking_backs (supports_value accepts_nominated) s v \<or>
        v \<in> sl_X s \<and> quorum_backs (supports_value votes_or_accepts_nominated) s {v})"
proof -
  obtain A where A: "additional_values_accepted_nominated s = Some A"
    using additional_values_accepted_nominated_returns by blast
  then show ?thesis by (blast elim: additional_values_accepted_nominatedE)
qed

theorem accepted_nominated_backed_witness:
  "blocking_backs (supports_value accepts_nominated)
     (ex_query_slot (map (\<lambda>n. (n, Nominate \<lparr>nom_X = [], nom_Y = [5]\<rparr>)) [2, 3])) 5"
proof -
  let ?s = "ex_query_slot (map (\<lambda>n. (n, Nominate \<lparr>nom_X = [], nom_Y = [5]\<rparr>)) [2, 3])"
  have "additional_values_accepted_nominated ?s = Some {5}" "sl_X ?s = {}" by code_simp+
  with accepted_nominated_backed [of ?s] show ?thesis by simp
qed

lemma value_blocking_complete:
  assumes "is_valid (sl_quorum_set s)" and "qs_size (sl_quorum_set s) < 2 ^ 32"
    and "blocking (sl_quorum_set s) S" and "\<forall>n \<in> S. \<exists>m. map_of (sl_M s) n = Some m \<and> supports_value f m v"
  shows "\<exists>B p. find_blocking_set value_set_test s \<lparr>vsp_values = {v}, vsp_test_fn = value_closure f\<rparr> = Some (B, p) \<and> B \<noteq> {}"
  using vsp.findBlockingSet_complete [of "sl_M s" "\<lparr>vsp_values = {v}, vsp_test_fn = value_closure f\<rparr>" f v
      "sl_quorum_set s" S] assms
  by (simp add: find_blocking_set_def)

text \<open>The query finds every value that a blocking set of other nodes accepts as nominated.\<close>

lemma accepted_nominated_complete:
  assumes "is_valid (sl_quorum_set s)" and "qs_size (sl_quorum_set s) < 2 ^ 32"
    and "blocking (sl_quorum_set s) S" and "S \<noteq> {}"
    and "\<forall>n \<in> S. n \<noteq> sl_node_id s \<and> (\<exists>m. map_of (sl_M s) n = Some m \<and> supports_value accepts_nominated m v)"
  shows "\<exists>A. additional_values_accepted_nominated s = Some A \<and> v \<in> A"
proof -
  obtain A where A: "additional_values_accepted_nominated s = Some A"
    using additional_values_accepted_nominated_returns by blast
  from assms(4,5) obtain n m where "n \<noteq> sl_node_id s" "map_of (sl_M s) n = Some m"
    "supports_value accepts_nominated m v" by blast
  then have cand: "v \<in> accepted_nominated_candidates s"
    by (auto simp: accepted_nominated_candidates_def supports_value_def dest!: map_of_SomeD
        split: option.split_asm intro!: bexI [of _ "(n, m)"])
  obtain B p where b: "find_blocking_set value_set_test s
      \<lparr>vsp_values = {v}, vsp_test_fn = value_closure accepts_nominated\<rparr> = Some (B, p)" "B \<noteq> {}"
    using value_blocking_complete [OF assms(1-3)] assms(5) by blast
  let ?test = "\<lambda>v. do { (nodeIDs, _) \<leftarrow> find_blocking_set value_set_test s
      \<lparr>vsp_values = {v}, vsp_test_fn = value_closure accepts_nominated\<rparr>; Some (\<not> Set.is_empty nodeIDs) }"
  from A obtain T where T: "set_filterM ?test (accepted_nominated_candidates s) = Some T" "T \<subseteq> A"
    by (auto simp: additional_values_accepted_nominated_def elim!: run_elims)
  have "?test v = Some True" using b by simp
  with set_filterM_SomeD [OF T(1)] cand T(2) A show ?thesis by blast
qed

text \<open>
  C14. Confirming a prepared ballot: the query never aborts; what it returns lies below ballots the
  slot accepts as prepared, and a quorum of the slot accepts all of it as prepared.
\<close>

theorem confirmed_prepared_backed:
  "\<exists>A A0. ballots_confirmed_prepared s = Some A \<and> ballots_accepted_prepared s = Some A0 \<and>
     A \<subseteq> below_some A0 \<and> (A \<noteq> {} \<longrightarrow> quorum_backs (supports_ballot accepts_prepared) s A)"
proof -
  obtain A where A: "ballots_confirmed_prepared s = Some A" using ballots_confirmed_prepared_returns by blast
  obtain A0 where "ballots_accepted_prepared s = Some A0" "A \<subseteq> below_some A0"
    "A = {} \<or> quorum_backs (supports_ballot accepts_prepared) s A"
    using A by (rule ballots_confirmed_prepared_backed)
  with A show ?thesis by blast
qed

theorem confirmed_prepared_backed_witness:
  "quorum_backs (supports_ballot accepts_prepared)
     (ex_query_slot (map (\<lambda>n. (n, Commit \<lparr>com_B = Ballot 4 [5], com_PN = 4, com_CN = 1, com_HN = 4\<rparr>)) [2, 3]))
     {Ballot 4 [5]}"
proof -
  let ?s = "ex_query_slot (map (\<lambda>n. (n, Commit \<lparr>com_B = Ballot 4 [5], com_PN = 4, com_CN = 1, com_HN = 4\<rparr>)) [2, 3])"
  have "ballots_confirmed_prepared ?s = Some {Ballot 4 [5]}" by code_simp
  with confirmed_prepared_backed [of ?s] show ?thesis by auto
qed

text \<open>
  C13. Confirming a commit: with well-formed stored messages, a range of counters the slot confirms as committed is
  nonempty, and a quorum of the slot accepts the ballot's values as committed at every counter of it.
\<close>

theorem confirmed_committed_backed:
  assumes "ballots_confirmed_committed a s = Some (Some (lo, hi))" and "M_valid s"
    and "commit_range_ok s" and "sl_phase s = PhCommit \<longrightarrow> sl_C s \<noteq> None \<and> sl_H s \<noteq> None"
  shows "lo \<le> hi \<and> quorum_backs (supports_commit accept_commit_range) s
    {(v, n). v = b_X (sl_B s) \<and> lo \<le> n \<and> n \<le> hi}"
  using ballots_confirmed_committed_backed [OF assms(1-3)] assms(4) by blast

definition ex_commit_slot :: "(int, int, unit) slot" where
  "ex_commit_slot =
     (ex_query_slot [(2, Commit \<lparr>com_B = Ballot 4 [5], com_PN = 4, com_CN = 2, com_HN = 4\<rparr>),
        (3, Externalize \<lparr>ext_C = Ballot 3 [5], ext_HN = 4\<rparr>)])
       \<lparr>sl_phase := PhCommit, sl_B := Ballot 4 [5], sl_P := Some (Ballot 4 [5]),
        sl_C := Some (Ballot 1 [5]), sl_H := Some (Ballot 4 [5])\<rparr>"

definition ex_query_ambient :: "(int, int) ambient" where
  "ex_query_ambient = \<lparr>now = 0, node_iter = sorted_list_of_set, value_iter = sorted_list_of_set,
     fast_hash = (\<lambda>_. 0), key_bytes = (\<lambda>_. [])\<rparr>"

theorem confirmed_committed_backed_witness:
  "quorum_backs (supports_commit accept_commit_range) ex_commit_slot {(v, n). v = [5] \<and> 3 \<le> n \<and> n \<le> 4}"
proof -
  have r: "ballots_confirmed_committed ex_query_ambient ex_commit_slot = Some (Some (3, 4))"
    "b_X (sl_B ex_commit_slot) = [5]" by code_simp+
  have M: "M_valid ex_commit_slot"
    by (auto simp: msgs_ok_def ex_commit_slot_def ex_query_slot_def msg_new_def validate_def
        new_with_node_ids_def qs_new_def split: if_split_asm)
  have "commit_range_ok ex_commit_slot" "sl_C ex_commit_slot \<noteq> None" "sl_H ex_commit_slot \<noteq> None"
    by (simp_all add: commit_range_ok_def ex_commit_slot_def ex_query_slot_def)
  with confirmed_committed_backed [OF r(1) M] r(2) show ?thesis by simp
qed

text \<open>
  C20. A ballot can be accepted as prepared with too little support: the search for a blocking set
  narrows the ballot to the least counter its members accept, but the query keeps the ballot
  it started with. Node 2 accepts counter 9, node 3 only counter 2; the slot accepts counter 9,
  although no blocking set accepts it and the slot has not voted for it.
\<close>

theorem accepted_prepared_unbacked:
  "\<exists>s :: (int, int, unit) slot. \<exists>A. ballots_accepted_prepared s = Some A \<and> Ballot 9 [5] \<in> A \<and>
     \<not> blocking_backs (supports_ballot accepts_prepared) s (Ballot 9 [5]) \<and>
     Ballot 9 [5] \<notin> below_some (local_prepare_votes s)"
proof -
  define s where "s = ex_query_slot [(2, Commit \<lparr>com_B = Ballot 9 [5], com_PN = 9, com_CN = 1, com_HN = 9\<rparr>),
    (3, Commit \<lparr>com_B = Ballot 2 [5], com_PN = 2, com_CN = 1, com_HN = 2\<rparr>)]"
  have "ballots_accepted_prepared s = Some {Ballot 9 [5], Ballot 2 [5]}" unfolding s_def by code_simp
  moreover have "\<not> blocking_backs (supports_ballot accepts_prepared) s (Ballot 9 [5])"
  proof
    assume "blocking_backs (supports_ballot accepts_prepared) s (Ballot 9 [5])"
    moreover have "qs_size (sl_quorum_set s) < 2 ^ 32"
      by (simp add: s_def ex_query_slot_def slot_init_def new_with_node_ids_def qs_new_def)
    ultimately obtain S where S: "blocking (sl_quorum_set s) S"
      "\<forall>n \<in> S. \<exists>m. map_of (sl_M s) n = Some m \<and> supports_ballot accepts_prepared m (Ballot 9 [5])"
      unfolding blocking_backs_def by blast
    have sup: "supports_ballot accepts_prepared (msg_new n q i (Commit p)) b \<longleftrightarrow>
        ballot_below b (Ballot (com_PN p) (b_X (com_B p)))" for n :: int and q i b and p :: "int commit_payload"
      by (simp add: supports_ballot_def accepts_prepared_def msg_new_def)
    have "n = 2" if "map_of (sl_M s) n = Some m" "supports_ballot accepts_prepared m (Ballot 9 [5])" for n m
      using that by (auto simp: s_def ex_query_slot_def sup ballot_below_def split: if_split_asm)
    with S(2) have "S \<subseteq> {2}" by blast
    then have "sat (- {2}) (sl_quorum_set s) \<longrightarrow> sat (- S) (sl_quorum_set s)"
      using sat_mono [of "- {2}" "- S"] by blast
    with S(1) show False
      by (simp add: blocking_iff s_def ex_query_slot_def slot_init_def new_with_node_ids_def qs_new_def)
  qed
  moreover have "Ballot 9 [5] \<notin> below_some (local_prepare_votes s)"
    by (simp add: s_def ex_query_slot_def slot_init_def local_prepare_votes_def ballot_is_zero_def below_some_def)
  ultimately show ?thesis by blast
qed

end
