(* ===== verification/Scp_Slot_Frame.thy ===== *)
theory Scp_Slot_Frame
  imports Scp_Slot_Handlers Scp_Slot_Queries
begin

section \<open>What the operations of a slot leave alone\<close>

text \<open>
  Frame lemmas. The phases never write the identity of the slot, its functions, the messages
  received or the caches (\<open>same_inputs\<close>); the ballot phases never write the nomination sets
  (\<open>same_nomination\<close>); once a slot is in the commit or externalize phase its value is fixed
  and the phase does not go back (\<open>value_fixed\<close>).
\<close>

definition same_inputs :: "('id, 'v, 'e) slot \<Rightarrow> ('id, 'v, 'e) slot \<Rightarrow> bool" where
  "same_inputs s t \<longleftrightarrow>
     sl_index t = sl_index s \<and> sl_node_id t = sl_node_id s \<and> sl_quorum_set t = sl_quorum_set s \<and>
     sl_M t = sl_M s \<and> sl_W t = sl_W s \<and> sl_last_sent_msg t = sl_last_sent_msg s \<and>
     sl_validity_fn t = sl_validity_fn s \<and> sl_combine_fn t = sl_combine_fn s \<and>
     sl_valid_values t = sl_valid_values s"

definition same_nomination :: "('id, 'v, 'e) slot \<Rightarrow> ('id, 'v, 'e) slot \<Rightarrow> bool" where
  "same_nomination s t \<longleftrightarrow> sl_X t = sl_X s \<and> sl_Y t = sl_Y s \<and> sl_Z t = sl_Z s"

definition same_ballots :: "('id, 'v, 'e) slot \<Rightarrow> ('id, 'v, 'e) slot \<Rightarrow> bool" where
  "same_ballots s t \<longleftrightarrow>
     sl_P t = sl_P s \<and> sl_PP t = sl_PP s \<and> sl_H t = sl_H s \<and> sl_C t = sl_C s \<and> sl_phase t = sl_phase s"

lemma same_inputs_refl [simp]: "same_inputs s s"
  by (simp add: same_inputs_def)

lemma same_inputs_trans: "same_inputs s t \<Longrightarrow> same_inputs t u \<Longrightarrow> same_inputs s u"
  by (simp add: same_inputs_def)

lemma same_nomination_refl [simp]: "same_nomination s s"
  by (simp add: same_nomination_def)

lemma same_nomination_trans: "same_nomination s t \<Longrightarrow> same_nomination t u \<Longrightarrow> same_nomination s u"
  by (simp add: same_nomination_def)

lemmas same_defs = same_inputs_def same_nomination_def same_ballots_def

text \<open>The position of a phase in the protocol.\<close>

fun phase_rank :: "phase \<Rightarrow> nat" where
  "phase_rank PhNominatePrepare = 0"
| "phase_rank PhPrepare = 1"
| "phase_rank PhCommit = 2"
| "phase_rank PhExternalize = 3"

definition committed :: "('id, 'v, 'e) slot \<Rightarrow> bool" where
  "committed s \<longleftrightarrow> sl_phase s = PhCommit \<or> sl_phase s = PhExternalize"

definition value_fixed :: "('id, 'v, 'e) slot \<Rightarrow> ('id, 'v, 'e) slot \<Rightarrow> bool" where
  "value_fixed s t \<longleftrightarrow>
     phase_rank (sl_phase s) \<le> phase_rank (sl_phase t) \<and>
     (committed s \<longrightarrow> b_X (sl_B t) = b_X (sl_B s))"

lemma committed_rank: "committed s \<longleftrightarrow> 2 \<le> phase_rank (sl_phase s)"
  by (cases "sl_phase s") (auto simp: committed_def)

lemma value_fixed_refl [simp]: "value_fixed s s"
  by (simp add: value_fixed_def)

lemma value_fixed_trans:
  assumes "value_fixed s t" and "value_fixed t u" shows "value_fixed s u"
  using assms by (auto simp: value_fixed_def committed_rank)

subsection \<open>Timers and nomination\<close>

lemma schedule_next_nomination_round_frame:
  "same_inputs s (schedule_next_nomination_round a s)"
  "same_nomination s (schedule_next_nomination_round a s)"
  "same_ballots s (schedule_next_nomination_round a s)"
  "sl_B (schedule_next_nomination_round a s) = sl_B s"
  by (simp_all add: schedule_next_nomination_round_def same_defs)

lemma maybe_set_ballot_timer_frame:
  assumes "maybe_set_ballot_timer a s = Some t"
  shows "same_inputs s t" "same_nomination s t" "same_ballots s t" "sl_B t = sl_B s"
    "sl_next_nominate_round_at t = sl_next_nominate_round_at s"
    "sl_phase s = PhExternalize \<Longrightarrow> t = s"
  using assms
  by (auto simp: maybe_set_ballot_timer_def same_defs elim!: run_elims split: if_split_asm)

lemma vote_nominate_frame:
  assumes "vote_nominate s = Some t"
  shows "same_inputs s t" "same_ballots s t" "sl_B t = sl_B s" "sl_Y t = sl_Y s" "sl_Z t = sl_Z s"
    "sl_next_nominate_round_at t = sl_next_nominate_round_at s"
    "sl_next_ballot_at t = sl_next_ballot_at s"
  using assms
  by (auto simp: vote_nominate_def same_defs Let_def elim!: run_elims split: if_split_asm)

lemma update_YZ_frame:
  assumes "update_YZ s = Some t"
  shows "same_inputs s t" "same_ballots s t" "sl_B t = sl_B s"
    "sl_next_nominate_round_at t = sl_next_nominate_round_at s"
    "sl_next_ballot_at t = sl_next_ballot_at s"
  using assms by (auto simp: update_YZ_def same_defs Let_def elim!: run_elims)

lemma start_ballot_frame:
  "same_inputs s (start_ballot a s)" "same_ballots s (start_ballot a s)"
  "same_nomination s (start_ballot a s)"
  "sl_next_nominate_round_at (start_ballot a s) = sl_next_nominate_round_at s"
  "sl_next_ballot_at (start_ballot a s) = sl_next_ballot_at s"
  by (auto simp: start_ballot_def same_defs split: sum.split)

lemma do_nominate_phaseE:
  assumes "do_nominate_phase a s = Some t"
  obtains s1 s2 where "sl_phase s = PhNominatePrepare"
    and "vote_nominate (schedule_next_nomination_round a s) = Some s1"
    and "update_YZ s1 = Some s2" and "t = start_ballot a s2"
  using assms by (auto simp: do_nominate_phase_def elim!: run_elims)

lemma do_nominate_phase_frame:
  assumes "do_nominate_phase a s = Some t"
  shows "same_inputs s t" "same_ballots s t" "sl_phase s = PhNominatePrepare"
    "sl_next_ballot_at t = sl_next_ballot_at s"
proof -
  from assms obtain s1 s2 where ph: "sl_phase s = PhNominatePrepare"
    and 1: "vote_nominate (schedule_next_nomination_round a s) = Some s1"
    and 2: "update_YZ s1 = Some s2" and t: "t = start_ballot a s2"
    by (rule do_nominate_phaseE)
  have "sl_next_ballot_at (schedule_next_nomination_round a s) = sl_next_ballot_at s"
    by (simp add: schedule_next_nomination_round_def)
  then show "same_inputs s t" "same_ballots s t" "sl_next_ballot_at t = sl_next_ballot_at s"
    using schedule_next_nomination_round_frame [where s = s and a = a] vote_nominate_frame [OF 1]
      update_YZ_frame [OF 2] start_ballot_frame [where s = s2 and a = a]
    by (simp_all add: t same_inputs_def same_ballots_def)
qed (rule do_nominate_phaseE [OF assms])

subsection \<open>The prepare phase\<close>

lemma prepare_step1_frame:
  assumes "prepare_step1 s = Some r"
  shows "\<exists>t. (r = Return t \<and> t = s \<or> r = Continue t) \<and> same_inputs s t \<and> same_nomination s t \<and>
    sl_B t = sl_B s \<and> sl_C t = sl_C s \<and> sl_H t = sl_H s \<and> sl_phase t = sl_phase s"
  using assms
  by (auto simp: prepare_step1_def same_defs elim!: run_elims split: option.split_asm if_split_asm)


lemma prepare_abort_C_frame:
  "same_inputs s (prepare_abort_C s)" "same_nomination s (prepare_abort_C s)"
  "sl_B (prepare_abort_C s) = sl_B s" "sl_P (prepare_abort_C s) = sl_P s"
  "sl_PP (prepare_abort_C s) = sl_PP s" "sl_H (prepare_abort_C s) = sl_H s"
  "sl_phase (prepare_abort_C s) = sl_phase s"
  by (auto simp: prepare_abort_C_def same_defs split: option.split)

lemma prepare_step2_frame:
  assumes "prepare_step2 s = Some t"
  shows "same_inputs s t" "same_nomination s t" "sl_B t = sl_B s" "sl_P t = sl_P s"
    "sl_PP t = sl_PP s" "sl_C t = sl_C s" "sl_next_ballot_at t = sl_next_ballot_at s"
    "sl_phase t = sl_phase s \<or> sl_phase s = PhNominatePrepare \<and> sl_phase t = PhPrepare"
    "sl_next_nominate_round_at t = None \<or>
     sl_next_nominate_round_at t = sl_next_nominate_round_at s \<and> sl_phase t = sl_phase s"
  using assms
  by (auto simp: prepare_step2_def same_defs cancel_next_nomination_round_def Let_def
      elim!: run_elims split: option.split_asm if_split_asm)

lemma prepare_step3_frame:
  assumes "prepare_step3 s = Some t"
  shows "t = s \<or> (\<exists>c. t = s\<lparr>sl_C := Some c\<rparr>)"
  using assms
  by (auto simp: prepare_step3_def Let_def elim!: run_elims split: option.split_asm if_split_asm)

lemma prepare_step4_cases:
  assumes "prepare_step4 a s = Some r"
  obtains "r = Continue s"
  | t where "r = Return t" "same_inputs s t" "same_nomination s t"
      "sl_phase t = PhCommit \<and> commit_range_ok t"
      "sl_next_nominate_round_at t = None" "sl_next_ballot_at t = sl_next_ballot_at s"
  using assms
  by (auto simp: prepare_step4_def same_defs cancel_next_nomination_round_def commit_range_ok_def Let_def
      elim!: run_elims split: option.split_asm)

lemma prepare_step8_frame:
  "prepare_step8 s = s \<or> (\<exists>b. prepare_step8 s = s\<lparr>sl_B := b\<rparr>)"
  by (auto simp: prepare_step8_def split: option.split)

lemma prepare_step9_cases:
  assumes "prepare_step9 a s = Some r"
  obtains "r = Continue s"
  | u x t where "r = Rerun t"
      "maybe_set_ballot_timer a ((cancel_next_ballot_timer s)\<lparr>sl_B := Ballot u x\<rparr>) = Some t"
      "get_unblocking_ballot_counter s = Some u" "b_N (sl_B s) < u"
      "get_next_ballot_values a s = Some (Some x)"
  using assms
  by (auto simp: prepare_step9_def elim!: run_elims split: option.split_asm if_split_asm)


text \<open>The timer for the next nomination round is only set while the slot nominates.\<close>

definition round_timer_ok :: "('id, 'v, 'e) slot \<Rightarrow> bool" where
  "round_timer_ok s \<longleftrightarrow> (sl_next_nominate_round_at s \<noteq> None \<longrightarrow> sl_phase s = PhNominatePrepare)"

definition ballot_step :: "('id, 'v, 'e) slot \<Rightarrow> ('id, 'v, 'e) slot \<Rightarrow> bool" where
  "ballot_step s t \<longleftrightarrow>
     same_inputs s t \<and> same_nomination s t \<and> phase_rank (sl_phase s) \<le> phase_rank (sl_phase t) \<and>
     (round_timer_ok s \<longrightarrow> round_timer_ok t)"

lemma ballot_step_refl [simp]: "ballot_step s s"
  by (simp add: ballot_step_def)

lemma ballot_step_trans: "ballot_step s t \<Longrightarrow> ballot_step t u \<Longrightarrow> ballot_step s u"
  by (auto simp: ballot_step_def intro: same_inputs_trans same_nomination_trans)

lemma maybe_set_ballot_timer_step:
  assumes "maybe_set_ballot_timer a s = Some t" shows "ballot_step s t"
  using maybe_set_ballot_timer_frame [OF assms]
  by (simp add: ballot_step_def round_timer_ok_def same_ballots_def)

lemma prepare_step1_step:
  assumes "prepare_step1 s = Some r"
  shows "r = Return s \<or> (\<exists>t. r = Continue t \<and> ballot_step s t \<and> sl_phase t = sl_phase s)"
  using assms
  by (auto simp: prepare_step1_def ballot_step_def same_defs round_timer_ok_def
      elim!: run_elims split: option.split_asm if_split_asm)

lemma prepare_abort_C_step: "ballot_step s (prepare_abort_C s)"
  by (auto simp: prepare_abort_C_def ballot_step_def same_defs round_timer_ok_def split: option.split)

lemma prepare_step2_step:
  assumes "prepare_step2 s = Some t"
  shows "ballot_step s t" "sl_phase s = PhNominatePrepare \<or> sl_phase s = PhPrepare \<Longrightarrow>
    sl_phase t = PhNominatePrepare \<or> sl_phase t = PhPrepare"
  using prepare_step2_frame [OF assms] by (auto simp: ballot_step_def round_timer_ok_def)

lemma prepare_step3_step:
  assumes "prepare_step3 s = Some t" shows "ballot_step s t" "sl_phase t = sl_phase s"
  using prepare_step3_frame [OF assms] by (auto simp: ballot_step_def same_defs round_timer_ok_def)

lemma prepare_step8_step: "ballot_step s (prepare_step8 s)" "sl_phase (prepare_step8 s) = sl_phase s"
  by (auto simp: prepare_step8_def ballot_step_def same_defs round_timer_ok_def split: option.split)

lemma prepare_step9_step:
  assumes "prepare_step9 a s = Some r"
  shows "(\<exists>t. (r = Continue t \<or> r = Rerun t) \<and> ballot_step s t \<and> sl_phase t = sl_phase s)"
  using assms
proof (cases rule: prepare_step9_cases)
  case (2 u x t)
  have "ballot_step s ((cancel_next_ballot_timer s)\<lparr>sl_B := Ballot u x\<rparr>)"
    by (simp add: ballot_step_def same_defs cancel_next_ballot_timer_def round_timer_ok_def)
  then have "ballot_step s t"
    using maybe_set_ballot_timer_step [OF 2(2)] by (rule ballot_step_trans)
  with 2(1) maybe_set_ballot_timer_frame [OF 2(2)] show ?thesis
    by (simp add: cancel_next_ballot_timer_def same_ballots_def)
qed simp

text \<open>A pass ends where it began, still in a prepare phase, or in the commit phase.\<close>

lemma prepare_passE:
  assumes "prepare_pass a s = Some r"
  obtains (early) "prepare_phase_invariants s" "r = Return s"
  | (late) s1 s2 s3 r4 where "prepare_phase_invariants s" "prepare_step1 s = Some (Continue s1)"
      "prepare_step2 (prepare_abort_C s1) = Some s2" "prepare_step3 s2 = Some s3"
      "prepare_step4 a s3 = Some r4"
      "r4 = Continue s3 \<and> prepare_step9 a (prepare_step8 s3) = Some r \<or> (\<exists>t. r4 = Return t \<and> r = Return t)"
proof -
  from assms obtain r1 where inv: "prepare_phase_invariants s" and 1: "prepare_step1 s = Some r1"
    by (auto simp: prepare_pass_def check_prepare_phase_invariants_def elim!: run_elims)
  from prepare_step1_step [OF 1] consider "r1 = Return s" | s1 where "r1 = Continue s1" by blast
  then show thesis
  proof cases
    case 1
    with assms \<open>prepare_step1 s = Some r1\<close> inv early show ?thesis
      by (auto simp: prepare_pass_def elim!: run_elims)
  next
    case (2 s1)
    with assms 1 obtain s2 s3 r4 where "prepare_step2 (prepare_abort_C s1) = Some s2"
      "prepare_step3 s2 = Some s3" and 4: "prepare_step4 a s3 = Some r4"
      and r: "(case r4 of Continue s \<Rightarrow> prepare_step9 a (prepare_step8 s) | _ \<Rightarrow> Some r4) = Some r"
      by (auto simp: prepare_pass_def elim!: run_elims)
    moreover from 4 r have "r4 = Continue s3 \<and> prepare_step9 a (prepare_step8 s3) = Some r \<or>
        (\<exists>t. r4 = Return t \<and> r = Return t)"
      by (cases rule: prepare_step4_cases) auto
    ultimately show ?thesis using late inv 1 2 by blast
  qed
qed

lemma prepare_pass_step:
  assumes "prepare_pass a s = Some r"
  shows "prepare_phase_invariants s" and "pred_flow (ballot_step s) r"
    and "r = Return t \<Longrightarrow> t = s \<or> sl_phase t = PhCommit \<and> commit_range_ok t"
proof -
  from assms have "prepare_phase_invariants s \<and> pred_flow (ballot_step s) r \<and>
    (r = Return t \<longrightarrow> t = s \<or> sl_phase t = PhCommit \<and> commit_range_ok t)"
  proof (cases rule: prepare_passE)
    case early
    then show ?thesis by simp
  next
    case (late s1 s2 s3 r4)
    from prepare_step1_step [OF late(2)] have "ballot_step s s1" and p1: "sl_phase s1 = sl_phase s" by auto
    from this(1) have 3: "ballot_step s s3"
      using prepare_abort_C_step prepare_step2_step(1) [OF late(3)] prepare_step3_step(1) [OF late(4)]
      by (blast intro: ballot_step_trans)
    have p3: "sl_phase s3 = PhNominatePrepare \<or> sl_phase s3 = PhPrepare"
      using late(1) p1 prepare_step2_step(2) [OF late(3)] prepare_step3_step(2) [OF late(4)]
        prepare_abort_C_frame(7) [of s1]
      by (simp add: prepare_phase_invariants_def)
    from late(5) show ?thesis
    proof (cases rule: prepare_step4_cases)
      case 1
      with late(6) have "prepare_step9 a (prepare_step8 s3) = Some r" by auto
      from prepare_step9_step [OF this] obtain u where "r = Continue u \<or> r = Rerun u"
        "ballot_step (prepare_step8 s3) u" by blast
      moreover have "ballot_step s (prepare_step8 s3)"
        using 3 prepare_step8_step(1) by (rule ballot_step_trans)
      ultimately show ?thesis using late(1) by (auto intro: ballot_step_trans)
    next
      case (2 u)
      then have "ballot_step s3 u" using p3 by (auto simp: ballot_step_def round_timer_ok_def)
      with 3 2(1,4) late(1,6) show ?thesis by (auto intro: ballot_step_trans)
    qed
  qed
  then show "prepare_phase_invariants s" "pred_flow (ballot_step s) r"
    "r = Return t \<Longrightarrow> t = s \<or> sl_phase t = PhCommit \<and> commit_range_ok t" by auto
qed

lemma do_prepare_phase_step:
  fixes s t :: "('id, 'v::linorder, 'e) slot"
  assumes "do_prepare_phase a s = Some t"
  shows "prepare_phase_invariants s \<and> ballot_step s t \<and> (prepare_phase_invariants t \<or> sl_phase t = PhCommit \<and> commit_range_ok t)"
proof (rule do_prepare_phase.raw_induct [OF _ assms])
  fix f and a :: "('id, 'v) ambient" and s t :: "('id, 'v, 'e) slot"
  assume IH: "\<And>a s t. f a s = Some t \<Longrightarrow>
      prepare_phase_invariants s \<and> ballot_step s t \<and> (prepare_phase_invariants t \<or> sl_phase t = PhCommit \<and> commit_range_ok t)"
    and run: "do {
      r \<leftarrow> prepare_pass a s;
      case r of Return s \<Rightarrow> Some s
      | Continue s \<Rightarrow> do { check_prepare_phase_invariants s; Some s }
      | Rerun s \<Rightarrow> do { s \<leftarrow> f a s; check_prepare_phase_invariants s; Some s } } = Some t"
  from run obtain r where r: "prepare_pass a s = Some r"
    and t: "(case r of Return s \<Rightarrow> Some s
      | Continue s \<Rightarrow> do { check_prepare_phase_invariants s; Some s }
      | Rerun s \<Rightarrow> do { s \<leftarrow> f a s; check_prepare_phase_invariants s; Some s }) = Some t"
    by (auto elim!: run_elims)
  note p = prepare_pass_step [OF r]
  show "prepare_phase_invariants s \<and> ballot_step s t \<and> (prepare_phase_invariants t \<or> sl_phase t = PhCommit \<and> commit_range_ok t)"
  proof (cases r)
    case (Return u)
    with t p show ?thesis by auto
  next
    case (Continue u)
    with t p show ?thesis by (auto simp: check_prepare_phase_invariants_def elim!: run_elims)
  next
    case (Rerun u)
    with t obtain u: "f a u = Some t" "prepare_phase_invariants t"
      by (auto simp: check_prepare_phase_invariants_def elim!: run_elims)
    from p(2) Rerun have "ballot_step s u" by simp
    with IH [OF u(1)] p(1) u(2) show ?thesis by (blast intro: ballot_step_trans)
  qed
qed


subsection \<open>The commit and externalize phases\<close>

text \<open>In these phases the ballot keeps its value.\<close>

definition commit_step :: "('id, 'v, 'e) slot \<Rightarrow> ('id, 'v, 'e) slot \<Rightarrow> bool" where
  "commit_step s t \<longleftrightarrow> ballot_step s t \<and> b_X (sl_B t) = b_X (sl_B s)"

lemma commit_step_refl [simp]: "commit_step s s"
  by (simp add: commit_step_def)

lemma commit_step_trans: "commit_step s t \<Longrightarrow> commit_step t u \<Longrightarrow> commit_step s u"
  by (auto simp: commit_step_def intro: ballot_step_trans)

text \<open>A quorum accepts the value of the ballot as committed.\<close>

definition externalize_cert :: "('id, 'v, 'e) slot \<Rightarrow> bool" where
  "externalize_cert s \<longleftrightarrow> (\<exists>n. quorum_backs (supports_commit accept_commit_range) s {(b_X (sl_B s), n)})"

lemmas commit_step_defs = commit_step_def ballot_step_def same_defs round_timer_ok_def

lemma commit_step5_step:
  assumes "commit_step5 s = Some t"
  shows "commit_step s t" "sl_phase t = sl_phase s" "sl_C t = sl_C s" "sl_H t = sl_H s"
  using assms
  by (auto simp: commit_step5_def commit_step_defs elim!: run_elims split: option.split_asm if_split_asm)

lemma commit_step6_step:
  assumes "commit_step6 a s = Some t"
  shows "commit_step s t" "sl_phase t = sl_phase s"
    "sl_C s \<noteq> None \<and> sl_H s \<noteq> None \<Longrightarrow> sl_C t \<noteq> None \<and> sl_H t \<noteq> None"
  using assms
  by (auto simp: commit_step6_def set_C_H_def commit_step_defs elim!: run_elims split: option.split_asm)

lemma commit_step6_range:
  assumes "commit_step6 a s = Some t" and "M_valid s" and "commit_range_ok s"
  shows "commit_range_ok t"
proof -
  from assms(1) obtain rs where rs: "ballots_accepted_committed a s = Some rs"
    and t: "t = (case map_of rs (b_X (sl_B s)) of Some r \<Rightarrow> set_C_H r s | None \<Rightarrow> s)"
    by (auto simp: commit_step6_def elim!: run_elims)
  show ?thesis
    using t assms(3) ranges_wf_map_of [OF ballots_accepted_committed_wf [OF rs assms(2)]]
    by (auto simp: commit_range_ok_def set_C_H_def split: option.splits)
qed

lemma phase_rank_le: "phase_rank p \<le> 3"
  by (cases p) auto

lemma externalized_step:
  "commit_step s (externalized (lo, hi) s)" "sl_phase (externalized (lo, hi) s) = PhExternalize"
  "sl_C (externalized (lo, hi) s) = Some (Ballot lo (b_X (sl_B s)))"
  "sl_H (externalized (lo, hi) s) = Some (Ballot hi (b_X (sl_B s)))"
  "sl_B (externalized (lo, hi) s) = sl_B s" "sl_M (externalized (lo, hi) s) = sl_M s"
  "sl_node_id (externalized (lo, hi) s) = sl_node_id s"
  "sl_quorum_set (externalized (lo, hi) s) = sl_quorum_set s"
  by (simp_all add: externalized_def set_C_H_def commit_step_defs cancel_next_ballot_timer_def
      cancel_next_nomination_round_def phase_rank_le)

lemma commit_step7_cases:
  assumes "commit_step7 a s = Some r"
  obtains "r = Continue s"
  | lo hi where "r = Return (externalized (lo, hi) s)"
      "ballots_confirmed_committed a s = Some (Some (lo, hi))"
  using assms by (auto simp: commit_step7_def elim!: run_elims split: option.split_asm)

lemma commit_step8_step: "commit_step s (commit_step8 s)" "sl_phase (commit_step8 s) = sl_phase s"
    "sl_C (commit_step8 s) = sl_C s" "sl_H (commit_step8 s) = sl_H s"
  by (auto simp: commit_step8_def set_B_N_def commit_step_defs split: option.split)

lemma commit_step9_step:
  assumes "commit_step9 s = Some r"
  shows "\<exists>t. (r = Continue t \<or> r = Rerun t) \<and> commit_step s t \<and> sl_C t = sl_C s \<and> sl_H t = sl_H s"
  using assms
  by (auto simp: commit_step9_def set_B_N_def commit_step_defs cancel_next_ballot_timer_def elim!: run_elims)

lemma commit_pass_step:
  assumes r: "commit_pass a s = Some r" and M: "M_valid s" and CH: "commit_range_ok s"
  shows "commit_phase_invariants s" and "pred_flow (\<lambda>t. commit_step s t \<and> commit_range_ok t) r"
    and "r = Return t \<Longrightarrow> sl_phase t = PhExternalize \<and> externalize_cert t"
proof -
  from r obtain s1 s2 r3 where inv: "commit_phase_invariants s" and s1: "commit_step5 s = Some s1"
    and s2: "commit_step6 a s1 = Some s2" and r3: "commit_step7 a s2 = Some r3"
    and r: "(case r3 of Continue s \<Rightarrow> commit_step9 (commit_step8 s) | _ \<Rightarrow> Some r3) = Some r"
    by (auto simp: commit_pass_def check_commit_phase_invariants_def elim!: run_elims)
  note f1 = commit_step5_step [OF s1] and f2 = commit_step6_step [OF s2]
  have 2: "commit_step s s2" using f1(1) f2(1) by (rule commit_step_trans)
  have M1: "M_valid s1" and M2: "M_valid s2"
    using f1(1) 2 M by (auto simp: commit_step_def ballot_step_def same_inputs_def)
  have CH2: "commit_range_ok s2"
    by (rule commit_step6_range [OF s2 M1]) (use f1 CH in \<open>simp add: commit_range_ok_def\<close>)
  have some: "sl_C s2 \<noteq> None \<and> sl_H s2 \<noteq> None"
    using inv f1 f2 by (auto simp: commit_phase_invariants_def split: option.splits)
  from r3 have "pred_flow (\<lambda>t. commit_step s t \<and> commit_range_ok t) r \<and>
      (r = Return t \<longrightarrow> sl_phase t = PhExternalize \<and> externalize_cert t)"
  proof (cases rule: commit_step7_cases)
    case 1
    with r have "commit_step9 (commit_step8 s2) = Some r" by simp
    from commit_step9_step [OF this] obtain u where "r = Continue u \<or> r = Rerun u"
      "commit_step (commit_step8 s2) u" "sl_C u = sl_C s2" "sl_H u = sl_H s2"
      by (auto simp: commit_step8_step)
    with commit_step_trans [OF commit_step_trans [OF 2 commit_step8_step(1)]] CH2
    show ?thesis by (auto simp: commit_range_ok_def)
  next
    case (2 lo hi)
    note b = ballots_confirmed_committed_backed [OF 2(2) M2 CH2 some]
    have "quorum_backs (supports_commit accept_commit_range) s2 {(b_X (sl_B s2), lo)}"
      using b by (auto intro: quorum_backs_mono)
    then have "externalize_cert (externalized (lo, hi) s2)"
      unfolding externalize_cert_def by (auto simp: quorum_backs_def externalized_step)
    moreover have "commit_step s (externalized (lo, hi) s2)"
      using \<open>commit_step s s2\<close> externalized_step(1) by (rule commit_step_trans)
    ultimately show ?thesis using 2 r b(1) by (auto simp: commit_range_ok_def externalized_step)
  qed
  then show "pred_flow (\<lambda>t. commit_step s t \<and> commit_range_ok t) r"
    and "r = Return t \<Longrightarrow> sl_phase t = PhExternalize \<and> externalize_cert t" by auto
qed (use r in \<open>auto simp: commit_pass_def check_commit_phase_invariants_def elim!: run_elims\<close>)


lemma do_commit_phase_step:
  assumes "do_commit_phase a s = Some t" and "M_valid s" and "commit_range_ok s"
  shows "commit_phase_invariants s \<and> commit_step s t \<and> commit_range_ok t \<and>
    (commit_phase_invariants t \<or> sl_phase t = PhExternalize \<and> externalize_cert t)"
  using assms
proof (induction a s rule: do_commit_phase.induct)
  case (1 a s)
  then obtain r where r: "commit_pass a s = Some r"
    and t: "(case r of Return s \<Rightarrow> Some s
      | Continue s \<Rightarrow> do { check_commit_phase_invariants s; Some s }
      | Rerun s \<Rightarrow> do { s \<leftarrow> do_commit_phase a s; check_commit_phase_invariants s; Some s }) = Some t"
    by (subst (asm) (2) do_commit_phase.simps) (auto elim!: run_elims)
  note p = commit_pass_step [OF r "1.prems"(2,3)]
  show ?case
  proof (cases r)
    case (Return u)
    with t p show ?thesis by auto
  next
    case (Continue u)
    with t p show ?thesis by (auto simp: check_commit_phase_invariants_def elim!: run_elims)
  next
    case (Rerun u)
    with t obtain u: "do_commit_phase a u = Some t" "commit_phase_invariants t"
      by (auto simp: check_commit_phase_invariants_def elim!: run_elims)
    from p(2) Rerun have su: "commit_step s u" "commit_range_ok u" by auto
    with "1.prems"(2) have "M_valid u" by (simp add: commit_step_def ballot_step_def same_inputs_def)
    from "1.IH" [OF r Rerun u(1) this su(2)] su(1) p(1) show ?thesis
      by (blast intro: commit_step_trans)
  qed
qed

lemma do_externalize_phase_step:
  assumes "do_externalize_phase a s = Some t" and "commit_range_ok s"
  shows "externalize_phase_invariants s" "externalize_phase_invariants t" "commit_step s t"
    "commit_range_ok t" "sl_B t = sl_B s" "sl_C t = sl_C s"
  using assms
  by (auto simp: do_externalize_phase_def check_externalize_phase_invariants_def commit_step_defs
      commit_range_ok_def elim!: run_elims split: option.split_asm if_split_asm)
     (erule (1) order.trans)

subsection \<open>The ballot protocol\<close>

text \<open>What holds of the ballots between two calls, by phase.\<close>

definition phase_inv :: "('id, 'v::linorder, 'e) slot \<Rightarrow> bool" where
  "phase_inv s \<longleftrightarrow>
     commit_range_ok s \<and>
     (prepare_phase_invariants s \<or> commit_phase_invariants s \<or> externalize_phase_invariants s)"

lemma prepare_range_ok: "prepare_phase_invariants s \<Longrightarrow> commit_range_ok s"
  by (auto simp: prepare_phase_invariants_def commit_range_ok_def)

lemma commit_step_value_fixed: "commit_step s t \<Longrightarrow> value_fixed s t"
  by (auto simp: commit_step_def ballot_step_def value_fixed_def)

lemma ballot_step_value_fixed: "ballot_step s t \<Longrightarrow> \<not> committed s \<Longrightarrow> value_fixed s t"
  by (auto simp: ballot_step_def value_fixed_def)

lemma ballot_step_M_valid: "ballot_step s t \<Longrightarrow> M_valid s \<Longrightarrow> M_valid t"
  by (simp add: ballot_step_def same_inputs_def)

lemma externalize_cert_step: "commit_step s t \<Longrightarrow> externalize_cert s \<Longrightarrow> externalize_cert t"
  by (simp add: commit_step_def ballot_step_def same_inputs_def externalize_cert_def quorum_backs_def)

text \<open>One phase after the other: each may leave the slot where it is or move it on.\<close>

lemma protocol_prepare_part:
  assumes "(if sl_phase s = PhNominatePrepare \<or> sl_phase s = PhPrepare then do_prepare_phase a s
            else Some s) = Some t" and "commit_range_ok s"
  shows "ballot_step s t \<and> value_fixed s t \<and> commit_range_ok t \<and>
    (prepare_phase_invariants t \<or> sl_phase t = PhCommit \<or> sl_phase t = PhExternalize \<and> t = s)"
proof (cases "sl_phase s = PhNominatePrepare \<or> sl_phase s = PhPrepare")
  case True
  with assms do_prepare_phase_step [of a s t] show ?thesis
    by (auto intro: ballot_step_value_fixed prepare_range_ok simp: committed_def)
next
  case False
  with assms show ?thesis by (cases "sl_phase s") auto
qed

lemma protocol_commit_part:
  assumes "(if sl_phase s = PhCommit then do_commit_phase a s else Some s) = Some t"
    and "commit_range_ok s" and "M_valid s"
    and "prepare_phase_invariants s \<or> sl_phase s = PhCommit \<or> sl_phase s = PhExternalize"
  shows "ballot_step s t \<and> value_fixed s t \<and> commit_range_ok t \<and>
    (prepare_phase_invariants t \<or> commit_phase_invariants t \<or> sl_phase t = PhExternalize) \<and>
    (sl_phase s \<noteq> PhExternalize \<longrightarrow> sl_phase t = PhExternalize \<longrightarrow> externalize_cert t)"
proof (cases "sl_phase s = PhCommit")
  case True
  with assms do_commit_phase_step [of a s t] show ?thesis
    by (auto intro: commit_step_value_fixed simp: commit_step_def commit_phase_invariants_def)
next
  case False
  with assms show ?thesis by auto
qed

lemma protocol_externalize_part:
  assumes "(if sl_phase s = PhExternalize then do_externalize_phase a s else Some s) = Some t"
    and "commit_range_ok s"
    and "prepare_phase_invariants s \<or> commit_phase_invariants s \<or> sl_phase s = PhExternalize"
  shows "ballot_step s t \<and> value_fixed s t \<and> phase_inv t \<and> (externalize_cert s \<longrightarrow> externalize_cert t) \<and>
    (sl_phase t = PhExternalize \<longrightarrow> sl_phase s = PhExternalize)"
proof (cases "sl_phase s = PhExternalize")
  case True
  with assms do_externalize_phase_step [of a s t] show ?thesis
    by (auto intro: commit_step_value_fixed externalize_cert_step simp: commit_step_def phase_inv_def)
next
  case False
  with assms show ?thesis by (auto simp: phase_inv_def)
qed

lemma do_ballot_protocol_step:
  assumes "do_ballot_protocol a s = Some t" and "M_valid s" and "commit_range_ok s"
  shows "ballot_step s t" and "value_fixed s t" and "phase_inv t"
    and "sl_phase s \<noteq> PhExternalize \<Longrightarrow> sl_phase t = PhExternalize \<Longrightarrow> externalize_cert t"
proof -
  from assms(1) obtain s1 s2 s3 where 1: "maybe_set_ballot_timer a s = Some s1"
    and 2: "(if sl_phase s1 = PhNominatePrepare \<or> sl_phase s1 = PhPrepare then do_prepare_phase a s1
             else Some s1) = Some s2"
    and 3: "(if sl_phase s2 = PhCommit then do_commit_phase a s2 else Some s2) = Some s3"
    and 4: "(if sl_phase s3 = PhExternalize then do_externalize_phase a s3 else Some s3) = Some t"
    by (auto simp: do_ballot_protocol_def elim!: run_elims)
  note f1 = maybe_set_ballot_timer_frame [OF 1]
  have b1: "ballot_step s s1" "value_fixed s s1" "commit_range_ok s1" "sl_phase s1 = sl_phase s"
    using maybe_set_ballot_timer_step [OF 1] f1 assms(3)
    by (auto simp: value_fixed_def commit_range_ok_def same_ballots_def)
  note b2 = protocol_prepare_part [OF 2 b1(3)]
  have M2: "M_valid s2" using b1(1) b2 assms(2) by (blast intro: ballot_step_M_valid)
  have "commit_range_ok s2"
    "prepare_phase_invariants s2 \<or> sl_phase s2 = PhCommit \<or> sl_phase s2 = PhExternalize"
    using b2 by auto
  note b3 = protocol_commit_part [OF 3 this(1) M2 this(2)]
  have "commit_range_ok s3"
    "prepare_phase_invariants s3 \<or> commit_phase_invariants s3 \<or> sl_phase s3 = PhExternalize"
    using b3 by auto
  note b4 = protocol_externalize_part [OF 4 this]
  show "ballot_step s t" using b1(1) b2 b3 b4 by (blast intro: ballot_step_trans)
  show "value_fixed s t" using b1(2) b2 b3 b4 by (blast intro: value_fixed_trans)
  show "phase_inv t" using b4 by blast
  show "externalize_cert t" if "sl_phase s \<noteq> PhExternalize" "sl_phase t = PhExternalize"
  proof -
    have "sl_phase s2 \<noteq> PhExternalize"
      using b2 b1(4) that(1) by (auto simp: prepare_phase_invariants_def)
    with b3 b4 that(2) show ?thesis by blast
  qed
qed

end
