(* ===== verification/Scp_Slot_Run.thy ===== *)
theory Scp_Slot_Run
  imports Scp_Slot_Frame
begin

section \<open>Runs of a slot and their invariants\<close>

text \<open>
  A run of a slot starts with \<^verbatim>\<open>Slot::new\<close> and makes any sequence of calls: proposing values,
  delivering a batch of messages, processing timeouts. Each call reads its own ambient (clock,
  iteration orders). The run carries the messages delivered and the messages sent so far.
  Nothing is assumed of the messages delivered.
\<close>

datatype ('id, 'v) event =
    Propose "'v set"
  | Deliver "('id, 'v) msg list"
  | Timeouts

fun slot_step ::
  "('id::linorder, 'v::linorder) ambient \<Rightarrow> ('id, 'v, 'e) slot \<Rightarrow> ('id, 'v) event \<Rightarrow>
   (('id, 'v) msg list \<times> ('id, 'v, 'e) slot) run" where
  "slot_step a s (Propose vals) =
     do { (m, s) \<leftarrow> propose_values a s vals; Some (case m of Some m \<Rightarrow> [m] | None \<Rightarrow> [], s) }"
| "slot_step a s (Deliver msgs) =
     do { (m, s) \<leftarrow> handle_messages a s msgs; Some (case m of Some m \<Rightarrow> [m] | None \<Rightarrow> [], s) }"
| "slot_step a s Timeouts = process_timeouts a s"

fun delivered :: "('id, 'v) event \<Rightarrow> ('id, 'v) msg list" where
  "delivered (Deliver msgs) = msgs"
| "delivered _ = []"

fun event_ok :: "('id, 'v) event \<Rightarrow> bool" where
  "event_ok (Propose vals) \<longleftrightarrow> finite vals"
| "event_ok _ \<longleftrightarrow> True"

inductive slot_run ::
  "'id::linorder \<Rightarrow> 'id quorum_set \<Rightarrow> u64 \<Rightarrow> ('v::linorder \<Rightarrow> 'e + unit) \<Rightarrow> ('v list \<Rightarrow> 'e + 'v list) \<Rightarrow>
   ('id, 'v, 'e) slot \<Rightarrow> ('id, 'v) msg list \<Rightarrow> ('id, 'v) msg list \<Rightarrow> bool"
  for node_id quorum_set slot_index validity_fn combine_fn where
  new: "slot_new a node_id quorum_set slot_index validity_fn combine_fn = Some s \<Longrightarrow>
    slot_run node_id quorum_set slot_index validity_fn combine_fn s [] []"
| step: "slot_run node_id quorum_set slot_index validity_fn combine_fn s recv sent \<Longrightarrow>
    ambient_ok a \<Longrightarrow> event_ok e \<Longrightarrow> slot_step a s e = Some (out, t) \<Longrightarrow>
    slot_run node_id quorum_set slot_index validity_fn combine_fn t (recv @ delivered e) (sent @ out)"

subsection \<open>Validation and the message store\<close>

definition cache_ok :: "('id, 'v, 'e) slot \<Rightarrow> bool" where
  "cache_ok s \<longleftrightarrow> (\<forall>v \<in> sl_valid_values s. sl_validity_fn s v = Inr ())"

text \<open>A call that at most adds checked values to the cache.\<close>

definition cache_step :: "('id, 'v, 'e) slot \<Rightarrow> ('id, 'v, 'e) slot \<Rightarrow> bool" where
  "cache_step s t \<longleftrightarrow> (\<exists>V. t = s\<lparr>sl_valid_values := V\<rparr>) \<and> (cache_ok s \<longrightarrow> cache_ok t)"

lemma cache_step_refl [simp]: "cache_step s s"
  by (auto simp: cache_step_def intro: exI [of _ "sl_valid_values s"])

lemma cache_step_trans: "cache_step s t \<Longrightarrow> cache_step t u \<Longrightarrow> cache_step s u"
  by (auto simp: cache_step_def)

lemma cache_step_validity: "cache_step s t \<Longrightarrow> sl_validity_fn t = sl_validity_fn s"
  by (auto simp: cache_step_def)

lemma slot_validate_step:
  assumes "slot_validate s v = (r, t)"
  shows "cache_step s t" and "r = Inr u \<Longrightarrow> cache_ok s \<Longrightarrow> sl_validity_fn s v = Inr ()"
  using assms by (auto simp: slot_validate_def cache_step_def cache_ok_def
      split: if_split_asm sum.split_asm intro: exI [of _ "sl_valid_values s"])

lemma filter_valid_step:
  assumes "filter_valid s vs = (ws, t)"
  shows "cache_step s t \<and> set ws \<subseteq> set vs \<and> (cache_ok s \<longrightarrow> (\<forall>v \<in> set ws. sl_validity_fn s v = Inr ()))"
  using assms
proof (induction vs arbitrary: s ws t)
  case (Cons v vs)
  obtain r s1 where v: "slot_validate s v = (r, s1)" by (cases "slot_validate s v")
  obtain ws' where ws': "filter_valid s1 vs = (ws', t)" "ws = (if r = Inr () then [v] else []) @ ws'"
    using Cons.prems v by (auto split: sum.splits prod.splits)
  from Cons.IH [OF this(1)] slot_validate_step [OF v] ws'(2) show ?case
    by (auto simp: cache_step_validity intro: cache_step_trans) (auto simp: cache_step_def)
qed simp

lemma all_valid_step:
  assumes "all_valid s vs = (b, t)"
  shows "cache_step s t \<and> (b \<longrightarrow> cache_ok s \<longrightarrow> (\<forall>v \<in> set vs. sl_validity_fn s v = Inr ()))"
  using assms
proof (induction vs arbitrary: s b t)
  case (Cons v vs)
  obtain r s1 where v: "slot_validate s v = (r, s1)" by (cases "slot_validate s v")
  show ?case
  proof (cases r)
    case (Inl e)
    with Cons.prems v slot_validate_step [OF v] show ?thesis by auto
  next
    case (Inr u)
    with Cons.prems v have "all_valid s1 vs = (b, t)" by simp
    from Cons.IH [OF this] slot_validate_step [OF v] Inr show ?thesis
      by (auto simp: cache_step_validity intro: cache_step_trans) (auto simp: cache_step_def)
  qed
qed simp

text \<open>
  What holds of the stored messages: at most one per sender, keyed by it, never from the node
  itself, for this slot, structurally valid, and delivered before.
\<close>

definition stored_ok ::
  "'id \<Rightarrow> u64 \<Rightarrow> ('id, 'v::linorder) msg list \<Rightarrow> 'id \<Rightarrow> ('id, 'v) msg \<Rightarrow> bool" where
  "stored_ok node_id slot_index recv n m \<longleftrightarrow>
     sender_id m = n \<and> n \<noteq> node_id \<and> msg_slot_index m = slot_index \<and> msg_valid m \<and> m \<in> set recv"

definition M_inv :: "('id, 'v::linorder, 'e) slot \<Rightarrow> ('id, 'v) msg list \<Rightarrow> bool" where
  "M_inv s recv \<longleftrightarrow> distinct (map fst (sl_M s)) \<and>
     (\<forall>n m. map_of (sl_M s) n = Some m \<longrightarrow> stored_ok (sl_node_id s) (sl_index s) recv n m)"

text \<open>Until the slot externalizes, the values of the stored messages passed the validity function.\<close>

definition M_values_ok :: "('id, 'v, 'e) slot \<Rightarrow> bool" where
  "M_values_ok s \<longleftrightarrow> sl_phase s \<noteq> PhExternalize \<longrightarrow>
     (\<forall>n m. map_of (sl_M s) n = Some m \<longrightarrow> (\<forall>v \<in> msg_values m. sl_validity_fn s v = Inr ()))"

text \<open>Storing messages writes the store and the cache only.\<close>

definition store_step :: "('id, 'v, 'e) slot \<Rightarrow> ('id, 'v, 'e) slot \<Rightarrow> bool" where
  "store_step s t \<longleftrightarrow> (\<exists>V M. t = s\<lparr>sl_valid_values := V, sl_M := M\<rparr>)"

lemma store_step_refl [simp]: "store_step s s"
  unfolding store_step_def by (intro exI [of _ "sl_valid_values s"] exI [of _ "sl_M s"]) simp

lemma store_step_trans: "store_step s t \<Longrightarrow> store_step t u \<Longrightarrow> store_step s u"
  by (auto simp: store_step_def) blast

lemma cache_step_store: "cache_step s t \<Longrightarrow> store_step s t"
  unfolding cache_step_def store_step_def
  by (elim conjE exE) (intro exI [of _ "sl_valid_values t"] exI [of _ "sl_M s"]; simp)


lemma store_msgE:
  assumes "store_msg s m = (b, t)"
  obtains "\<not> b" "cache_step s t"
  | s1 where "b" "cache_step s s1" "t = s1\<lparr>sl_M := AList.update (sender_id m) m (sl_M s)\<rparr>"
      "msg_valid m" "is_higher s m"
      "cache_ok s \<Longrightarrow> sl_phase s \<noteq> PhExternalize \<Longrightarrow> \<forall>v \<in> msg_values m. sl_validity_fn s v = Inr ()"
proof (cases "is_higher s m \<and> validate m = Inr ()")
  case False
  with assms that(1) show ?thesis by (auto simp: store_msg_def)
next
  case True
  show ?thesis
  proof (cases "sl_phase s = PhExternalize")
    case ext: True
    with assms True that(2) [of s] show ?thesis by (auto simp: store_msg_def)
  next
    case False
    obtain c s1 where c: "all_valid s (sorted_list_of_set (msg_values m)) = (c, s1)"
      by (cases "all_valid s (sorted_list_of_set (msg_values m))")
    note v = all_valid_step [OF c]
    have "sl_M s1 = sl_M s" using v by (auto simp: cache_step_def)
    with assms True False c v that show ?thesis by (cases c) (auto simp: store_msg_def)
  qed
qed

definition store_ok :: "('id, 'v::linorder, 'e) slot \<Rightarrow> ('id, 'v) msg list \<Rightarrow> bool" where
  "store_ok s recv \<longleftrightarrow> cache_ok s \<and> M_inv s recv \<and> M_values_ok s"

lemma store_ok_cache_step: "cache_step s t \<Longrightarrow> store_ok s recv \<Longrightarrow> store_ok t recv"
  by (auto simp: cache_step_def store_ok_def M_inv_def M_values_ok_def)

lemma store_ok_update:
  assumes "store_ok s recv" and "stored_ok (sl_node_id s) (sl_index s) recv (sender_id m) m"
    and "sl_phase s \<noteq> PhExternalize \<Longrightarrow> \<forall>v \<in> msg_values m. sl_validity_fn s v = Inr ()"
  shows "store_ok (s\<lparr>sl_M := AList.update (sender_id m) m (sl_M s)\<rparr>) recv"
  using assms
  by (auto simp: store_ok_def cache_ok_def M_inv_def M_values_ok_def distinct_update update_conv'
      split: if_split_asm)

lemma store_msg_step:
  assumes "store_msg s m = (b, t)" and "store_ok s recv"
    and "sender_id m \<noteq> sl_node_id s" and "msg_slot_index m = sl_index s" and "m \<in> set recv"
  shows "store_step s t \<and> store_ok t recv"
  using assms(1)
proof (cases rule: store_msgE)
  case 1
  with assms(2) show ?thesis by (auto intro: cache_step_store store_ok_cache_step)
next
  case (2 s1)
  then obtain V where s1: "s1 = s\<lparr>sl_valid_values := V\<rparr>" by (auto simp: cache_step_def)
  have "store_ok s1 recv" using 2(2) assms(2) by (rule store_ok_cache_step)
  from store_ok_update [OF this, of m] 2 s1 assms(2-5) have "store_ok t recv"
    by (simp add: stored_ok_def store_ok_def)
  with 2 s1 show ?thesis by (auto simp: store_step_def)
qed

lemma store_msgs_step:
  assumes "store_msgs s ms = (b, t)" and "store_ok s recv"
    and "\<forall>m \<in> set ms. sender_id m \<noteq> sl_node_id s \<and> msg_slot_index m = sl_index s \<and> m \<in> set recv"
  shows "store_step s t \<and> store_ok t recv"
  using assms
proof (induction ms arbitrary: s b)
  case (Cons m ms)
  obtain b1 s1 where 1: "store_msg s m = (b1, s1)" by (cases "store_msg s m")
  obtain b2 where 2: "store_msgs s1 ms = (b2, t)"
    using Cons.prems(1) 1 by (auto split: prod.splits)
  have step: "store_step s s1" "store_ok s1 recv"
    using store_msg_step [OF 1 Cons.prems(2)] Cons.prems(3) by auto
  moreover have "sl_node_id s1 = sl_node_id s" "sl_index s1 = sl_index s"
    using step(1) by (auto simp: store_step_def)
  ultimately show ?case using Cons.IH [OF 2] Cons.prems(3) by (auto intro: store_step_trans)
qed simp

lemma msgs_for_slot_set:
  "set (msgs_for_slot s msgs) =
   {m \<in> set msgs. sender_id m \<noteq> sl_node_id s \<and> msg_slot_index m = sl_index s}"
  by (auto simp: msgs_for_slot_def)


subsection \<open>The nomination sets\<close>

definition nom_inv :: "('id, 'v, 'e) slot \<Rightarrow> bool" where
  "nom_inv s \<longleftrightarrow> sl_X s \<inter> sl_Y s = {} \<and> sl_Z s \<subseteq> sl_Y s \<and>
     finite (sl_W s) \<and> finite (sl_X s) \<and> finite (sl_Y s) \<and> finite (sl_Z s)"

lemma finite_accepted_nominated_candidates: "finite (accepted_nominated_candidates s)"
  by (auto simp: accepted_nominated_candidates_def accepts_nominated_def split: option.splits topic.splits)

lemma accepted_nominated_source:
  assumes "additional_values_accepted_nominated s = Some A"
  shows "A \<subseteq> accepted_nominated_candidates s \<union> sl_X s"
  using additional_values_accepted_nominatedE [OF assms] by blast

lemma finite_leader_values: "finite (sl_W s) \<Longrightarrow> finite (leader_values s)"
  by (auto simp: leader_values_def split: topic.splits)

lemma vote_nominate_X:
  assumes "vote_nominate s = Some t"
  shows "sl_X t = sl_X s \<or> sl_X t = sl_X s \<union> (leader_values s - sl_Y s)"
  using assms by (auto simp: vote_nominate_def Let_def elim!: run_elims split: if_split_asm)

lemma update_YZ_sets:
  assumes "update_YZ s = Some t"
  obtains A C where "additional_values_accepted_nominated s = Some A" "C \<subseteq> sl_Y t"
    "sl_X t = sl_X s - A" "sl_Y t = sl_Y s \<union> A" "sl_Z t = sl_Z s \<union> C"
proof -
  from assms obtain A C where A: "additional_values_accepted_nominated s = Some A"
    and C: "additional_values_confirmed_nominated (s\<lparr>sl_X := sl_X s - A, sl_Y := sl_Y s \<union> A\<rparr>) = Some C"
    and t: "t = s\<lparr>sl_X := sl_X s - A, sl_Y := sl_Y s \<union> A, sl_Z := sl_Z s \<union> C\<rparr>"
    by (auto simp: update_YZ_def Let_def elim!: run_elims)
  from additional_values_confirmed_nominated_backed(1) [OF C] t A show thesis
    by (intro that [of A C]) auto
qed

lemma nom_inv_vote: "nom_inv s \<Longrightarrow> vote_nominate s = Some t \<Longrightarrow> nom_inv t"
  using vote_nominate_X [of s t] vote_nominate_frame [of s t] finite_leader_values [of s]
  by (auto simp: nom_inv_def same_inputs_def)

lemma nom_inv_update:
  assumes "nom_inv s" and "update_YZ s = Some t"
  shows "nom_inv t"
  using assms(2)
proof (cases rule: update_YZ_sets)
  case (1 A C)
  have "finite A"
    using finite_subset [OF accepted_nominated_source [OF 1(1)]] assms(1)
      finite_accepted_nominated_candidates [of s]
    by (simp add: nom_inv_def)
  moreover from this have "finite C"
    using 1 assms(1) finite_subset [OF 1(2)] by (simp add: nom_inv_def)
  ultimately show ?thesis
    using assms(1) 1 update_YZ_frame(1) [OF assms(2)] by (auto simp: nom_inv_def same_inputs_def)
qed

lemma nom_inv_same: "nom_inv s \<Longrightarrow> same_nomination s t \<Longrightarrow> sl_W t = sl_W s \<Longrightarrow> nom_inv t"
  by (simp add: nom_inv_def same_nomination_def)

lemma nom_inv_nominate:
  assumes "nom_inv s" and "do_nominate_phase a s = Some t"
  shows "nom_inv t"
  using assms(2)
proof (cases rule: do_nominate_phaseE)
  case (1 s1 s2)
  have "nom_inv (schedule_next_nomination_round a s)"
    using assms(1) by (simp add: schedule_next_nomination_round_def nom_inv_def)
  then have "nom_inv s2" using 1 by (blast intro: nom_inv_vote nom_inv_update)
  then show ?thesis
    using start_ballot_frame(1,3) [where s = s2 and a = a] 1(4)
    by (auto intro: nom_inv_same simp: same_inputs_def)
qed

subsection \<open>The invariant of a slot\<close>

definition slot_inv :: "('id, 'v::linorder, 'e) slot \<Rightarrow> ('id, 'v) msg list \<Rightarrow> bool" where
  "slot_inv s recv \<longleftrightarrow> store_ok s recv \<and> nom_inv s \<and> round_timer_ok s \<and> phase_inv s"

definition same_identity :: "('id, 'v, 'e) slot \<Rightarrow> ('id, 'v, 'e) slot \<Rightarrow> bool" where
  "same_identity s t \<longleftrightarrow>
     sl_index t = sl_index s \<and> sl_node_id t = sl_node_id s \<and> sl_quorum_set t = sl_quorum_set s \<and>
     sl_validity_fn t = sl_validity_fn s \<and> sl_combine_fn t = sl_combine_fn s"

lemma store_ok_M_valid: "store_ok s recv \<Longrightarrow> M_valid s"
  by (auto simp: store_ok_def M_inv_def stored_ok_def msgs_ok_def)

lemma store_ok_inputs:
  assumes "store_ok s recv" and "same_inputs s t" and "phase_rank (sl_phase s) \<le> phase_rank (sl_phase t)"
  shows "store_ok t recv"
proof -
  have "sl_phase t \<noteq> PhExternalize \<Longrightarrow> sl_phase s \<noteq> PhExternalize"
    using assms(3) by (cases "sl_phase t"; cases "sl_phase s") auto
  with assms(1,2) show ?thesis
    by (simp add: store_ok_def cache_ok_def M_inv_def M_values_ok_def same_inputs_def)
qed

text \<open>One call, as far as the invariant and the externalized value are concerned.\<close>

definition good_step ::
  "('id, 'v::linorder) msg list \<Rightarrow> ('id, 'v, 'e) slot \<Rightarrow> ('id, 'v, 'e) slot \<Rightarrow> bool" where
  "good_step recv s t \<longleftrightarrow>
     slot_inv t recv \<and> same_identity s t \<and> value_fixed s t \<and>
     sl_last_sent_msg t = sl_last_sent_msg s \<and>
     (sl_phase s \<noteq> PhExternalize \<longrightarrow> sl_phase t = PhExternalize \<longrightarrow> externalize_cert t)"

lemma good_step_protocol:
  assumes "do_ballot_protocol a s = Some t" and "store_ok s recv" and "nom_inv s"
    and "round_timer_ok s" and "commit_range_ok s"
  shows "good_step recv s t"
proof -
  note b = do_ballot_protocol_step [OF assms(1) store_ok_M_valid [OF assms(2)] assms(5)]
  have "store_ok t recv" using assms(2) b(1) by (auto intro: store_ok_inputs simp: ballot_step_def)
  moreover have "nom_inv t"
    using assms(3) b(1) by (auto intro: nom_inv_same simp: ballot_step_def same_inputs_def)
  ultimately show ?thesis using b assms(4)
    by (auto simp: good_step_def slot_inv_def ballot_step_def same_identity_def same_inputs_def)
qed


lemma good_step_pre:
  assumes "same_identity s s1" and "value_fixed s s1" and "sl_phase s1 = sl_phase s"
    and "sl_last_sent_msg s1 = sl_last_sent_msg s" and "good_step recv s1 t"
  shows "good_step recv s t"
  using assms by (auto simp: good_step_def same_identity_def intro: value_fixed_trans)

lemma last_sent_frame [frame_simps]:
  "store_ok (t\<lparr>sl_last_sent_msg := l\<rparr>) recv \<longleftrightarrow> store_ok t recv"
  "nom_inv (t\<lparr>sl_last_sent_msg := l\<rparr>) \<longleftrightarrow> nom_inv t"
  "round_timer_ok (t\<lparr>sl_last_sent_msg := l\<rparr>) \<longleftrightarrow> round_timer_ok t"
  "phase_inv (t\<lparr>sl_last_sent_msg := l\<rparr>) \<longleftrightarrow> phase_inv t"
  "same_identity s (t\<lparr>sl_last_sent_msg := l\<rparr>) \<longleftrightarrow> same_identity s t"
  "value_fixed s (t\<lparr>sl_last_sent_msg := l\<rparr>) \<longleftrightarrow> value_fixed s t"
  "externalize_cert (t\<lparr>sl_last_sent_msg := l\<rparr>) \<longleftrightarrow> externalize_cert t"
  by (simp_all add: store_ok_def cache_ok_def M_inv_def M_values_ok_def nom_inv_def
      round_timer_ok_def phase_inv_def commit_range_ok_def prepare_phase_invariants_def
      commit_phase_invariants_def externalize_phase_invariants_def same_identity_def value_fixed_def
      committed_def externalize_cert_def quorum_backs_def cong: option.case_cong)

lemma prepare_phase_invariants_same:
  "same_ballots s t \<Longrightarrow> prepare_phase_invariants t \<longleftrightarrow> prepare_phase_invariants s"
  by (auto simp: same_ballots_def prepare_phase_invariants_def split: option.splits)

lemma good_step_refl: "slot_inv s recv \<Longrightarrow> good_step recv s s"
  by (simp add: good_step_def same_identity_def)

lemma good_step_trans:
  assumes "good_step recv s t" and "good_step recv t u" and "sl_phase t = PhExternalize \<Longrightarrow> sl_phase s = PhExternalize"
  shows "good_step recv s u"
  using assms by (auto simp: good_step_def same_identity_def intro: value_fixed_trans)

text \<open>A nomination round: the slot keeps its phase.\<close>

lemma nominate_inv:
  assumes "do_nominate_phase a s = Some t" and "store_ok s recv" and "nom_inv s" and "commit_range_ok s"
  shows "store_ok t recv" "nom_inv t" "round_timer_ok t" "commit_range_ok t"
    "same_identity s t" "value_fixed s t" "sl_phase t = sl_phase s"
    "sl_last_sent_msg t = sl_last_sent_msg s" "prepare_phase_invariants s \<Longrightarrow> phase_inv t"
proof -
  note f = do_nominate_phase_frame [OF assms(1)]
  show ph: "sl_phase t = sl_phase s" using f(2) by (simp add: same_ballots_def)
  show "store_ok t recv" using assms(2) f(1) ph by (auto intro: store_ok_inputs)
  show "nom_inv t" using assms(3,1) by (rule nom_inv_nominate)
  show "round_timer_ok t" using ph f(3) by (simp add: round_timer_ok_def)
  show c: "commit_range_ok t" using assms(4) f(2) by (simp add: commit_range_ok_def same_ballots_def)
  show "same_identity s t" using f(1) by (simp add: same_identity_def same_inputs_def)
  show "value_fixed s t" using ph f(3) by (simp add: value_fixed_def committed_def)
  show "sl_last_sent_msg t = sl_last_sent_msg s" using f(1) by (simp add: same_inputs_def)
  show "phase_inv t" if "prepare_phase_invariants s"
    using that f(2) c prepare_phase_invariants_same by (auto simp: phase_inv_def)
qed

lemma nominate_then_protocol:
  assumes "do_nominate_phase a s = Some s1" and "do_ballot_protocol a s1 = Some t"
    and "store_ok s recv" and "nom_inv s" and "commit_range_ok s"
  shows "good_step recv s t"
proof -
  note n = nominate_inv [OF assms(1,3-5)]
  show ?thesis
    by (rule good_step_pre [OF n(5-8)]) (rule good_step_protocol [OF assms(2) n(1-4)])
qed

subsection \<open>The messages a slot sends\<close>

text \<open>
  A message speaks for the state \<open>s\<close>: it carries the identity of the slot, is structurally
  valid, and when it accepts a value as committed, that is the value of the ballot of a
  slot in the commit or externalize phase.
\<close>

definition speaks_for :: "('id, 'v::linorder, 'e) slot \<Rightarrow> ('id, 'v) msg \<Rightarrow> bool" where
  "speaks_for s m \<longleftrightarrow>
     sender_id m = sl_node_id s \<and> msg_quorum_set m = sl_quorum_set s \<and> msg_slot_index m = sl_index s \<and>
     msg_valid m \<and>
     (\<forall>v. accept_commit_range m v \<noteq> None \<longrightarrow> committed s \<and> b_X (sl_B s) = v)"

lemma out_topic_committed:
  assumes "out_topic s = Some (Some t)" and "phase_inv s" and "m = msg_new n q i t"
    and "accept_commit_range m v \<noteq> None"
  shows "committed s \<and> b_X (sl_B s) = v"
  using assms
  by (cases "sl_phase s")
     (auto simp: out_topic_def accept_commit_range_def msg_new_def committed_def phase_inv_def
       prepare_phase_invariants_def commit_phase_invariants_def externalize_phase_invariants_def
       elim!: run_elims split: if_split_asm option.split_asm)

lemma out_topic_phase:
  assumes "out_topic s = Some (Some t)"
  shows "sl_phase s = PhExternalize \<longleftrightarrow> (\<exists>p. t = Externalize p)"
  using assms
  by (cases "sl_phase s") (auto simp: out_topic_def elim!: run_elims split: if_split_asm option.split_asm)

lemma out_msgE:
  assumes "out_msg s = Some (mo, t)"
  obtains "mo = None" "t = s"
  | m where "mo = Some m" "t = s\<lparr>sl_last_sent_msg := Some m\<rparr>" "msg_valid m" "out_topic s = Some (Some (topic m))"
      "m = msg_new (sl_node_id s) (sl_quorum_set s) (sl_index s) (topic m)"
      "\<And>l. sl_last_sent_msg s = Some l \<Longrightarrow> \<not> msg_eq m l"
proof -
  from assms obtain topic_opt where topic_opt: "out_topic s = Some topic_opt"
    and r: "(case topic_opt of None \<Rightarrow> Some (None, s)
      | Some t \<Rightarrow> do {
         let m = msg_new (sl_node_id s) (sl_quorum_set s) (sl_index s) t;
         rust_assert (validate m = Inr ());
         Some (case sl_last_sent_msg s of
                 Some last_msg \<Rightarrow>
                   if \<not> msg_eq m last_msg then (Some m, s\<lparr>sl_last_sent_msg := Some m\<rparr>) else (None, s)
               | None \<Rightarrow> (Some m, s\<lparr>sl_last_sent_msg := Some m\<rparr>)) }) = Some (mo, t)"
    by (auto simp: out_msg_def elim!: run_elims)
  show ?thesis
  proof (cases mo)
    case None
    with r show ?thesis
      by (intro that(1)) (auto simp: Let_def elim!: run_elims split: option.split_asm if_split_asm)
  next
    case (Some m)
    with r obtain u where u: "topic_opt = Some u" "msg_valid m"
      and m: "m = msg_new (sl_node_id s) (sl_quorum_set s) (sl_index s) u"
      and t: "t = s\<lparr>sl_last_sent_msg := Some m\<rparr>" "\<And>l. sl_last_sent_msg s = Some l \<Longrightarrow> \<not> msg_eq m l"
      by (auto simp: Let_def elim!: run_elims split: option.split_asm if_split_asm)
    from m have "topic m = u" by (simp add: msg_new_def)
    with u m t topic_opt Some show ?thesis by (intro that(2)) auto
  qed
qed

subsection \<open>Every call keeps the invariant\<close>

text \<open>A call ends by sending: the state and the message it speaks for.\<close>

definition call_ok ::
  "('id::linorder, 'v::linorder) msg list \<Rightarrow> ('id, 'v, 'e) slot \<Rightarrow> ('id, 'v) msg list \<Rightarrow> ('id, 'v, 'e) slot \<Rightarrow> bool" where
  "call_ok recv s out t \<longleftrightarrow>
     (\<exists>s1. good_step recv s s1 \<and>
        (out = [] \<and> t = s1 \<or>
         (\<exists>mo. out_msg s1 = Some (mo, t) \<and> out = (case mo of Some m \<Rightarrow> [m] | None \<Rightarrow> []))))"

lemma speaks_for_last_sent [frame_simps]:
  "speaks_for (t\<lparr>sl_last_sent_msg := l\<rparr>) m \<longleftrightarrow> speaks_for t m"
  by (simp add: speaks_for_def committed_def)

lemma call_ok_out_msg:
  "good_step recv s t \<Longrightarrow> out_msg t = Some (mo, u) \<Longrightarrow>
   call_ok recv s (case mo of Some m \<Rightarrow> [m] | None \<Rightarrow> []) u"
  unfolding call_ok_def by blast

lemma call_okE:
  assumes "call_ok recv s out t"
  obtains "out = []" "good_step recv s t"
  | m where "out = [m]" "good_step recv s (t\<lparr>sl_last_sent_msg := sl_last_sent_msg s\<rparr>)"
      "sl_last_sent_msg t = Some m" "speaks_for t m"
      "sl_phase t = PhExternalize \<longleftrightarrow> (\<exists>p. topic m = Externalize p)"
      "\<And>l. sl_last_sent_msg s = Some l \<Longrightarrow> \<not> msg_eq m l"
proof -
  from assms obtain s1 where g: "good_step recv s s1"
    and o: "out = [] \<and> t = s1 \<or> (\<exists>mo. out_msg s1 = Some (mo, t) \<and> out = (case mo of Some m \<Rightarrow> [m] | None \<Rightarrow> []))"
    unfolding call_ok_def by blast
  have s1: "s1\<lparr>sl_last_sent_msg := sl_last_sent_msg s\<rparr> = s1" and ph: "phase_inv s1"
    using g by (auto simp: good_step_def slot_inv_def)
  from o consider "out = []" "t = s1" | mo where "out_msg s1 = Some (mo, t)" "out = (case mo of Some m \<Rightarrow> [m] | None \<Rightarrow> [])"
    by blast
  then show ?thesis
  proof cases
    case 1
    with g that(1) show ?thesis by simp
  next
    case (2 mo)
    from 2(1) show ?thesis
    proof (cases rule: out_msgE)
      case 1
      with 2 g that(1) show ?thesis by simp
    next
      case m: (2 m)
      have "sender_id m = sl_node_id s1" "msg_quorum_set m = sl_quorum_set s1" "msg_slot_index m = sl_index s1"
        by (subst m(5), simp add: msg_new_def)+
      then have "speaks_for s1 m"
        using out_topic_committed [OF m(4) ph m(5)] m(3) by (simp add: speaks_for_def)
      moreover have "t\<lparr>sl_last_sent_msg := sl_last_sent_msg s\<rparr> = s1" using m(2) s1 by simp
      moreover have "\<And>l. sl_last_sent_msg s = Some l \<Longrightarrow> \<not> msg_eq m l"
        using m(6) g by (simp add: good_step_def)
      ultimately show ?thesis
        using m(1,2) 2(2) g out_topic_phase [OF m(4)] by (intro that(2)) (auto simp: frame_simps)
    qed
  qed
qed

lemma call_ok_step:
  assumes "call_ok recv s out t"
  shows "slot_inv t recv" "same_identity s t" "value_fixed s t" "\<forall>m \<in> set out. speaks_for t m"
    "sl_phase s \<noteq> PhExternalize \<Longrightarrow> sl_phase t = PhExternalize \<Longrightarrow> externalize_cert t"
  using assms
  by (atomize (full), cases rule: call_okE) (auto simp: good_step_def slot_inv_def frame_simps)

lemma slot_inv_mono: "store_ok s recv \<Longrightarrow> store_ok s (recv @ recv')"
  by (auto simp: store_ok_def M_inv_def stored_ok_def)

lemma phase_inv_range: "phase_inv s \<Longrightarrow> commit_range_ok s"
  by (simp add: phase_inv_def)

lemma phase_inv_cong:
  "same_ballots s t \<Longrightarrow> sl_B t = sl_B s \<Longrightarrow> phase_inv t \<longleftrightarrow> phase_inv s"
  by (simp add: phase_inv_def same_ballots_def commit_range_ok_def prepare_phase_invariants_def
      commit_phase_invariants_def externalize_phase_invariants_def cong: option.case_cong)

lemma store_ok_W [frame_simps]: "store_ok (s\<lparr>sl_W := W\<rparr>) recv \<longleftrightarrow> store_ok s recv"
  by (simp add: store_ok_def cache_ok_def M_inv_def M_values_ok_def)

lemma propose_values_ok:
  assumes "propose_values a s vals = Some (mo, t)" and "slot_inv s recv" and "finite vals"
  shows "call_ok recv s (case mo of Some m \<Rightarrow> [m] | None \<Rightarrow> []) t"
proof (cases "sl_phase s = PhNominatePrepare \<and> Set.is_empty (sl_Z s)")
  case False
  with assms(1) have "out_msg s = Some (mo, t)" by (auto simp: propose_values_def)
  with good_step_refl [OF assms(2)] show ?thesis by (rule call_ok_out_msg)
next
  case True
  obtain ws s1 where f: "filter_valid s (sorted_list_of_set vals) = (ws, s1)"
    by (cases "filter_valid s (sorted_list_of_set vals)")
  have c: "cache_step s s1" using filter_valid_step [OF f] by simp
  then obtain V where s1: "s1 = s\<lparr>sl_valid_values := V\<rparr>" by (auto simp: cache_step_def)
  have inv: "store_ok s recv" "nom_inv s" "round_timer_ok s" "phase_inv s"
    using assms(2) by (auto simp: slot_inv_def)
  have st: "store_ok s1 recv" using c inv(1) by (rule store_ok_cache_step)
  show ?thesis
  proof (cases "ws = []")
    case True
    with assms(1) \<open>sl_phase s = PhNominatePrepare \<and> Set.is_empty (sl_Z s)\<close> f
    have t: "mo = None" "t = s1" by (auto simp: propose_values_def)
    have "slot_inv s1 recv"
      using st inv phase_inv_cong [of s s1] s1
      by (simp add: slot_inv_def nom_inv_def round_timer_ok_def same_ballots_def)
    then show ?thesis
      using t s1 by (auto simp: call_ok_def good_step_def same_identity_def value_fixed_def)
  next
    case False
    let ?s2 = "s1\<lparr>sl_W := sl_W s1 \<union> set ws\<rparr>"
    from assms(1) True f False obtain s3 s4 where n: "do_nominate_phase a ?s2 = Some s3"
      "do_ballot_protocol a s3 = Some s4" and o: "out_msg s4 = Some (mo, t)"
      by (auto simp: propose_values_def elim!: run_elims)
    have "good_step recv ?s2 s4"
    proof (rule nominate_then_protocol [OF n])
      show "store_ok ?s2 recv" using st by (simp add: frame_simps)
      show "nom_inv ?s2" using inv(2) s1 by (simp add: nom_inv_def)
      show "commit_range_ok ?s2" using phase_inv_range [OF inv(4)] s1 by (simp add: commit_range_ok_def)
    qed
    then have "good_step recv s s4"
      by (rule good_step_pre [rotated 4]) (simp_all add: s1 same_identity_def value_fixed_def)
    then show ?thesis using o by (rule call_ok_out_msg)
  qed
qed

lemma handle_messages_ok:
  assumes "handle_messages a s msgs = Some (mo, t)" and "slot_inv s recv"
  shows "call_ok (recv @ msgs) s (case mo of Some m \<Rightarrow> [m] | None \<Rightarrow> []) t"
proof -
  obtain b s1 where st: "store_msgs s (msgs_for_slot s msgs) = (b, s1)"
    by (cases "store_msgs s (msgs_for_slot s msgs)")
  have inv: "store_ok s recv" "nom_inv s" "round_timer_ok s" "phase_inv s"
    using assms(2) by (auto simp: slot_inv_def)
  have s1: "store_step s s1" "store_ok s1 (recv @ msgs)"
    using store_msgs_step [OF st slot_inv_mono [OF inv(1)]] by (auto simp: msgs_for_slot_set)
  then have same: "same_ballots s s1" "sl_B s1 = sl_B s" "nom_inv s1" "round_timer_ok s1"
    "same_identity s s1" "value_fixed s s1" "sl_phase s1 = sl_phase s"
    "sl_last_sent_msg s1 = sl_last_sent_msg s"
    using inv by (auto simp: store_step_def same_ballots_def nom_inv_def round_timer_ok_def
        same_identity_def value_fixed_def)
  have ph: "phase_inv s1" using inv(4) phase_inv_cong [OF same(1,2)] by simp
  show ?thesis
  proof (cases b)
    case False
    with assms(1) st have "mo = None" "t = s1" by (auto simp: handle_messages_def)
    with s1(2) same ph show ?thesis by (auto simp: call_ok_def good_step_def slot_inv_def)
  next
    case True
    with assms(1) st obtain s2 s3
      where n: "(if sl_phase s1 = PhNominatePrepare then do_nominate_phase a s1 else Some s1) = Some s2"
        and p: "do_ballot_protocol a s2 = Some s3" and o: "out_msg s3 = Some (mo, t)"
      by (auto simp: handle_messages_def elim!: run_elims)
    have "good_step (recv @ msgs) s1 s3"
    proof (cases "sl_phase s1 = PhNominatePrepare")
      case True
      with n p show ?thesis
        using nominate_then_protocol [OF _ p s1(2) same(3) phase_inv_range [OF ph]] by simp
    next
      case False
      with n p show ?thesis
        using good_step_protocol [OF _ s1(2) same(3,4) phase_inv_range [OF ph]] by simp
    qed
    then have "good_step (recv @ msgs) s s3" by (rule good_step_pre [OF same(5-8)])
    then show ?thesis using o by (rule call_ok_out_msg)
  qed
qed


lemma nomination_timeout_ok:
  assumes "nomination_timeout a s = Some (b, t)" and "slot_inv s recv"
  shows "good_step recv s t" and "sl_phase t = sl_phase s"
proof -
  have inv: "store_ok s recv" "nom_inv s" "round_timer_ok s" "phase_inv s"
    using assms(2) by (auto simp: slot_inv_def)
  have "good_step recv s t \<and> sl_phase t = sl_phase s"
  proof (cases "case sl_next_nominate_round_at s of Some t \<Rightarrow> now a > t | None \<Rightarrow> False")
    case False
    with assms show ?thesis by (auto simp: nomination_timeout_def intro: good_step_refl)
  next
    case True
    with assms(1) obtain r peers
      where n: "do_nominate_phase a ((cancel_next_nomination_round s)
          \<lparr>sl_nominate_round := r, sl_max_priority_peers := peers\<rparr>) = Some t"
      by (auto simp: nomination_timeout_def Let_def elim!: run_elims)
    let ?s0 = "(cancel_next_nomination_round s)\<lparr>sl_nominate_round := r, sl_max_priority_peers := peers\<rparr>"
    have s0: "store_ok ?s0 recv" "nom_inv ?s0" "commit_range_ok ?s0" "same_ballots s ?s0"
      "same_identity s ?s0" "value_fixed s ?s0" "sl_phase ?s0 = sl_phase s"
      "sl_last_sent_msg ?s0 = sl_last_sent_msg s"
      using inv phase_inv_range [OF inv(4)]
      by (simp_all add: cancel_next_nomination_round_def store_ok_def cache_ok_def M_inv_def M_values_ok_def
          nom_inv_def commit_range_ok_def same_ballots_def same_identity_def value_fixed_def)
    note m = nominate_inv [OF n s0(1-3)]
    have "prepare_phase_invariants ?s0"
      using inv(4) do_nominate_phase_frame(3) [OF n] prepare_phase_invariants_same [OF s0(4)] s0(7)
      by (auto simp: phase_inv_def commit_phase_invariants_def externalize_phase_invariants_def)
    with m have "good_step recv ?s0 t"
      using do_nominate_phase_frame(3) [OF n] by (simp add: good_step_def slot_inv_def)
    with good_step_pre [OF s0(5-8)] m(7) s0(7) show ?thesis by simp
  qed
  then show "good_step recv s t" and "sl_phase t = sl_phase s" by auto
qed

lemma next_ballot_frame:
  assumes "next_ballot a s = Some t"
  shows "\<exists>B. t = s\<lparr>sl_B := B\<rparr> \<and> (committed s \<longrightarrow> b_X B = b_X (sl_B s))"
proof -
  have "t = s\<lparr>sl_B := sl_B t\<rparr> \<and> (committed s \<longrightarrow> b_X (sl_B t) = b_X (sl_B s))"
    using assms
    by (auto simp: next_ballot_def set_B_N_def committed_def Let_def
        elim!: run_elims split: phase.split_asm option.split_asm)
  then show ?thesis by blast
qed

lemma ballot_timeout_ok:
  assumes "ballot_timeout a s = Some (b, t)" and "slot_inv s recv"
  shows "good_step recv s t"
proof (cases "case sl_next_ballot_at s of Some t \<Rightarrow> now a > t | None \<Rightarrow> False")
  case False
  with assms show ?thesis by (auto simp: ballot_timeout_def intro: good_step_refl)
next
  case True
  have inv: "store_ok s recv" "nom_inv s" "round_timer_ok s" "phase_inv s"
    using assms(2) by (auto simp: slot_inv_def)
  from assms(1) True obtain s1 where p: "do_ballot_protocol a s1 = Some t"
    and n: "next_ballot a (cancel_next_ballot_timer s) = Some s1"
    by (auto simp: ballot_timeout_def elim!: run_elims)
  obtain B where s1: "s1 = s\<lparr>sl_next_ballot_at := None, sl_B := B\<rparr>" "committed s \<longrightarrow> b_X B = b_X (sl_B s)"
    using next_ballot_frame [OF n] by (auto simp: cancel_next_ballot_timer_def committed_def)
  have "store_ok s1 recv" "nom_inv s1" "round_timer_ok s1" "commit_range_ok s1"
    using inv phase_inv_range [OF inv(4)] s1(1)
    by (simp_all add: store_ok_def cache_ok_def M_inv_def M_values_ok_def
        nom_inv_def commit_range_ok_def round_timer_ok_def)
  from good_step_protocol [OF p this] show ?thesis
    by (rule good_step_pre [rotated 4])
       (use s1 in \<open>simp_all add: same_identity_def value_fixed_def\<close>)
qed

lemma process_timeouts_ok:
  assumes "process_timeouts a s = Some (out, t)" and "slot_inv s recv"
  shows "call_ok recv s out t"
proof -
  from assms(1) obtain b1 s1 b2 s2 where 1: "nomination_timeout a s = Some (b1, s1)"
    and 2: "ballot_timeout a s1 = Some (b2, s2)"
    and o: "out = [] \<and> t = s2 \<or> (\<exists>mo. out_msg s2 = Some (mo, t) \<and> out = (case mo of Some m \<Rightarrow> [m] | None \<Rightarrow> []))"
    by (auto simp: process_timeouts_def elim!: run_elims split: if_split_asm)
  note n = nomination_timeout_ok [OF 1 assms(2)]
  have "slot_inv s1 recv" using n(1) by (simp add: good_step_def)
  from ballot_timeout_ok [OF 2 this] have "good_step recv s s2"
    using n by (auto intro: good_step_trans)
  then show ?thesis using o call_ok_out_msg [of recv s s2 _ t] by (auto simp: call_ok_def)
qed

lemma slot_step_ok:
  assumes "slot_step a s e = Some (out, t)" and "slot_inv s recv" and "event_ok e"
  shows "call_ok (recv @ delivered e) s out t"
proof (cases e)
  case (Propose vals)
  with assms propose_values_ok [of a s vals _ t recv] show ?thesis by (auto elim!: run_elims)
next
  case (Deliver msgs)
  with assms handle_messages_ok [of a s msgs _ t recv] show ?thesis by (auto elim!: run_elims)
next
  case Timeouts
  with assms process_timeouts_ok [of a s out t recv] show ?thesis by simp
qed

end
