(* ===== verification/Scp_Agreement.thy ===== *)
theory Scp_Agreement
  imports Scp_Slot_Run
begin

section \<open>Runs of several nodes: stability and agreement\<close>

text \<open>
  What holds along a run of one slot (its identity, its invariant, what the messages it sent
  say, the certificate behind an externalized value), and the agreement of two correct nodes
  that both externalize. Faulty nodes are not modelled by code: a message whose sender is
  faulty can be anything. What is assumed is that messages of correct nodes are not forged
  and that the quorums of correct nodes intersect in a correct node.
\<close>

subsection \<open>One run\<close>

text \<open>
  A quorum of the node, by the quorum sets declared in messages it received, that accepts the
  value as committed.
\<close>

definition commit_cert ::
  "'id \<Rightarrow> 'id quorum_set \<Rightarrow> ('id, 'v) msg list \<Rightarrow> 'v list \<Rightarrow> 'id set \<Rightarrow> bool" where
  "commit_cert node_id quorum_set recv v Q \<longleftrightarrow>
     node_id \<in> Q \<and> sat Q quorum_set \<and>
     (\<forall>n \<in> Q - {node_id}. \<exists>m \<in> set recv.
        sender_id m = n \<and> sat Q (msg_quorum_set m) \<and> accept_commit_range m v \<noteq> None)"

lemma commit_cert_mono: "commit_cert n q recv v Q \<Longrightarrow> commit_cert n q (recv @ recv') v Q"
  by (fastforce simp: commit_cert_def)

lemma externalize_cert_commit_cert:
  assumes "externalize_cert s" and "store_ok s recv"
  shows "\<exists>Q. commit_cert (sl_node_id s) (sl_quorum_set s) recv (b_X (sl_B s)) Q"
proof -
  from assms(1) obtain k Q where Q: "quorum_of (sl_M s) (sl_node_id s) (sl_quorum_set s) Q"
    and acc: "\<forall>n \<in> Q - {sl_node_id s}. \<forall>m. map_of (sl_M s) n = Some m \<longrightarrow>
      in_range (accept_commit_range m (b_X (sl_B s))) k"
    by (auto simp: externalize_cert_def quorum_backs_def supports_commit_def)
  have "\<exists>m \<in> set recv. sender_id m = n \<and> sat Q (msg_quorum_set m) \<and>
      accept_commit_range m (b_X (sl_B s)) \<noteq> None" if n: "n \<in> Q - {sl_node_id s}" for n
  proof -
    from Q n obtain m where m: "map_of (sl_M s) n = Some m" "sat Q (msg_quorum_set m)"
      by (auto simp: quorum_of_def)
    moreover have "sender_id m = n" "m \<in> set recv"
      using assms(2) m(1) by (auto simp: store_ok_def M_inv_def stored_ok_def)
    moreover have "accept_commit_range m (b_X (sl_B s)) \<noteq> None"
      using acc n m(1) by (auto simp: in_range_def split: option.splits)
    ultimately show ?thesis by blast
  qed
  then have "commit_cert (sl_node_id s) (sl_quorum_set s) recv (b_X (sl_B s)) Q"
    using Q by (simp add: commit_cert_def quorum_of_def)
  then show ?thesis ..
qed

text \<open>A message that speaks for a state speaks for every later one.\<close>

lemma speaks_for_step:
  "speaks_for s m \<Longrightarrow> same_identity s t \<Longrightarrow> value_fixed s t \<Longrightarrow> speaks_for t m"
  unfolding speaks_for_def same_identity_def value_fixed_def committed_rank
  by (metis order.trans)

lemma slot_new_fields:
  assumes "slot_new a n q i f g = Some s"
  obtains P where "s = (slot_init n q i f g)\<lparr>sl_max_priority_peers := P\<rparr>"
  using assms by (auto simp: slot_new_def Let_def elim!: run_elims)

lemma slot_new_inv:
  assumes "slot_new a n q i f g = Some s"
  shows "slot_inv s []"
  using assms
proof (cases rule: slot_new_fields)
  case (1 P)
  then show ?thesis
    by (simp add: slot_inv_def store_ok_def cache_ok_def M_inv_def M_values_ok_def nom_inv_def
        round_timer_ok_def phase_inv_def commit_range_ok_def prepare_phase_invariants_def slot_init_def)
qed

text \<open>What a run establishes.\<close>

definition run_inv ::
  "'id \<Rightarrow> 'id quorum_set \<Rightarrow> u64 \<Rightarrow> ('v::linorder \<Rightarrow> 'e + unit) \<Rightarrow> ('id, 'v, 'e) slot \<Rightarrow>
   ('id, 'v) msg list \<Rightarrow> ('id, 'v) msg list \<Rightarrow> bool" where
  "run_inv n q i f s recv sent \<longleftrightarrow>
     slot_inv s recv \<and> sl_node_id s = n \<and> sl_quorum_set s = q \<and> sl_index s = i \<and> sl_validity_fn s = f \<and>
     (\<forall>m \<in> set sent. speaks_for s m) \<and>
     (sl_phase s = PhExternalize \<longrightarrow> (\<exists>Q. commit_cert n q recv (b_X (sl_B s)) Q))"

lemma call_run_inv:
  assumes "run_inv n q i f s recv sent" and "call_ok (recv @ ms) s out t"
  shows "run_inv n q i f t (recv @ ms) (sent @ out)"
proof -
  have g: "slot_inv t (recv @ ms)" "same_identity s t" "value_fixed s t"
    "sl_phase s \<noteq> PhExternalize \<Longrightarrow> sl_phase t = PhExternalize \<Longrightarrow> externalize_cert t"
    and out: "\<forall>m \<in> set out. speaks_for t m"
    using call_ok_step [OF assms(2)] by auto
  have id: "sl_node_id t = n" "sl_quorum_set t = q" "sl_index t = i" "sl_validity_fn t = f"
    using assms(1) g(2) by (auto simp: run_inv_def same_identity_def)
  have "\<exists>Q. commit_cert n q (recv @ ms) (b_X (sl_B t)) Q" if ext: "sl_phase t = PhExternalize"
  proof (cases "sl_phase s = PhExternalize")
    case True
    then have "b_X (sl_B t) = b_X (sl_B s)" using g(3) by (simp add: value_fixed_def committed_def)
    with True assms(1) show ?thesis by (auto simp: run_inv_def intro: commit_cert_mono)
  next
    case False
    with g ext have "externalize_cert t" "store_ok t (recv @ ms)" by (auto simp: slot_inv_def)
    from externalize_cert_commit_cert [OF this] id show ?thesis by simp
  qed
  moreover have "\<forall>m \<in> set sent. speaks_for t m"
    using assms(1) g(2,3) by (auto simp: run_inv_def intro: speaks_for_step)
  ultimately show ?thesis using g(1) id out by (auto simp: run_inv_def)
qed

lemma slot_run_inv:
  assumes "slot_run n q i f g s recv sent"
  shows "run_inv n q i f s recv sent"
  using assms
proof induction
  case (new a s)
  then show ?case using slot_new_inv [OF new]
    by (cases rule: slot_new_fields) (simp add: run_inv_def slot_init_def)
next
  case (step s recv sent a e out t)
  have "slot_inv s recv" using step.IH by (simp add: run_inv_def)
  from slot_step_ok [OF step.hyps(4) this step.hyps(3)] show ?case
    by (rule call_run_inv [OF step.IH])
qed

subsection \<open>Agreement\<close>

text \<open>
  The correct nodes \<open>C\<close>, of which \<open>P\<close> work on the slot: these run the code, and a message they
  received in the name of a correct node was sent by it.
\<close>

definition correct_nodes ::
  "'id::linorder set \<Rightarrow> 'id set \<Rightarrow> ('id \<Rightarrow> 'id quorum_set) \<Rightarrow> u64 \<Rightarrow> ('id \<Rightarrow> 'v::linorder \<Rightarrow> 'e + unit) \<Rightarrow>
   ('id \<Rightarrow> 'v list \<Rightarrow> 'e + 'v list) \<Rightarrow> ('id \<Rightarrow> ('id, 'v, 'e) slot) \<Rightarrow>
   ('id \<Rightarrow> ('id, 'v) msg list) \<Rightarrow> ('id \<Rightarrow> ('id, 'v) msg list) \<Rightarrow> bool" where
  "correct_nodes C P qs i vf cf st recv sent \<longleftrightarrow>
     P \<subseteq> C \<and>
     (\<forall>n \<in> P. slot_run n (qs n) i (vf n) (cf n) (st n) (recv n) (sent n)) \<and>
     (\<forall>n \<in> P. \<forall>m \<in> set (recv n). sender_id m \<in> C \<longrightarrow> sender_id m \<in> P \<and> m \<in> set (sent (sender_id m)))"

text \<open>Two sets that satisfy the quorum set of each of their correct members share a correct member.\<close>

definition quorum_intersection :: "'id set \<Rightarrow> ('id \<Rightarrow> 'id quorum_set) \<Rightarrow> bool" where
  "quorum_intersection C qs \<longleftrightarrow>
     (\<forall>Q Q'. Q \<inter> C \<noteq> {} \<longrightarrow> Q' \<inter> C \<noteq> {} \<longrightarrow>
        (\<forall>n \<in> Q \<inter> C. sat Q (qs n)) \<longrightarrow> (\<forall>n \<in> Q' \<inter> C. sat Q' (qs n)) \<longrightarrow> Q \<inter> Q' \<inter> C \<noteq> {})"

text \<open>The correct members of a certificate work on the slot and are committed to its value.\<close>

lemma commit_cert_correct:
  assumes C: "correct_nodes C P qs i vf cf st recv sent" and "a \<in> P"
    and Q: "commit_cert a (qs a) (recv a) v Q" and v: "b_X (sl_B (st a)) = v" and n: "n \<in> Q \<inter> C"
  shows "sat Q (qs n)" and "b_X (sl_B (st n)) = v"
proof -
  have "sat Q (qs n) \<and> b_X (sl_B (st n)) = v"
  proof (cases "n = a")
    case True
    with Q v show ?thesis by (simp add: commit_cert_def)
  next
    case False
    with Q n obtain m where m: "m \<in> set (recv a)" "sender_id m = n" "sat Q (msg_quorum_set m)"
      "accept_commit_range m v \<noteq> None"
      unfolding commit_cert_def by blast
    with C \<open>a \<in> P\<close> n have "n \<in> P" "m \<in> set (sent n)" by (auto simp: correct_nodes_def)
    moreover from C \<open>n \<in> P\<close> have "run_inv n (qs n) i (vf n) (st n) (recv n) (sent n)"
      by (auto simp: correct_nodes_def intro: slot_run_inv)
    ultimately have "speaks_for (st n) m" "sl_quorum_set (st n) = qs n" by (auto simp: run_inv_def)
    with m show ?thesis by (auto simp: speaks_for_def)
  qed
  then show "sat Q (qs n)" and "b_X (sl_B (st n)) = v" by auto
qed

lemma externalized_cert:
  assumes "correct_nodes C P qs i vf cf st recv sent" and "a \<in> P" and "sl_phase (st a) = PhExternalize"
  obtains Q where "commit_cert a (qs a) (recv a) (b_X (sl_B (st a))) Q"
  using assms slot_run_inv [of a "qs a" i "vf a" "cf a" "st a" "recv a" "sent a"]
  by (auto simp: correct_nodes_def run_inv_def)

lemma slots_agree:
  assumes C: "correct_nodes C P qs i vf cf st recv sent" and "quorum_intersection C qs"
    and "a \<in> P" and "b \<in> P"
    and "sl_phase (st a) = PhExternalize" and "sl_phase (st b) = PhExternalize"
  shows "b_X (sl_B (st a)) = b_X (sl_B (st b))"
proof -
  obtain Q where Q: "commit_cert a (qs a) (recv a) (b_X (sl_B (st a))) Q"
    using C assms(3,5) by (rule externalized_cert)
  obtain R where R: "commit_cert b (qs b) (recv b) (b_X (sl_B (st b))) R"
    using C assms(4,6) by (rule externalized_cert)
  note q = commit_cert_correct [OF C assms(3) Q refl] and r = commit_cert_correct [OF C assms(4) R refl]
  have "a \<in> Q \<inter> C" "b \<in> R \<inter> C" using Q R C assms(3,4) by (auto simp: commit_cert_def correct_nodes_def)
  with q(1) r(1) assms(2) obtain n where "n \<in> Q \<inter> R \<inter> C"
    unfolding quorum_intersection_def by (metis all_not_in_conv)
  with q(2) [of n] r(2) [of n] show ?thesis by simp
qed

end
