(* ===== verification/Scp_Node.thy ===== *)
theory Scp_Node
  imports Scp_Agreement
begin

section \<open>Nodes (\<^verbatim>\<open>consensus/scp/src/node/node_impl.rs\<close>)\<close>

text \<open>
  A node keeps the slot it works on and a bounded queue of slots it externalized. The theory
  holds the operations of \<^verbatim>\<open>Node\<close>, the contract \<^verbatim>\<open>ScpSlot\<close> as a locale interpreted on the
  slot of this development, and shows that every slot of a node is a run of the slot, so that
  what holds of runs of one slot holds of whatever a node reports.
  The operations of a slot never return an error, so that the \<^verbatim>\<open>Result\<close> of the operations of
  a node is always \<^verbatim>\<open>Ok\<close>; aborting is \<open>None\<close> as in the slot.
\<close>

definition MAX_EXTERNALIZED_SLOTS :: nat where
  "MAX_EXTERNALIZED_SLOTS = 1"

record ('id, 'v, 'e) node =
  nd_ID :: 'id
  nd_Q :: "'id quorum_set"
  nd_current_slot :: "('id, 'v, 'e) slot"
  nd_max_externalized_slots :: nat
  nd_externalized_slots :: "('id, 'v, 'e) slot list"
  nd_validity_fn :: "'v \<Rightarrow> 'e + unit"
  nd_combine_fn :: "'v list \<Rightarrow> 'e + 'v list"
  nd_scp_timebase :: int

definition node_new ::
  "('id, 'v) ambient \<Rightarrow> 'id \<Rightarrow> 'id quorum_set \<Rightarrow> ('v \<Rightarrow> 'e + unit) \<Rightarrow> ('v list \<Rightarrow> 'e + 'v list) \<Rightarrow>
   u64 \<Rightarrow> ('id, 'v, 'e) node run" where
  "node_new a node_id quorum_set validity_fn combine_fn current_slot_index = do {
     slot \<leftarrow> slot_new a node_id quorum_set current_slot_index validity_fn combine_fn;
     Some \<lparr>nd_ID = node_id, nd_Q = quorum_set, nd_current_slot = slot,
           nd_max_externalized_slots = MAX_EXTERNALIZED_SLOTS, nd_externalized_slots = [],
           nd_validity_fn = validity_fn, nd_combine_fn = combine_fn, nd_scp_timebase = 1000\<rparr> }"

text \<open>The queue after a push: the oldest slots go while it is longer than the limit.\<close>

fun trim_externalized :: "nat \<Rightarrow> 's list \<Rightarrow> 's list" where
  "trim_externalized k [] = []"
| "trim_externalized k (s # ss) = (if length (s # ss) > k then trim_externalized k ss else s # ss)"

definition push_externalized_slot ::
  "('id, 'v, 'e) slot \<Rightarrow> ('id, 'v, 'e) node \<Rightarrow> ('id, 'v, 'e) node" where
  "push_externalized_slot slot nd =
     nd\<lparr>nd_externalized_slots :=
          trim_externalized (nd_max_externalized_slots nd) (nd_externalized_slots nd @ [slot])\<rparr>"

text \<open>The validity check of the payload only logs.\<close>

definition externalize ::
  "('id, 'v) ambient \<Rightarrow> ('id, 'v, 'e) node \<Rightarrow> ('id, 'v, 'e) node run" where
  "externalize a nd = do {
     next_slot \<leftarrow> slot_new a (nd_ID nd) (nd_Q nd) (sl_index (nd_current_slot nd) + 1)
                    (nd_validity_fn nd) (nd_combine_fn nd);
     Some (push_externalized_slot (nd_current_slot nd) (nd\<lparr>nd_current_slot := next_slot\<rparr>)) }"

definition get_externalized_slot ::
  "('id, 'v, 'e) node \<Rightarrow> u64 \<Rightarrow> ('id, 'v, 'e) slot option" where
  "get_externalized_slot nd slot_index =
     find (\<lambda>slot. sl_index slot = slot_index) (nd_externalized_slots nd)"

text \<open>What both handlers do with the answer of the current slot.\<close>

definition externalize_if ::
  "('id, 'v) ambient \<Rightarrow> ('id, 'v) msg \<Rightarrow> ('id, 'v, 'e) node \<Rightarrow> ('id, 'v, 'e) node run" where
  "externalize_if a m nd = (case topic m of Externalize _ \<Rightarrow> externalize a nd | _ \<Rightarrow> Some nd)"

definition node_propose_values ::
  "('id::linorder, 'v::linorder) ambient \<Rightarrow> ('id, 'v, 'e) node \<Rightarrow> 'v set \<Rightarrow>
   (('id, 'v) msg option \<times> ('id, 'v, 'e) node) run" where
  "node_propose_values a nd vals =
     (if Set.is_empty vals then Some (None, nd)
      else do {
        (msg_opt, slot) \<leftarrow> propose_values a (nd_current_slot nd) vals;
        let nd = nd\<lparr>nd_current_slot := slot\<rparr>;
        case msg_opt of
          None \<Rightarrow> Some (None, nd)
        | Some m \<Rightarrow> do { nd \<leftarrow> externalize_if a m nd; Some (Some m, nd) } })"

text \<open>The messages grouped by slot index, each group in the order of the messages.\<close>

fun group_by_slot :: "('id, 'v) msg list \<Rightarrow> (u64 \<times> ('id, 'v) msg list) list \<Rightarrow> (u64 \<times> ('id, 'v) msg list) list" where
  "group_by_slot [] groups = groups"
| "group_by_slot (m # ms) groups =
     group_by_slot ms
       (AList.update (msg_slot_index m)
          ((case map_of groups (msg_slot_index m) of None \<Rightarrow> [] | Some g \<Rightarrow> g) @ [m]) groups)"

text \<open>Every externalized slot handles the messages for it; the responses in the order of the queue.\<close>

fun slots_handle_messages ::
  "('s \<Rightarrow> u64) \<Rightarrow> ('s \<Rightarrow> 'm list \<Rightarrow> ('m option \<times> 's) run) \<Rightarrow> (u64 \<Rightarrow> 'm list option) \<Rightarrow> 's list \<Rightarrow>
   ('m list \<times> 's list) run" where
  "slots_handle_messages index handle groups [] = Some ([], [])"
| "slots_handle_messages index handle groups (s # ss) = do {
     (out, s) \<leftarrow> (case groups (index s) of
                    None \<Rightarrow> Some ([], s)
                  | Some ms \<Rightarrow> do {
                      (response, s) \<leftarrow> handle s ms;
                      Some (case response of None \<Rightarrow> [] | Some m \<Rightarrow> [m], s) });
     (outs, ss) \<leftarrow> slots_handle_messages index handle groups ss;
     Some (out @ outs, s # ss) }"

text \<open>The messages for the current slot.\<close>

definition node_handle_current ::
  "('id::linorder, 'v::linorder) ambient \<Rightarrow> ('id, 'v) msg list option \<Rightarrow> ('id, 'v) msg list \<Rightarrow>
   ('id, 'v, 'e) node \<Rightarrow> (('id, 'v) msg list \<times> ('id, 'v, 'e) node) run" where
  "node_handle_current a msgs_opt outbound_msgs nd = (case msgs_opt of
       None \<Rightarrow> Some (outbound_msgs, nd)
     | Some ms \<Rightarrow> do {
         (response_opt, slot) \<leftarrow> handle_messages a (nd_current_slot nd) ms;
         let nd = nd\<lparr>nd_current_slot := slot\<rparr>;
         case response_opt of
           None \<Rightarrow> Some (outbound_msgs, nd)
         | Some response \<Rightarrow> do {
             nd \<leftarrow> externalize_if a response nd;
             Some (outbound_msgs @ [response], nd) } })"

definition node_handle_messages ::
  "('id::linorder, 'v::linorder) ambient \<Rightarrow> ('id, 'v, 'e) node \<Rightarrow> ('id, 'v) msg list \<Rightarrow>
   (('id, 'v) msg list \<times> ('id, 'v, 'e) node) run" where
  "node_handle_messages a nd msgs = do {
     let msgs_from_peers = filter (\<lambda>m. sender_id m \<noteq> nd_ID nd) msgs;
     let msgs_to_process =
       filter (\<lambda>m. msg_slot_index m \<le> sl_index (nd_current_slot nd)) msgs_from_peers;
     let slot_index_to_msgs = map_of (group_by_slot msgs_to_process []);
     (outbound_msgs, slots) \<leftarrow>
       slots_handle_messages sl_index (handle_messages a) slot_index_to_msgs (nd_externalized_slots nd);
     let nd = nd\<lparr>nd_externalized_slots := slots\<rparr>;
     node_handle_current a (slot_index_to_msgs (sl_index (nd_current_slot nd))) outbound_msgs nd }"

definition node_handle_message ::
  "('id::linorder, 'v::linorder) ambient \<Rightarrow> ('id, 'v, 'e) node \<Rightarrow> ('id, 'v) msg \<Rightarrow>
   (('id, 'v) msg option \<times> ('id, 'v, 'e) node) run" where
  "node_handle_message a nd m = do {
     (outgoing_messages, nd) \<leftarrow> node_handle_messages a nd [m];
     Some (case outgoing_messages of [] \<Rightarrow> None | m # _ \<Rightarrow> Some m, nd) }"

definition set_max_externalized_slots :: "nat \<Rightarrow> ('id, 'v, 'e) node \<Rightarrow> ('id, 'v, 'e) node" where
  "set_max_externalized_slots n nd = nd\<lparr>nd_max_externalized_slots := n\<rparr>"

text \<open>Aborts when the slot has sent no message or its last message is not an externalize message.\<close>

definition get_externalized_values :: "('id, 'v, 'e) node \<Rightarrow> u64 \<Rightarrow> 'v list option run" where
  "get_externalized_values nd slot_index = (case get_externalized_slot nd slot_index of
       None \<Rightarrow> Some None
     | Some slot \<Rightarrow> do {
         m \<leftarrow> sl_last_sent_msg slot;
         case topic m of Externalize payload \<Rightarrow> Some (Some (b_X (ext_C payload))) | _ \<Rightarrow> None })"

definition node_process_timeouts ::
  "('id::linorder, 'v::linorder) ambient \<Rightarrow> ('id, 'v, 'e) node \<Rightarrow>
   (('id, 'v) msg list \<times> ('id, 'v, 'e) node) run" where
  "node_process_timeouts a nd = do {
     (msgs, slot) \<leftarrow> process_timeouts a (nd_current_slot nd);
     Some (msgs, nd\<lparr>nd_current_slot := slot\<rparr>) }"

definition current_slot_index :: "('id, 'v, 'e) node \<Rightarrow> u64" where
  "current_slot_index nd = sl_index (nd_current_slot nd)"

definition get_current_slot_metrics :: "('id, 'v, 'e) node \<Rightarrow> slot_metrics" where
  "get_current_slot_metrics nd = get_metrics (nd_current_slot nd)"

text \<open>The \<^verbatim>\<open>debug_assert\<close> that the index increases is not compiled into a release build.\<close>

definition reset_slot_index ::
  "('id, 'v) ambient \<Rightarrow> ('id, 'v, 'e) node \<Rightarrow> u64 \<Rightarrow> ('id, 'v, 'e) node run" where
  "reset_slot_index a nd slot_index = do {
     slot \<leftarrow> slot_new a (nd_ID nd) (nd_Q nd) slot_index (nd_validity_fn nd) (nd_combine_fn nd);
     Some (nd\<lparr>nd_current_slot := slot, nd_externalized_slots := []\<rparr>) }"

subsection \<open>The queue and the groups\<close>

lemma trim_externalized_drop: "trim_externalized k ss = drop (length ss - k) ss"
  by (induction ss) (auto simp: Suc_diff_le)

lemma group_by_slot_get:
  "map_of (group_by_slot ms groups) i =
     (let g = (case map_of groups i of None \<Rightarrow> [] | Some g \<Rightarrow> g) @ filter (\<lambda>m. msg_slot_index m = i) ms in
      if map_of groups i = None \<and> g = [] then None else Some g)"
  by (induction ms arbitrary: groups) (auto simp: update_conv' Let_def split: option.splits)

lemma group_by_slot_lookup:
  "map_of (group_by_slot ms []) i =
     (let g = filter (\<lambda>m. msg_slot_index m = i) ms in if g = [] then None else Some g)"
  by (simp add: group_by_slot_get Let_def)

subsection \<open>The contract of a slot\<close>

text \<open>
  What a node relies on of its slots: a call extends the history of the slot (what it received
  and sent), keeps its index, sends messages for that index only, and never changes a decision.
\<close>

locale scp_slot =
  fixes index :: "'s \<Rightarrow> u64" and msg_index :: "'m \<Rightarrow> u64"
    and history :: "'s \<Rightarrow> 'm list \<Rightarrow> 'm list \<Rightarrow> bool"
    and calls :: "'s \<Rightarrow> 'm list \<Rightarrow> 'm list \<Rightarrow> 's \<Rightarrow> bool"
    and decided :: "'s \<Rightarrow> 'x option"
  assumes call_history: "history s r t \<Longrightarrow> calls s ms out s' \<Longrightarrow> history s' (r @ ms) (t @ out)"
    and call_index: "history s r t \<Longrightarrow> calls s ms out s' \<Longrightarrow> index s' = index s"
    and call_msg_index: "history s r t \<Longrightarrow> calls s ms out s' \<Longrightarrow> m \<in> set out \<Longrightarrow> msg_index m = index s"
    and call_decided: "history s r t \<Longrightarrow> calls s ms out s' \<Longrightarrow> decided s = Some v \<Longrightarrow> decided s' = Some v"
begin

text \<open>The slots a node worked on so far, each with its history, inside the history of the node.\<close>

definition slots_ok :: "(u64 \<Rightarrow> ('s \<times> 'm list \<times> 'm list) option) \<Rightarrow> 'm list \<Rightarrow> 'm list \<Rightarrow> bool" where
  "slots_ok h recv sent \<longleftrightarrow>
     (\<forall>i s r t. h i = Some (s, r, t) \<longrightarrow>
        history s r t \<and> index s = i \<and> set r \<subseteq> {m \<in> set recv. msg_index m = i}) \<and>
     (\<forall>m \<in> set sent. \<exists>s r t. h (msg_index m) = Some (s, r, t) \<and> m \<in> set t)"

definition has_slot :: "(u64 \<Rightarrow> ('s \<times> 'm list \<times> 'm list) option) \<Rightarrow> 's \<Rightarrow> bool" where
  "has_slot h s \<longleftrightarrow> (\<exists>r t. h (index s) = Some (s, r, t))"

lemma slots_okD:
  assumes "slots_ok h recv sent"
  shows "h i = Some (s, r, t) \<Longrightarrow> history s r t \<and> index s = i \<and> set r \<subseteq> {m \<in> set recv. msg_index m = i}"
    and "m \<in> set sent \<Longrightarrow> \<exists>s r t. h (msg_index m) = Some (s, r, t) \<and> m \<in> set t"
  using assms unfolding slots_ok_def by blast+

lemma has_slot_history:
  "slots_ok h recv sent \<Longrightarrow> has_slot h s \<Longrightarrow>
   \<exists>r t. h (index s) = Some (s, r, t) \<and> history s r t"
  unfolding slots_ok_def has_slot_def by blast

lemma slots_ok_mono: "slots_ok h recv sent \<Longrightarrow> slots_ok h (recv @ recv') sent"
  unfolding slots_ok_def by fastforce

lemma slots_ok_new:
  assumes "slots_ok h recv sent" and "history s [] []" and "h (index s) = None"
  shows "slots_ok (h(index s \<mapsto> (s, [], []))) recv sent"
proof -
  have "msg_index m \<noteq> index s" if "m \<in> set sent" for m
    using that assms(1,3) by (force simp: slots_ok_def)
  with assms(1,2) show ?thesis by (auto simp: slots_ok_def)
qed

lemma slots_ok_call:
  assumes "slots_ok h recv sent" and "has_slot h s" and "calls s ms out s'"
    and "set ms \<subseteq> {m \<in> set recv. msg_index m = index s}"
  shows "\<exists>h'. slots_ok h' recv (sent @ out) \<and> has_slot h' s' \<and> index s' = index s \<and>
    (\<forall>i. i \<noteq> index s \<longrightarrow> h' i = h i) \<and> dom h' = dom h \<and>
    (\<forall>v. decided s = Some v \<longrightarrow> decided s' = Some v)"
proof -
  from assms(2) obtain r t where h: "h (index s) = Some (s, r, t)" by (auto simp: has_slot_def)
  with slots_okD(1) [OF assms(1)] have hist: "history s r t" "set r \<subseteq> {m \<in> set recv. msg_index m = index s}"
    by blast+
  let ?h = "h(index s \<mapsto> (s', r @ ms, t @ out))"
  note c = call_history [OF hist(1) assms(3)] call_index [OF hist(1) assms(3)]
    call_msg_index [OF hist(1) assms(3)] call_decided [OF hist(1) assms(3)]
  have "slots_ok ?h recv (sent @ out)" unfolding slots_ok_def
  proof (intro conjI allI impI ballI)
    fix i x r2 t2
    assume x: "?h i = Some (x, r2, t2)"
    have "history x r2 t2 \<and> index x = i \<and> set r2 \<subseteq> {m \<in> set recv. msg_index m = i}"
    proof (cases "i = index s")
      case True
      with x c(1,2) hist(2) assms(4) show ?thesis by auto
    next
      case False
      with x slots_okD(1) [OF assms(1), of i x r2 t2] show ?thesis by simp
    qed
    then show "history x r2 t2" "index x = i" "set r2 \<subseteq> {m \<in> set recv. msg_index m = i}" by auto
  next
    fix m assume "m \<in> set (sent @ out)"
    moreover have "\<exists>x r t. h (msg_index m) = Some (x, r, t) \<and> m \<in> set t" if "m \<in> set sent"
      using slots_okD(2) [OF assms(1) that] .
    ultimately show "\<exists>x r t. ?h (msg_index m) = Some (x, r, t) \<and> m \<in> set t"
      using h c(3) by (cases "msg_index m = index s") auto
  qed
  moreover have "has_slot ?h s'" using c(2) by (simp add: has_slot_def)
  ultimately show ?thesis using c(2,4) h by (intro exI [of _ ?h]) auto
qed

lemma slots_handle_messages_ok:
  assumes "slots_handle_messages index handle groups ss = Some (outs, ss')"
    and "\<forall>s ms mo s'. handle s ms = Some (mo, s') \<longrightarrow> calls s ms (case mo of None \<Rightarrow> [] | Some m \<Rightarrow> [m]) s'"
    and "slots_ok h recv sent" and "\<forall>s \<in> set ss. has_slot h s" and "distinct (map index ss)"
    and "\<forall>i ms. groups i = Some ms \<longrightarrow> set ms \<subseteq> {m \<in> set recv. msg_index m = i}"
  shows "\<exists>h'. slots_ok h' recv (sent @ outs) \<and> (\<forall>s \<in> set ss'. has_slot h' s) \<and>
    map index ss' = map index ss \<and> (\<forall>i. i \<notin> index ` set ss \<longrightarrow> h' i = h i) \<and> dom h' = dom h \<and>
    list_all2 (\<lambda>s s'. \<forall>v. decided s = Some v \<longrightarrow> decided s' = Some v) ss ss'"
  using assms(1,3-5)
proof (induction ss arbitrary: h sent outs ss')
  case (Cons s ss)
  from Cons.prems(1) obtain out s1 outs1 ss1
    where head: "(case groups (index s) of None \<Rightarrow> Some ([], s)
        | Some ms \<Rightarrow> do { (response, s) \<leftarrow> handle s ms;
            Some (case response of None \<Rightarrow> [] | Some m \<Rightarrow> [m], s) }) = Some (out, s1)"
      and tail: "slots_handle_messages index handle groups ss = Some (outs1, ss1)"
      and r: "outs = out @ outs1" "ss' = s1 # ss1"
    by (auto elim!: run_elims)
  have s: "has_slot h s" using Cons.prems(3) by simp
  obtain h1 where h1: "slots_ok h1 recv (sent @ out)" "has_slot h1 s1" "index s1 = index s"
    "\<forall>i. i \<noteq> index s \<longrightarrow> h1 i = h i" "dom h1 = dom h" "\<forall>v. decided s = Some v \<longrightarrow> decided s1 = Some v"
  proof (cases "groups (index s)")
    case None
    with head s Cons.prems(2) that [of h] show ?thesis by auto
  next
    case (Some ms)
    with head obtain mo where "handle s ms = Some (mo, s1)" and o: "out = (case mo of None \<Rightarrow> [] | Some m \<Rightarrow> [m])"
      by (auto elim!: run_elims)
    from assms(2) [rule_format, OF this(1)] o have "calls s ms out s1" by simp
    from slots_ok_call [OF Cons.prems(2) s this assms(6) [rule_format, OF Some]] that show ?thesis by (elim exE conjE)
  qed
  have "\<forall>x \<in> set ss. index x \<noteq> index s" using Cons.prems(4) by (auto simp: image_iff)
  with Cons.prems(3) h1(4) have "\<forall>x \<in> set ss. has_slot h1 x" by (simp add: has_slot_def)
  from Cons.IH [OF tail h1(1) this] Cons.prems(4) obtain h2
    where h2: "slots_ok h2 recv ((sent @ out) @ outs1)" "\<forall>s \<in> set ss1. has_slot h2 s"
      "map index ss1 = map index ss" "\<forall>i. i \<notin> index ` set ss \<longrightarrow> h2 i = h1 i" "dom h2 = dom h1"
      "list_all2 (\<lambda>s s'. \<forall>v. decided s = Some v \<longrightarrow> decided s' = Some v) ss ss1"
    by auto
  have "has_slot h2 s1" using h1(2,3) h2(4) Cons.prems(4) by (auto simp: has_slot_def)
  with h1 h2 r show ?case by (intro exI [of _ h2]) auto
qed auto

end

subsection \<open>The slot of this development as provider\<close>

definition slot_calls ::
  "('id::linorder, 'v::linorder, 'e) slot \<Rightarrow> ('id, 'v) msg list \<Rightarrow> ('id, 'v) msg list \<Rightarrow> ('id, 'v, 'e) slot \<Rightarrow> bool" where
  "slot_calls s ms out t \<longleftrightarrow>
     (\<exists>a e. ambient_ok a \<and> event_ok e \<and> delivered e = ms \<and> slot_step a s e = Some (out, t))"

text \<open>The value of a slot that externalized and said so.\<close>

definition decision :: "('id, 'v, 'e) slot \<Rightarrow> 'v list option" where
  "decision s =
     (if sl_phase s = PhExternalize \<and>
         (\<exists>m p. sl_last_sent_msg s = Some m \<and> topic m = Externalize p \<and> b_X (ext_C p) = b_X (sl_B s))
      then Some (b_X (sl_B s)) else None)"

definition slot_history ::
  "'id::linorder \<Rightarrow> 'id quorum_set \<Rightarrow> ('v::linorder \<Rightarrow> 'e + unit) \<Rightarrow> ('v list \<Rightarrow> 'e + 'v list) \<Rightarrow>
   ('id, 'v, 'e) slot \<Rightarrow> ('id, 'v) msg list \<Rightarrow> ('id, 'v) msg list \<Rightarrow> bool" where
  "slot_history n q f g s r t \<longleftrightarrow> slot_run n q (sl_index s) f g s r t"

lemma slot_calls_ok:
  assumes "slot_history n q f g s r t" and "slot_calls s ms out s'"
  shows "call_ok (r @ ms) s out s'"
proof -
  from assms(1) have "slot_inv s r" by (auto simp: slot_history_def run_inv_def dest: slot_run_inv)
  with assms(2) slot_step_ok show ?thesis unfolding slot_calls_def by blast
qed

lemma externalize_decision:
  assumes "sl_phase t = PhExternalize" and "sl_last_sent_msg t = Some m" and "speaks_for t m"
    and "topic m = Externalize p"
  shows "decision t = Some (b_X (ext_C p))"
proof -
  have "accept_commit_range m (b_X (ext_C p)) \<noteq> None" using assms(4) by (simp add: accept_commit_range_def)
  with assms show ?thesis by (auto simp: decision_def speaks_for_def)
qed

lemma decision_step:
  assumes "call_ok recv s out t" and "decision s = Some v"
  shows "decision t = Some v"
proof -
  have s: "sl_phase s = PhExternalize" "b_X (sl_B s) = v"
    using assms(2) by (auto simp: decision_def split: if_split_asm)
  have t: "sl_phase t = PhExternalize" "b_X (sl_B t) = v"
    using call_ok_step(3) [OF assms(1)] s by (cases "sl_phase t"; auto simp: value_fixed_def committed_def)+
  show ?thesis
    using assms(1)
  proof (cases rule: call_okE)
    case 1
    with assms(2) s t show ?thesis by (simp add: good_step_def decision_def split: if_split_asm)
  next
    case (2 m)
    with t(1) obtain p where p: "topic m = Externalize p" by auto
    from externalize_decision [OF t(1) 2(3,4) p] t show ?thesis
      by (auto simp: decision_def split: if_split_asm)
  qed
qed

interpretation ss: scp_slot
  "sl_index :: ('id::linorder, 'v::linorder, 'e) slot \<Rightarrow> u64" msg_slot_index "slot_history n q f g" slot_calls decision
  for n :: "'id::linorder" and q f and g :: "'v::linorder list \<Rightarrow> 'e + 'v list"
proof
  fix s s' :: "('id, 'v, 'e) slot" and r t ms out m v
  assume h: "slot_history n q f g s r t" and c: "slot_calls s ms out s'"
  note ok = slot_calls_ok [OF h c]
  show i: "sl_index s' = sl_index s" using call_ok_step(2) [OF ok] by (simp add: same_identity_def)
  show "slot_history n q f g s' (r @ ms) (t @ out)"
    using h c i slot_run.step unfolding slot_history_def slot_calls_def by metis
  show "msg_slot_index m = sl_index s" if "m \<in> set out"
    using call_ok_step(4) [OF ok] that i by (simp add: speaks_for_def)
  show "decision s' = Some v" if "decision s = Some v" using ok that by (rule decision_step)
qed

subsection \<open>Runs of a node\<close>

datatype ('id, 'v) node_event =
    NPropose "'v set"
  | NDeliver "('id, 'v) msg list"
  | NTimeouts
  | NReset u64
  | NSetMax nat

fun node_step ::
  "('id::linorder, 'v::linorder) ambient \<Rightarrow> ('id, 'v, 'e) node \<Rightarrow> ('id, 'v) node_event \<Rightarrow>
   (('id, 'v) msg list \<times> ('id, 'v, 'e) node) run" where
  "node_step a nd (NPropose vals) = do {
     (m, nd) \<leftarrow> node_propose_values a nd vals; Some (case m of None \<Rightarrow> [] | Some m \<Rightarrow> [m], nd) }"
| "node_step a nd (NDeliver msgs) = node_handle_messages a nd msgs"
| "node_step a nd NTimeouts = node_process_timeouts a nd"
| "node_step a nd (NReset i) = do { nd \<leftarrow> reset_slot_index a nd i; Some ([], nd) }"
| "node_step a nd (NSetMax k) = Some ([], set_max_externalized_slots k nd)"

fun node_delivered :: "('id, 'v) node_event \<Rightarrow> ('id, 'v) msg list" where
  "node_delivered (NDeliver msgs) = msgs"
| "node_delivered _ = []"

text \<open>
  The index of the slot only increases, as \<^verbatim>\<open>reset_slot_index\<close> asks of its caller, and does not
  reach the end of its range.
\<close>

fun node_event_ok :: "('id, 'v, 'e) node \<Rightarrow> ('id, 'v) node_event \<Rightarrow> bool" where
  "node_event_ok nd (NPropose vals) \<longleftrightarrow> finite vals"
| "node_event_ok nd (NReset i) \<longleftrightarrow> current_slot_index nd < i"
| "node_event_ok nd _ \<longleftrightarrow> True"

inductive node_run ::
  "'id::linorder \<Rightarrow> 'id quorum_set \<Rightarrow> ('v::linorder \<Rightarrow> 'e + unit) \<Rightarrow> ('v list \<Rightarrow> 'e + 'v list) \<Rightarrow>
   ('id, 'v, 'e) node \<Rightarrow> ('id, 'v) msg list \<Rightarrow> ('id, 'v) msg list \<Rightarrow> bool"
  for node_id quorum_set validity_fn combine_fn where
  new: "node_new a node_id quorum_set validity_fn combine_fn i = Some nd \<Longrightarrow>
    node_run node_id quorum_set validity_fn combine_fn nd [] []"
| step: "node_run node_id quorum_set validity_fn combine_fn nd recv sent \<Longrightarrow>
    ambient_ok a \<Longrightarrow> node_event_ok nd e \<Longrightarrow> current_slot_index nd < - 1 \<Longrightarrow>
    node_step a nd e = Some (out, nd') \<Longrightarrow>
    node_run node_id quorum_set validity_fn combine_fn nd' (recv @ node_delivered e) (sent @ out)"

subsection \<open>The invariant of a node\<close>

abbreviation node_slots_ok ::
  "'id::linorder \<Rightarrow> 'id quorum_set \<Rightarrow> ('v::linorder \<Rightarrow> 'e + unit) \<Rightarrow> ('v list \<Rightarrow> 'e + 'v list) \<Rightarrow>
   (u64 \<Rightarrow> (('id, 'v, 'e) slot \<times> ('id, 'v) msg list \<times> ('id, 'v) msg list) option) \<Rightarrow>
   ('id, 'v) msg list \<Rightarrow> ('id, 'v) msg list \<Rightarrow> bool" where
  "node_slots_ok n q f g \<equiv> scp_slot.slots_ok sl_index msg_slot_index (slot_history n q f g)"

abbreviation node_has_slot ::
  "(u64 \<Rightarrow> (('id, 'v, 'e) slot \<times> ('id, 'v) msg list \<times> ('id, 'v) msg list) option) \<Rightarrow>
   ('id, 'v, 'e) slot \<Rightarrow> bool" where
  "node_has_slot \<equiv> scp_slot.has_slot sl_index"

definition node_inv ::
  "'id::linorder \<Rightarrow> 'id quorum_set \<Rightarrow> ('v::linorder \<Rightarrow> 'e + unit) \<Rightarrow> ('v list \<Rightarrow> 'e + 'v list) \<Rightarrow>
   (u64 \<Rightarrow> (('id, 'v, 'e) slot \<times> ('id, 'v) msg list \<times> ('id, 'v) msg list) option) \<Rightarrow>
   ('id, 'v, 'e) node \<Rightarrow> ('id, 'v) msg list \<Rightarrow> ('id, 'v) msg list \<Rightarrow> bool" where
  "node_inv n q f g h nd recv sent \<longleftrightarrow>
     nd_ID nd = n \<and> nd_Q nd = q \<and> nd_validity_fn nd = f \<and> nd_combine_fn nd = g \<and>
     node_slots_ok n q f g h recv sent \<and>
     node_has_slot h (nd_current_slot nd) \<and>
     (\<forall>s \<in> set (nd_externalized_slots nd). node_has_slot h s \<and> decision s \<noteq> None) \<and>
     (\<forall>i \<in> dom h. i \<le> current_slot_index nd) \<and>
     sorted_wrt (<) (map sl_index (nd_externalized_slots nd @ [nd_current_slot nd]))"

lemma slot_new_history:
  assumes "slot_new a n q i f g = Some s"
  shows "slot_history n q f g s [] []" "sl_index s = i"
proof -
  show "sl_index s = i" using assms by (cases rule: slot_new_fields) (simp add: slot_init_def)
  with assms show "slot_history n q f g s [] []" by (auto simp: slot_history_def intro: slot_run.new)
qed

lemma node_inv_new:
  assumes "node_new a n q f g i = Some nd"
  shows "\<exists>h. node_inv n q f g h nd [] []"
proof -
  from assms obtain s where s: "slot_new a n q i f g = Some s" and nd: "nd = \<lparr>nd_ID = n, nd_Q = q,
      nd_current_slot = s, nd_max_externalized_slots = MAX_EXTERNALIZED_SLOTS, nd_externalized_slots = [],
      nd_validity_fn = f, nd_combine_fn = g, nd_scp_timebase = 1000\<rparr>"
    by (auto simp: node_new_def elim!: run_elims)
  have "node_slots_ok n q f g Map.empty [] []" by (simp add: ss.slots_ok_def)
  from ss.slots_ok_new [OF this slot_new_history(1) [OF s]]
  have "node_inv n q f g (Map.empty(sl_index s \<mapsto> (s, [], []))) nd [] []"
    by (simp add: node_inv_def nd ss.has_slot_def current_slot_index_def)
  then show ?thesis by blast
qed

text \<open>Installing a new current slot with a higher index.\<close>

lemma node_inv_next_slot:
  assumes "node_inv n q f g h nd recv sent" and "slot_new a n q i f g = Some s" and "current_slot_index nd < i"
    and "\<forall>s \<in> set ext. node_has_slot h s \<and> decision s \<noteq> None"
    and "sorted_wrt (<) (map sl_index ext)" and "\<forall>s \<in> set ext. sl_index s \<le> current_slot_index nd"
  shows "\<exists>h. node_inv n q f g h (nd\<lparr>nd_current_slot := s, nd_externalized_slots := ext\<rparr>) recv sent"
proof -
  note new = slot_new_history [OF assms(2)]
  have old: "node_slots_ok n q f g h recv sent" "\<forall>j \<in> dom h. j \<le> current_slot_index nd"
    using assms(1) by (auto simp: node_inv_def)
  have "h i = None" using old(2) assms(3) by (meson domIff leD)
  then have "node_slots_ok n q f g (h(sl_index s \<mapsto> (s, [], []))) recv sent"
    using ss.slots_ok_new [OF old(1) new(1)] new(2) by simp
  moreover have "\<forall>x \<in> set ext. node_has_slot (h(sl_index s \<mapsto> (s, [], []))) x"
    using assms(3,4,6) new(2) by (auto simp: ss.has_slot_def)
  moreover have "\<forall>j \<in> dom (h(sl_index s \<mapsto> (s, [], []))). j \<le> i"
    using old(2) assms(3) new(2) by (auto intro: order.trans [OF _ less_imp_le])
  moreover have "\<forall>x \<in> set ext. sl_index x < i" using assms(3,6) by (meson le_less_trans)
  ultimately have "node_inv n q f g (h(sl_index s \<mapsto> (s, [], [])))
      (nd\<lparr>nd_current_slot := s, nd_externalized_slots := ext\<rparr>) recv sent"
    using assms(1,4,5) new(2)
    by (simp add: node_inv_def ss.has_slot_def current_slot_index_def sorted_wrt_append)
  then show ?thesis by blast
qed

lemma node_inv_call:
  assumes "node_inv n q f g h nd recv sent" and "slot_calls (nd_current_slot nd) ms out s"
    and "set ms \<subseteq> {m \<in> set recv. msg_slot_index m = current_slot_index nd}"
  shows "\<exists>h. node_inv n q f g h (nd\<lparr>nd_current_slot := s\<rparr>) recv (sent @ out)"
proof -
  have "node_slots_ok n q f g h recv sent" "node_has_slot h (nd_current_slot nd)"
    using assms(1) by (auto simp: node_inv_def)
  from ss.slots_ok_call [OF this assms(2) assms(3) [unfolded current_slot_index_def]] obtain h'
    where h': "node_slots_ok n q f g h' recv (sent @ out)" "node_has_slot h' s"
      "sl_index s = sl_index (nd_current_slot nd)"
      "\<forall>i. i \<noteq> sl_index (nd_current_slot nd) \<longrightarrow> h' i = h i" "dom h' = dom h"
    by (elim exE conjE)
  have "\<forall>x \<in> set (nd_externalized_slots nd). node_has_slot h' x"
    using assms(1) h'(4) by (auto simp: node_inv_def ss.has_slot_def sorted_wrt_append)
  with h' assms(1) have "node_inv n q f g h' (nd\<lparr>nd_current_slot := s\<rparr>) recv (sent @ out)"
    by (simp add: node_inv_def current_slot_index_def)
  then show ?thesis by blast
qed

lemma word_less_succ: "x < - 1 \<Longrightarrow> x < x + (1 :: 'a::len word)"
  by unat_arith

lemma node_inv_externalize_if:
  assumes inv: "node_inv n q f g h nd recv sent" and "externalize_if a m nd = Some nd'"
    and dec: "\<And>p. topic m = Externalize p \<Longrightarrow> decision (nd_current_slot nd) \<noteq> None"
    and idx: "current_slot_index nd < - 1"
  shows "\<exists>h. node_inv n q f g h nd' recv sent"
proof (cases "\<exists>p. topic m = Externalize p")
  case False
  with assms(2) have "nd' = nd" by (auto simp: externalize_if_def split: topic.split_asm)
  with inv show ?thesis by blast
next
  case True
  let ?slots = "nd_externalized_slots nd @ [nd_current_slot nd]"
  let ?ext = "trim_externalized (nd_max_externalized_slots nd) ?slots"
  from True assms(2) inv obtain s
    where s: "slot_new a n q (current_slot_index nd + 1) f g = Some s"
      and nd': "nd' = nd\<lparr>nd_current_slot := s, nd_externalized_slots := ?ext\<rparr>"
    by (auto simp: externalize_if_def externalize_def push_externalized_slot_def node_inv_def
        current_slot_index_def elim!: run_elims)
  have sub: "set ?ext \<subseteq> set ?slots" by (simp only: trim_externalized_drop set_drop_subset)
  have srt: "sorted_wrt (<) (map sl_index ?slots)" using inv by (simp add: node_inv_def)
  show ?thesis unfolding nd'
  proof (rule node_inv_next_slot [OF inv s])
    show "current_slot_index nd < current_slot_index nd + 1" using idx by (rule word_less_succ)
    show "\<forall>s \<in> set ?ext. node_has_slot h s \<and> decision s \<noteq> None"
      using sub inv True dec by (auto simp: node_inv_def)
    show "sorted_wrt (<) (map sl_index ?ext)"
      unfolding trim_externalized_drop drop_map [symmetric] by (rule sorted_wrt_drop [OF srt])
    show "\<forall>s \<in> set ?ext. sl_index s \<le> current_slot_index nd"
      using sub srt by (auto simp: sorted_wrt_append current_slot_index_def less_imp_le)
  qed
qed

lemma slot_answer_decision:
  assumes "call_ok recv s [m] t" and "topic m = Externalize p"
  shows "decision t \<noteq> None"
  using assms(1)
proof (cases rule: call_okE)
  case (2 m')
  with assms(2) externalize_decision [of t m p] show ?thesis by auto
qed simp

text \<open>A call on the current slot whose answer, if any, may advance the node.\<close>

lemma node_inv_answer:
  assumes inv: "node_inv n q f g h nd recv sent" and c: "slot_calls (nd_current_slot nd) ms out s"
    and ms: "set ms \<subseteq> {m \<in> set recv. msg_slot_index m = current_slot_index nd}" and idx: "current_slot_index nd < - 1"
    and r: "out = [m]" "externalize_if a m (nd\<lparr>nd_current_slot := s\<rparr>) = Some nd'"
  shows "\<exists>h. node_inv n q f g h nd' recv (sent @ out)"
proof -
  obtain r t where hist: "slot_history n q f g (nd_current_slot nd) r t"
    using inv ss.has_slot_history unfolding node_inv_def by metis
  note ok = slot_calls_ok [OF hist c]
  obtain h2 where h2: "node_inv n q f g h2 (nd\<lparr>nd_current_slot := s\<rparr>) recv (sent @ out)"
    using node_inv_call [OF inv c ms] by blast
  show ?thesis
  proof (rule node_inv_externalize_if [OF h2 r(2)])
    show "decision (nd_current_slot (nd\<lparr>nd_current_slot := s\<rparr>)) \<noteq> None" if "topic m = Externalize p" for p
      using slot_answer_decision [OF _ that] ok r(1) by simp
    show "current_slot_index (nd\<lparr>nd_current_slot := s\<rparr>) < - 1"
      using call_ok_step(2) [OF ok] idx by (simp add: current_slot_index_def same_identity_def)
  qed
qed

lemma handle_messages_calls:
  "ambient_ok a \<Longrightarrow> handle_messages a s ms = Some (mo, t) \<Longrightarrow>
   slot_calls s ms (case mo of None \<Rightarrow> [] | Some m \<Rightarrow> [m]) t"
  unfolding slot_calls_def by (intro exI [of _ a] exI [of _ "Deliver ms"]) (simp split: option.split)

lemma propose_values_calls:
  "ambient_ok a \<Longrightarrow> finite vals \<Longrightarrow> propose_values a s vals = Some (mo, t) \<Longrightarrow>
   slot_calls s [] (case mo of None \<Rightarrow> [] | Some m \<Rightarrow> [m]) t"
  unfolding slot_calls_def by (intro exI [of _ a] exI [of _ "Propose vals"]) (simp split: option.split)

lemma process_timeouts_calls:
  "ambient_ok a \<Longrightarrow> process_timeouts a s = Some (out, t) \<Longrightarrow> slot_calls s [] out t"
  unfolding slot_calls_def by (intro exI [of _ a] exI [of _ Timeouts]) simp

lemma node_inv_propose:
  assumes inv: "node_inv n q f g h nd recv sent" and a: "ambient_ok a" and "finite vals"
    and idx: "current_slot_index nd < - 1" and run: "node_propose_values a nd vals = Some (mo, nd')"
  shows "\<exists>h. node_inv n q f g h nd' recv (sent @ (case mo of None \<Rightarrow> [] | Some m \<Rightarrow> [m]))"
proof (cases "Set.is_empty vals")
  case True
  with run inv show ?thesis by (auto simp: node_propose_values_def)
next
  case False
  with run obtain s where p: "propose_values a (nd_current_slot nd) vals = Some (mo, s)"
    and r: "(case mo of None \<Rightarrow> nd' = nd\<lparr>nd_current_slot := s\<rparr>
       | Some m \<Rightarrow> externalize_if a m (nd\<lparr>nd_current_slot := s\<rparr>) = Some nd')"
    by (auto simp: node_propose_values_def Let_def elim!: run_elims split: option.split_asm)
  note c = propose_values_calls [OF a assms(3) p]
  show ?thesis
  proof (cases mo)
    case None
    with node_inv_call [OF inv c] r show ?thesis by simp
  next
    case (Some m)
    with node_inv_answer [OF inv c _ idx, of m a nd'] r show ?thesis by simp
  qed
qed

lemma node_inv_mono: "node_inv n q f g h nd recv sent \<Longrightarrow> node_inv n q f g h nd (recv @ recv') sent"
  unfolding node_inv_def using ss.slots_ok_mono by blast

lemma node_inv_externalized_slots:
  assumes inv: "node_inv n q f g h nd recv sent" and a: "ambient_ok a"
    and run: "slots_handle_messages sl_index (handle_messages a) groups (nd_externalized_slots nd) = Some (outs, slots)"
    and groups: "\<forall>i ms. groups i = Some ms \<longrightarrow> set ms \<subseteq> {m \<in> set recv. msg_slot_index m = i}"
  shows "\<exists>h. node_inv n q f g h (nd\<lparr>nd_externalized_slots := slots\<rparr>) recv (sent @ outs)"
proof -
  have d: "distinct (map sl_index (nd_externalized_slots nd))" and
    cur: "sl_index (nd_current_slot nd) \<notin> sl_index ` set (nd_externalized_slots nd)"
    using inv by (auto simp: node_inv_def sorted_wrt_append strict_sorted_iff)
  have ok: "node_slots_ok n q f g h recv sent" "\<forall>s \<in> set (nd_externalized_slots nd). node_has_slot h s"
    using inv by (auto simp: node_inv_def)
  obtain h' where h': "node_slots_ok n q f g h' recv (sent @ outs)" "\<forall>s \<in> set slots. node_has_slot h' s"
    "map sl_index slots = map sl_index (nd_externalized_slots nd)"
    "\<forall>i. i \<notin> sl_index ` set (nd_externalized_slots nd) \<longrightarrow> h' i = h i" "dom h' = dom h"
    "list_all2 (\<lambda>s s'. \<forall>v. decision s = Some v \<longrightarrow> decision s' = Some v) (nd_externalized_slots nd) slots"
    using ss.slots_handle_messages_ok [OF run _ ok(1,2) d groups] handle_messages_calls [OF a]
    by (elim meta_impE exE conjE) (simp, blast)
  have "\<forall>s \<in> set slots. decision s \<noteq> None"
    using h'(6) inv unfolding node_inv_def list_all2_conv_all_nth
    by (metis in_set_conv_nth not_None_eq)
  moreover have "node_has_slot h' (nd_current_slot nd)"
    using inv h'(4) cur by (auto simp: node_inv_def ss.has_slot_def)
  ultimately have "node_inv n q f g h' (nd\<lparr>nd_externalized_slots := slots\<rparr>) recv (sent @ outs)"
    using inv h'(1-3,5) by (simp add: node_inv_def current_slot_index_def)
  then show ?thesis by blast
qed

lemma node_inv_handle:
  assumes inv: "node_inv n q f g h nd recv sent" and a: "ambient_ok a"
    and idx: "current_slot_index nd < - 1" and run: "node_handle_messages a nd msgs = Some (out, nd')"
  shows "\<exists>h. node_inv n q f g h nd' (recv @ msgs) (sent @ out)"
proof -
  let ?ms = "filter (\<lambda>m. msg_slot_index m \<le> sl_index (nd_current_slot nd)) (filter (\<lambda>m. sender_id m \<noteq> nd_ID nd) msgs)"
  let ?groups = "map_of (group_by_slot ?ms [])"
  from run obtain outs slots
    where ext: "slots_handle_messages sl_index (handle_messages a) ?groups (nd_externalized_slots nd) = Some (outs, slots)"
      and cur: "node_handle_current a (?groups (sl_index (nd_current_slot nd))) outs
        (nd\<lparr>nd_externalized_slots := slots\<rparr>) = Some (out, nd')"
    unfolding node_handle_messages_def Let_def by (auto elim!: run_elims)
  have groups: "\<forall>i ms. ?groups i = Some ms \<longrightarrow> set ms \<subseteq> {m \<in> set (recv @ msgs). msg_slot_index m = i}"
    by (auto simp: group_by_slot_lookup Let_def split: if_split_asm)
  let ?nd = "nd\<lparr>nd_externalized_slots := slots\<rparr>"
  obtain h2 where h2: "node_inv n q f g h2 ?nd (recv @ msgs) (sent @ outs)"
    using node_inv_externalized_slots [OF node_inv_mono [OF inv] a ext groups] by blast
  have idx2: "current_slot_index ?nd < - 1" using idx by (simp add: current_slot_index_def)
  show ?thesis
  proof (cases "?groups (sl_index (nd_current_slot nd))")
    case None
    with cur h2 show ?thesis by (auto simp: node_handle_current_def)
  next
    case (Some ms)
    from cur Some obtain mo slot where p: "handle_messages a (nd_current_slot ?nd) ms = Some (mo, slot)"
      and r: "(case mo of None \<Rightarrow> out = outs \<and> nd' = ?nd\<lparr>nd_current_slot := slot\<rparr>
         | Some m \<Rightarrow> out = outs @ [m] \<and> externalize_if a m (?nd\<lparr>nd_current_slot := slot\<rparr>) = Some nd')"
      by (auto simp: node_handle_current_def Let_def elim!: run_elims split: option.split_asm)
    note c = handle_messages_calls [OF a p]
    have ms: "set ms \<subseteq> {m \<in> set (recv @ msgs). msg_slot_index m = current_slot_index ?nd}"
      using groups Some by (simp add: current_slot_index_def)
    show ?thesis
    proof (cases mo)
      case None
      with node_inv_call [OF h2 c ms] r show ?thesis by simp
    next
      case (Some m)
      with node_inv_answer [OF h2 c ms idx2, of m a nd'] r show ?thesis by simp
    qed
  qed
qed

lemma node_inv_step:
  assumes inv: "node_inv n q f g h nd recv sent" and "ambient_ok a" and "node_event_ok nd e"
    and idx: "current_slot_index nd < - 1" and run: "node_step a nd e = Some (out, nd')"
  shows "\<exists>h. node_inv n q f g h nd' (recv @ node_delivered e) (sent @ out)"
proof (cases e)
  case (NPropose vals)
  with assms node_inv_propose [of n q f g h nd recv sent a vals _ nd'] show ?thesis by (auto elim!: run_elims)
next
  case (NDeliver msgs)
  with assms node_inv_handle show ?thesis by simp
next
  case NTimeouts
  with run obtain s where p: "process_timeouts a (nd_current_slot nd) = Some (out, s)"
    and "nd' = nd\<lparr>nd_current_slot := s\<rparr>"
    by (auto simp: node_process_timeouts_def elim!: run_elims)
  with node_inv_call [OF inv process_timeouts_calls [OF assms(2) p]] NTimeouts show ?thesis by simp
next
  case (NReset i)
  with run inv obtain s where "slot_new a n q i f g = Some s" "out = []"
    "nd' = nd\<lparr>nd_current_slot := s, nd_externalized_slots := []\<rparr>"
    by (auto simp: reset_slot_index_def node_inv_def elim!: run_elims)
  with node_inv_next_slot [OF inv, of a i s "[]"] assms(3) NReset show ?thesis by simp
next
  case (NSetMax k)
  with run inv have "node_inv n q f g h nd' (recv @ node_delivered e) (sent @ out)"
    by (auto simp: set_max_externalized_slots_def node_inv_def current_slot_index_def)
  then show ?thesis by blast
qed

lemma node_run_inv:
  assumes "node_run n q f g nd recv sent"
  shows "\<exists>h. node_inv n q f g h nd recv sent"
  using assms
proof induction
  case (new a i nd)
  then show ?case by (rule node_inv_new)
next
  case (step nd recv sent a e out nd')
  from step.IH obtain h where "node_inv n q f g h nd recv sent" by blast
  from node_inv_step [OF this step.hyps(2-5)] show ?case .
qed

subsection \<open>What a node reports\<close>

lemma get_externalized_values_slot:
  assumes "node_inv n q f g h nd recv sent"
  shows "get_externalized_values nd i =
    (case get_externalized_slot nd i of None \<Rightarrow> Some None | Some s \<Rightarrow> Some (decision s))"
    and "get_externalized_slot nd i = Some s \<Longrightarrow>
      decision s = Some (b_X (sl_B s)) \<and> sl_phase s = PhExternalize \<and> sl_index s = i \<and> node_has_slot h s"
proof -
  have slot: "s \<in> set (nd_externalized_slots nd) \<and> sl_index s = i" if "get_externalized_slot nd i = Some s" for s
    using that by (auto simp: get_externalized_slot_def find_Some_iff)
  have dec: "decision s = Some (b_X (sl_B s)) \<and> sl_phase s = PhExternalize \<and> sl_index s = i \<and> node_has_slot h s"
    and "\<exists>m p. sl_last_sent_msg s = Some m \<and> topic m = Externalize p \<and> decision s = Some (b_X (ext_C p))"
    if "get_externalized_slot nd i = Some s" for s
    using slot [OF that] assms by (auto simp: node_inv_def decision_def split: if_split_asm)
  then show "get_externalized_values nd i =
      (case get_externalized_slot nd i of None \<Rightarrow> Some None | Some s \<Rightarrow> Some (decision s))"
    by (fastforce simp: get_externalized_values_def split: option.split)
  show "get_externalized_slot nd i = Some s \<Longrightarrow>
      decision s = Some (b_X (sl_B s)) \<and> sl_phase s = PhExternalize \<and> sl_index s = i \<and> node_has_slot h s"
    by (rule dec)
qed

text \<open>
  The correct nodes run the code of the node, and a message they received in the name of a
  correct node was sent by it.
\<close>

definition correct_network ::
  "'id::linorder set \<Rightarrow> ('id \<Rightarrow> 'id quorum_set) \<Rightarrow> ('id \<Rightarrow> 'v::linorder \<Rightarrow> 'e + unit) \<Rightarrow>
   ('id \<Rightarrow> 'v list \<Rightarrow> 'e + 'v list) \<Rightarrow> ('id \<Rightarrow> ('id, 'v, 'e) node) \<Rightarrow>
   ('id \<Rightarrow> ('id, 'v) msg list) \<Rightarrow> ('id \<Rightarrow> ('id, 'v) msg list) \<Rightarrow> bool" where
  "correct_network C qs vf cf nd recv sent \<longleftrightarrow>
     (\<forall>n \<in> C. node_run n (qs n) (vf n) (cf n) (nd n) (recv n) (sent n)) \<and>
     (\<forall>n \<in> C. \<forall>m \<in> set (recv n). sender_id m \<in> C \<longrightarrow> m \<in> set (sent (sender_id m)))"

text \<open>The slots of one index in a network of nodes, with the correct nodes that worked on it.\<close>

lemma network_slots:
  assumes "correct_network C qs vf cf nd recv sent"
    and inv: "\<forall>n \<in> C. node_inv n (qs n) (vf n) (cf n) (h n) (nd n) (recv n) (sent n)"
  shows "correct_nodes C {n \<in> C. h n i \<noteq> None} qs i vf cf
    (\<lambda>n. fst (the (h n i))) (\<lambda>n. fst (snd (the (h n i)))) (\<lambda>n. snd (snd (the (h n i))))"
  unfolding correct_nodes_def
proof (intro conjI ballI impI)
  fix n assume n: "n \<in> {n \<in> C. h n i \<noteq> None}"
  then obtain s r t where h: "h n i = Some (s, r, t)" by auto
  have ok: "slot_history n (qs n) (vf n) (cf n) s r t" "sl_index s = i" "set r \<subseteq> {m \<in> set (recv n). msg_slot_index m = i}"
    using inv n ss.slots_okD(1) [where h = "h n" and i = i, OF _ h] unfolding node_inv_def by blast+
  then show "slot_run n (qs n) i (vf n) (cf n) (fst (the (h n i))) (fst (snd (the (h n i)))) (snd (snd (the (h n i))))"
    by (simp add: h slot_history_def)
  fix m assume "m \<in> set (fst (snd (the (h n i))))" and c: "sender_id m \<in> C"
  with ok(3) h have m: "m \<in> set (recv n)" "msg_slot_index m = i" by auto
  with assms(1) n c have "m \<in> set (sent (sender_id m))" by (auto simp: correct_network_def)
  then obtain s' r' t' where "h (sender_id m) i = Some (s', r', t')" "m \<in> set t'"
    using inv c m(2) ss.slots_okD(2) unfolding node_inv_def by metis
  with c show "sender_id m \<in> {n \<in> C. h n i \<noteq> None}" "m \<in> set (snd (snd (the (h (sender_id m) i))))"
    by auto
qed auto

lemma nodes_agree:
  assumes net: "correct_network C qs vf cf nd recv sent" and "quorum_intersection C qs"
    and "a \<in> C" and "b \<in> C"
    and "get_externalized_values (nd a) i = Some (Some v)" and "get_externalized_values (nd b) i = Some (Some w)"
  shows "v = w"
proof -
  from net have "\<forall>n \<in> C. \<exists>h. node_inv n (qs n) (vf n) (cf n) h (nd n) (recv n) (sent n)"
    by (auto simp: correct_network_def intro: node_run_inv)
  then obtain h where inv: "\<forall>n \<in> C. node_inv n (qs n) (vf n) (cf n) (h n) (nd n) (recv n) (sent n)"
    by metis
  have ext: "h n i \<noteq> None \<and> sl_phase (fst (the (h n i))) = PhExternalize \<and> b_X (sl_B (fst (the (h n i)))) = u"
    if "n \<in> C" "get_externalized_values (nd n) i = Some (Some u)" for n u
  proof -
    note g = get_externalized_values_slot [OF inv [rule_format, OF that(1)]]
    from that(2) g(1) obtain s where s: "get_externalized_slot (nd n) i = Some s" "decision s = Some u"
      by (auto split: option.split_asm)
    with g(2) [OF s(1)] show ?thesis by (auto simp: ss.has_slot_def)
  qed
  from slots_agree [OF network_slots [OF net inv, of i] assms(2), of a b] ext [OF assms(3,5)] ext [OF assms(4,6)] assms(3,4)
  show ?thesis by auto
qed

end
