(* ===== verification/Scp_Example.thy ===== *)
theory Scp_Example
  imports Scp_Node
begin

section \<open>Concrete runs\<close>

text \<open>
  Runs computed from lists of events: two nodes that trust each other and externalize a value, which
  instantiate the hypotheses of the theorems about runs, and a network of four nodes in which a
  late one aborts.
\<close>

fun run_events ::
  "('id::linorder, 'v::linorder) ambient \<Rightarrow> ('id, 'v, 'e) slot \<times> ('id, 'v) msg list \<times> ('id, 'v) msg list \<Rightarrow>
   ('id, 'v) event list \<Rightarrow> (('id, 'v, 'e) slot \<times> ('id, 'v) msg list \<times> ('id, 'v) msg list) run" where
  "run_events a c [] = Some c"
| "run_events a (s, recv, sent) (e # es) = do {
     (out, t) \<leftarrow> slot_step a s e;
     run_events a (t, recv @ delivered e, sent @ out) es }"

definition run_node ::
  "('id::linorder, 'v::linorder) ambient \<Rightarrow> 'id \<Rightarrow> 'id quorum_set \<Rightarrow> u64 \<Rightarrow> ('v \<Rightarrow> 'e + unit) \<Rightarrow>
   ('v list \<Rightarrow> 'e + 'v list) \<Rightarrow> ('id, 'v) event list \<Rightarrow>
   (('id, 'v, 'e) slot \<times> ('id, 'v) msg list \<times> ('id, 'v) msg list) run" where
  "run_node a n q i f g es = do { s \<leftarrow> slot_new a n q i f g; run_events a (s, [], []) es }"

lemma run_events_slot_run:
  assumes "run_events a (s, recv, sent) es = Some (s', recv', sent')"
    and "slot_run n q i f g s recv sent" and "ambient_ok a" and "\<forall>e \<in> set es. event_ok e"
  shows "slot_run n q i f g s' recv' sent'"
  using assms
proof (induction es arbitrary: s recv sent)
  case (Cons e es)
  from Cons.prems(1) obtain out t where "slot_step a s e = Some (out, t)"
    and "run_events a (t, recv @ delivered e, sent @ out) es = Some (s', recv', sent')"
    by (auto elim!: run_elims)
  with Cons show ?case by (auto intro: slot_run.step)
qed simp

lemma run_node_slot_run:
  assumes "run_node a n q i f g es = Some (s, recv, sent)" and "ambient_ok a" and "\<forall>e \<in> set es. event_ok e"
  shows "slot_run n q i f g s recv sent"
  using assms by (auto simp: run_node_def elim!: run_elims intro: run_events_slot_run slot_run.new)

subsection \<open>Two nodes\<close>

definition ex_ambient :: "(int, int) ambient" where
  "ex_ambient = \<lparr>now = 0, node_iter = sorted_list_of_set, value_iter = sorted_list_of_set,
     fast_hash = (\<lambda>_. 0), key_bytes = (\<lambda>_. [])\<rparr>"

lemma ex_ambient_ok: "ambient_ok ex_ambient"
  by (simp add: ambient_ok_def ex_ambient_def)

definition ex_quorum_set :: "int \<Rightarrow> int quorum_set" where
  "ex_quorum_set n = new_with_node_ids 1 [3 - n]"

definition ex_validity :: "int \<Rightarrow> unit + unit" where
  "ex_validity v = (if v < 0 then Inl () else Inr ())"

definition ex_combine :: "int list \<Rightarrow> unit + int list" where
  "ex_combine vs = Inr vs"

definition ex_msg :: "int \<Rightarrow> int topic \<Rightarrow> (int, int) msg" where
  "ex_msg n t = msg_new n (ex_quorum_set n) 7 t"

definition ex_prepare :: "int ballot option \<Rightarrow> u32 \<Rightarrow> u32 \<Rightarrow> int prepare_payload" where
  "ex_prepare p c h = \<lparr>prep_B = Ballot 1 [5], prep_P = p, prep_PP = None, prep_CN = c, prep_HN = h\<rparr>"

definition ex_events :: "int \<Rightarrow> (int, int) event list" where
  "ex_events n =
     (if n = 1 then [Propose {5},
        Deliver [ex_msg 2 (Nominate \<lparr>nom_X = [], nom_Y = [5]\<rparr>)],
        Deliver [ex_msg 2 (NominatePrepare \<lparr>nom_X = [], nom_Y = [5]\<rparr> (ex_prepare (Some (Ballot 1 [5])) 0 0))],
        Deliver [ex_msg 2 (Commit \<lparr>com_B = Ballot 1 [5], com_PN = 1, com_CN = 1, com_HN = 1\<rparr>)]]
      else [Propose {5},
        Deliver [ex_msg 1 (Nominate \<lparr>nom_X = [5], nom_Y = []\<rparr>)],
        Deliver [ex_msg 1 (NominatePrepare \<lparr>nom_X = [], nom_Y = [5]\<rparr> (ex_prepare None 0 0))],
        Deliver [ex_msg 1 (Prepare (ex_prepare (Some (Ballot 1 [5])) 1 1))],
        Deliver [ex_msg 1 (Externalize \<lparr>ext_C = Ballot 1 [5], ext_HN = 1\<rparr>)]])"

definition ex_run :: "int \<Rightarrow> ((int, int, unit) slot \<times> (int, int) msg list \<times> (int, int) msg list) run" where
  "ex_run n = run_node ex_ambient n (ex_quorum_set n) 7 ex_validity ex_combine (ex_events n)"

definition ex_state :: "int \<Rightarrow> (int, int, unit) slot" where
  "ex_state n = (case ex_run n of Some (s, _) \<Rightarrow> s | None \<Rightarrow> slot_init n (ex_quorum_set n) 7 ex_validity ex_combine)"

definition ex_recv :: "int \<Rightarrow> (int, int) msg list" where
  "ex_recv n = (case ex_run n of Some (_, r, _) \<Rightarrow> r | None \<Rightarrow> [])"

definition ex_sent :: "int \<Rightarrow> (int, int) msg list" where
  "ex_sent n = (case ex_run n of Some (_, _, r) \<Rightarrow> r | None \<Rightarrow> [])"

lemma ex_events_ok: "\<forall>e \<in> set (ex_events n). event_ok e"
  by (simp add: ex_events_def)

lemma ex_run_ok: "ex_run 1 \<noteq> None" "ex_run 2 \<noteq> None"
  by code_simp+

lemma ex_slot_run:
  assumes "n \<in> {1, 2}"
  shows "slot_run n (ex_quorum_set n) 7 ex_validity ex_combine (ex_state n) (ex_recv n) (ex_sent n)"
proof -
  from ex_run_ok assms obtain s r t where e: "ex_run n = Some (s, r, t)" by fastforce
  then have "run_node ex_ambient n (ex_quorum_set n) 7 ex_validity ex_combine (ex_events n) = Some (s, r, t)"
    by (simp add: ex_run_def)
  from run_node_slot_run [OF this ex_ambient_ok ex_events_ok] e show ?thesis
    by (simp add: ex_state_def ex_recv_def ex_sent_def)
qed

lemma ex_externalized:
  "sl_phase (ex_state 1) = PhExternalize" "sl_phase (ex_state 2) = PhExternalize"
  "b_X (sl_B (ex_state 1)) = [5]"
  by code_simp+

lemma ex_authentic:
  "list_all (\<lambda>m. sender_id m = 2 \<and> m \<in> set (ex_sent 2)) (ex_recv 1)"
  "list_all (\<lambda>m. sender_id m = 1 \<and> m \<in> set (ex_sent 1)) (ex_recv 2)"
  by code_simp+

lemma ex_correct_nodes:
  "correct_nodes {1, 2} {1, 2} ex_quorum_set 7 (\<lambda>_. ex_validity) (\<lambda>_. ex_combine) ex_state ex_recv ex_sent"
  using ex_slot_run ex_authentic by (auto simp: correct_nodes_def list_all_iff)

lemma ex_quorum_intersection: "quorum_intersection {1, 2} ex_quorum_set"
proof -
  have "{1, 2} \<subseteq> Q" if Q: "Q \<inter> {1, 2} \<noteq> {}" "\<forall>n \<in> Q \<inter> {1, 2}. sat Q (ex_quorum_set n)" for Q :: "int set"
  proof -
    have "sat Q (ex_quorum_set n) \<longleftrightarrow> 3 - n \<in> Q" for n
      by (simp add: ex_quorum_set_def new_with_node_ids_def qs_new_def)
    with Q(2) have "1 \<in> Q \<Longrightarrow> 2 \<in> Q" "2 \<in> Q \<Longrightarrow> 1 \<in> Q"
      by (auto dest: bspec [of _ _ 1] bspec [of _ _ 2])
    with Q(1) show ?thesis by auto
  qed
  then show ?thesis unfolding quorum_intersection_def by (metis Int_iff empty_iff insertI1 subset_iff)
qed

subsection \<open>The same exchange between two nodes\<close>

text \<open>The events of a node carry the time on its clock.\<close>

fun run_node_events ::
  "('id::linorder, 'v::linorder) ambient \<Rightarrow> ('id, 'v, 'e) node \<times> ('id, 'v) msg list \<times> ('id, 'v) msg list \<Rightarrow>
   (int \<times> ('id, 'v) node_event) list \<Rightarrow> (('id, 'v, 'e) node \<times> ('id, 'v) msg list \<times> ('id, 'v) msg list) run" where
  "run_node_events a c [] = Some c"
| "run_node_events a (nd, recv, sent) ((k, e) # es) = do {
     rust_assert (current_slot_index nd < - 1);
     (out, nd) \<leftarrow> node_step (a\<lparr>now := k\<rparr>) nd e;
     run_node_events a (nd, recv @ node_delivered e, sent @ out) es }"

lemma run_node_events_node_run:
  fixes nd :: "('id::linorder, 'v::linorder, 'e) node"
  assumes "run_node_events a (nd, recv, sent) es = Some (nd', recv', sent')"
    and "node_run n q f g nd recv sent" and "ambient_ok a"
    and "\<forall>(k, e) \<in> set es. \<forall>nd :: ('id, 'v, 'e) node. node_event_ok nd e"
  shows "node_run n q f g nd' recv' sent'"
  using assms
proof (induction es arbitrary: nd recv sent)
  case (Cons ke es)
  obtain k e where ke: "ke = (k, e)" by (cases ke)
  from Cons.prems(1) obtain out t where step: "node_step (a\<lparr>now := k\<rparr>) nd e = Some (out, t)" "current_slot_index nd < - 1"
    and rest: "run_node_events a (t, recv @ node_delivered e, sent @ out) es = Some (nd', recv', sent')"
    by (auto simp: ke elim!: run_elims)
  have "ambient_ok (a\<lparr>now := k\<rparr>)" using Cons.prems(3) by (simp add: ambient_ok_def)
  then have "node_run n q f g t (recv @ node_delivered e) (sent @ out)"
    using node_run.step [OF Cons.prems(2) _ _ step(2,1)] Cons.prems(4) by (simp add: ke)
  from Cons.IH [OF rest this] Cons.prems(3,4) show ?case by simp
qed simp

text \<open>A node of a network, from its quorum set and its events.\<close>

definition net_run ::
  "(int \<Rightarrow> int quorum_set) \<Rightarrow> (int \<Rightarrow> (int \<times> (int, int) node_event) list) \<Rightarrow> int \<Rightarrow>
   ((int, int, unit) node \<times> (int, int) msg list \<times> (int, int) msg list) run" where
  "net_run qs es n = do {
     nd \<leftarrow> node_new ex_ambient n (qs n) ex_validity ex_combine 7;
     run_node_events ex_ambient (nd, [], []) (es n) }"

lemma net_run_node_run:
  assumes "net_run qs es n \<noteq> None"
    and "\<forall>(k, e) \<in> set (es n). \<forall>nd :: (int, int, unit) node. node_event_ok nd e"
  shows "node_run n (qs n) ex_validity ex_combine
    (fst (the (net_run qs es n))) (fst (snd (the (net_run qs es n)))) (snd (snd (the (net_run qs es n))))"
proof -
  from assms(1) obtain nd r t where e: "net_run qs es n = Some (nd, r, t)" by auto
  then obtain nd0 where "node_new ex_ambient n (qs n) ex_validity ex_combine 7 = Some nd0"
    and "run_node_events ex_ambient (nd0, [], []) (es n) = Some (nd, r, t)"
    by (auto simp: net_run_def elim!: run_elims)
  from run_node_events_node_run [OF this(2) node_run.new [OF this(1)] ex_ambient_ok assms(2)] e show ?thesis by simp
qed

fun node_event_of :: "('id, 'v) event \<Rightarrow> ('id, 'v) node_event" where
  "node_event_of (Propose vals) = NPropose vals"
| "node_event_of (Deliver msgs) = NDeliver msgs"
| "node_event_of Timeouts = NTimeouts"

definition ex_node_events :: "int \<Rightarrow> (int \<times> (int, int) node_event) list" where
  "ex_node_events n = map (\<lambda>e. (0, node_event_of e)) (ex_events n)"

lemma ex_node_events_ok: "\<forall>(k, e) \<in> set (ex_node_events n). \<forall>nd. node_event_ok nd e"
  by (simp add: ex_node_events_def ex_events_def)

definition ex_node_run :: "int \<Rightarrow> ((int, int, unit) node \<times> (int, int) msg list \<times> (int, int) msg list) run" where
  "ex_node_run = net_run ex_quorum_set ex_node_events"

definition ex_node :: "int \<Rightarrow> (int, int, unit) node" where
  "ex_node n = fst (the (ex_node_run n))"

definition ex_node_recv :: "int \<Rightarrow> (int, int) msg list" where
  "ex_node_recv n = fst (snd (the (ex_node_run n)))"

definition ex_node_sent :: "int \<Rightarrow> (int, int) msg list" where
  "ex_node_sent n = snd (snd (the (ex_node_run n)))"

lemma ex_node_run_ok: "ex_node_run 1 \<noteq> None" "ex_node_run 2 \<noteq> None"
  by code_simp+

lemma ex_node_run_run:
  assumes "n \<in> {1, 2}"
  shows "node_run n (ex_quorum_set n) ex_validity ex_combine (ex_node n) (ex_node_recv n) (ex_node_sent n)"
proof -
  from ex_node_run_ok assms have "net_run ex_quorum_set ex_node_events n \<noteq> None" by (auto simp: ex_node_run_def)
  from net_run_node_run [OF this ex_node_events_ok] show ?thesis
    by (simp add: ex_node_def ex_node_recv_def ex_node_sent_def ex_node_run_def)
qed

lemma ex_node_authentic:
  "list_all (\<lambda>m. sender_id m = 2 \<and> m \<in> set (ex_node_sent 2)) (ex_node_recv 1)"
  "list_all (\<lambda>m. sender_id m = 1 \<and> m \<in> set (ex_node_sent 1)) (ex_node_recv 2)"
  by code_simp+

lemma ex_correct_network:
  "correct_network {1, 2} ex_quorum_set (\<lambda>_. ex_validity) (\<lambda>_. ex_combine) ex_node ex_node_recv ex_node_sent"
  using ex_node_run_run ex_node_authentic by (auto simp: correct_network_def list_all_iff)

lemma ex_node_values:
  "get_externalized_values (ex_node 1) 7 = Some (Some [5])"
  "get_externalized_values (ex_node 2) 7 = Some (Some [5])"
  "current_slot_index (ex_node 1) = 8" "current_slot_index (ex_node 2) = 8"
  by code_simp+

subsection \<open>A node that is late\<close>

text \<open>
  Four nodes, each of which trusts any two of the others, so that three nodes are a quorum. Nodes 1, 2 and 3
  nominate the value 5, confirm the ballot with counter 1 as prepared and vote to commit it; then
  their ballot timers fire before they hear of each other's votes, and they move to counter 2. Node 0
  has not heard anything so far.
\<close>

definition late_quorum_set :: "int \<Rightarrow> int quorum_set" where
  "late_quorum_set n = new_with_node_ids 2 (filter (\<lambda>k. k \<noteq> n) [0, 1, 2, 3])"

definition late_msg :: "int topic \<Rightarrow> int \<Rightarrow> (int, int) msg" where
  "late_msg t n = msg_new n (late_quorum_set n) 7 t"

definition late_round :: "int \<Rightarrow> int topic \<Rightarrow> int \<times> (int, int) node_event" where
  "late_round n t = (0, NDeliver (map (late_msg t) (filter (\<lambda>k. k \<noteq> n) [1, 2, 3])))"

definition late_events :: "int \<Rightarrow> (int \<times> (int, int) node_event) list" where
  "late_events n =
     (if n = 0 then [] else
       [(0, NPropose {5}),
        late_round n (Nominate \<lparr>nom_X = [5], nom_Y = []\<rparr>),
        late_round n (Nominate \<lparr>nom_X = [], nom_Y = [5]\<rparr>),
        late_round n (NominatePrepare \<lparr>nom_X = [], nom_Y = [5]\<rparr> (ex_prepare None 0 0)),
        late_round n (NominatePrepare \<lparr>nom_X = [], nom_Y = [5]\<rparr> (ex_prepare (Some (Ballot 1 [5])) 0 0)),
        (1000000, NTimeouts)])"

definition late_node :: "int \<Rightarrow> (int, int, unit) node" where
  "late_node n = fst (the (net_run late_quorum_set late_events n))"

definition late_recv :: "int \<Rightarrow> (int, int) msg list" where
  "late_recv n = fst (snd (the (net_run late_quorum_set late_events n)))"

definition late_sent :: "int \<Rightarrow> (int, int) msg list" where
  "late_sent n = snd (snd (the (net_run late_quorum_set late_events n)))"

lemma late_events_ok: "\<forall>(k, e) \<in> set (late_events n). \<forall>nd. node_event_ok nd e"
  by (simp add: late_events_def late_round_def)

text \<open>What a node sends, and what it receives from the others.\<close>

definition late_topics :: "int topic list" where
  "late_topics =
     [Nominate \<lparr>nom_X = [5], nom_Y = []\<rparr>,
      Nominate \<lparr>nom_X = [], nom_Y = [5]\<rparr>,
      NominatePrepare \<lparr>nom_X = [], nom_Y = [5]\<rparr> (ex_prepare None 0 0),
      NominatePrepare \<lparr>nom_X = [], nom_Y = [5]\<rparr> (ex_prepare (Some (Ballot 1 [5])) 0 0),
      Prepare (ex_prepare (Some (Ballot 1 [5])) 1 1),
      Prepare \<lparr>prep_B = Ballot 2 [5], prep_P = Some (Ballot 1 [5]), prep_PP = None, prep_CN = 1, prep_HN = 1\<rparr>]"

definition late_history :: "int \<Rightarrow> bool" where
  "late_history n = (case net_run late_quorum_set late_events n of
       None \<Rightarrow> False
     | Some (_, recv, sent) \<Rightarrow>
         sent = map (\<lambda>t. late_msg t n) late_topics \<and>
         recv = concat (map (\<lambda>t. map (late_msg t) (filter (\<lambda>k. k \<noteq> n) [1, 2, 3])) (take 4 late_topics)))"

lemma late_histories: "late_history 1" "late_history 2" "late_history 3"
  by code_simp+

lemma late_start: "case net_run late_quorum_set late_events 0 of None \<Rightarrow> False | Some (_, recv, _) \<Rightarrow> recv = []"
  by code_simp

lemma late_runs:
  assumes "n \<in> {0, 1, 2, 3}"
  shows "net_run late_quorum_set late_events n \<noteq> None"
  using assms late_histories late_start by (auto simp: late_history_def split: option.split_asm)

lemma late_sent_topics:
  assumes "n \<in> {1, 2, 3}"
  shows "late_sent n = map (\<lambda>t. late_msg t n) late_topics"
  using assms late_histories by (auto simp: late_history_def late_sent_def split: option.split_asm)

lemma late_recv_topics:
  assumes "n \<in> {0, 1, 2, 3}" and "m \<in> set (late_recv n)"
  shows "\<exists>k \<in> {1, 2, 3}. \<exists>t \<in> set late_topics. m = late_msg t k"
  using assms late_histories late_start
  by (auto simp: late_history_def late_recv_def split: option.split_asm dest!: in_set_takeD)

lemma late_correct_network:
  "correct_network {0, 1, 2, 3} late_quorum_set (\<lambda>_. ex_validity) (\<lambda>_. ex_combine) late_node late_recv late_sent"
  unfolding correct_network_def
proof (intro conjI ballI impI)
  fix n :: int assume n: "n \<in> {0, 1, 2, 3}"
  show "node_run n (late_quorum_set n) ex_validity ex_combine (late_node n) (late_recv n) (late_sent n)"
    using net_run_node_run [OF late_runs [OF n] late_events_ok] by (simp add: late_node_def late_recv_def late_sent_def)
  fix m assume "m \<in> set (late_recv n)"
  from late_recv_topics [OF n this] obtain t k where m: "t \<in> set late_topics" "k \<in> {1, 2, 3}" "m = late_msg t k"
    by blast
  have "sender_id m = k" by (simp add: m(3) late_msg_def msg_new_def)
  with late_sent_topics [OF m(2)] m(1,3) show "m \<in> set (late_sent (sender_id m))" by simp
qed

lemma late_sat:
  "sat Q (late_quorum_set 0) \<longleftrightarrow> 1 \<in> Q \<and> 2 \<in> Q \<or> 1 \<in> Q \<and> 3 \<in> Q \<or> 2 \<in> Q \<and> 3 \<in> Q"
  "sat Q (late_quorum_set 1) \<longleftrightarrow> 0 \<in> Q \<and> 2 \<in> Q \<or> 0 \<in> Q \<and> 3 \<in> Q \<or> 2 \<in> Q \<and> 3 \<in> Q"
  "sat Q (late_quorum_set 2) \<longleftrightarrow> 0 \<in> Q \<and> 1 \<in> Q \<or> 0 \<in> Q \<and> 3 \<in> Q \<or> 1 \<in> Q \<and> 3 \<in> Q"
  "sat Q (late_quorum_set 3) \<longleftrightarrow> 0 \<in> Q \<and> 1 \<in> Q \<or> 0 \<in> Q \<and> 2 \<in> Q \<or> 1 \<in> Q \<and> 2 \<in> Q"
  by (auto simp: late_quorum_set_def new_with_node_ids_def qs_new_def)

text \<open>A quorum leaves out one node at most, so two of them meet.\<close>

lemma late_quorum_intersection: "quorum_intersection {0, 1, 2, 3} late_quorum_set"
proof -
  have three: "0 \<in> Q \<and> 1 \<in> Q \<and> 2 \<in> Q \<or> 0 \<in> Q \<and> 1 \<in> Q \<and> 3 \<in> Q \<or> 0 \<in> Q \<and> 2 \<in> Q \<and> 3 \<in> Q \<or> 1 \<in> Q \<and> 2 \<in> Q \<and> 3 \<in> Q"
    if Q: "Q \<inter> {0, 1, 2, 3} \<noteq> {}" "\<forall>n \<in> Q \<inter> {0, 1, 2, 3}. sat Q (late_quorum_set n)" for Q :: "int set"
  proof -
    have "0 \<in> Q \<Longrightarrow> sat Q (late_quorum_set 0)" "1 \<in> Q \<Longrightarrow> sat Q (late_quorum_set 1)"
      "2 \<in> Q \<Longrightarrow> sat Q (late_quorum_set 2)" "3 \<in> Q \<Longrightarrow> sat Q (late_quorum_set 3)" using Q(2) by blast+
    with Q(1) show ?thesis unfolding late_sat by blast
  qed
  show ?thesis unfolding quorum_intersection_def
  proof (intro allI impI)
    fix Q Q' :: "int set"
    assume "Q \<inter> {0, 1, 2, 3} \<noteq> {}" "Q' \<inter> {0, 1, 2, 3} \<noteq> {}"
      "\<forall>n \<in> Q \<inter> {0, 1, 2, 3}. sat Q (late_quorum_set n)" "\<forall>n \<in> Q' \<inter> {0, 1, 2, 3}. sat Q' (late_quorum_set n)"
    with three [of Q] three [of Q'] show "Q \<inter> Q' \<inter> {0, 1, 2, 3} \<noteq> {}" by blast
  qed
qed

text \<open>The messages of nodes 1 and 2 on counter 2, and the state in which node 0 enters the prepare phase with them.\<close>

definition late_ballots :: "(int, int) msg list" where
  "late_ballots = map (late_msg (Prepare \<lparr>prep_B = Ballot 2 [5], prep_P = Some (Ballot 1 [5]),
     prep_PP = None, prep_CN = 1, prep_HN = 1\<rparr>)) [1, 2]"

definition late_entry :: "(int, int, unit) slot run" where
  "late_entry = do {
     let s = nd_current_slot (late_node 0);
     s \<leftarrow> do_nominate_phase ex_ambient (snd (store_msgs s (msgs_for_slot s late_ballots)));
     maybe_set_ballot_timer ex_ambient s }"

lemma late_ballots_sent:
  "list_all (\<lambda>m. sender_id m \<in> {1, 2} \<and> m \<in> set (late_sent (sender_id m))) late_ballots"
  by (simp add: late_ballots_def late_msg_def msg_new_def late_sent_topics) (simp add: late_topics_def late_msg_def msg_new_def)

lemma late_step: "node_step ex_ambient (late_node 0) (NDeliver late_ballots) = None"
  by code_simp

lemma late_inner_commits:
  "case late_entry of
     None \<Rightarrow> False
   | Some s \<Rightarrow> (case prepare_pass ex_ambient s of
        Some (Rerun u) \<Rightarrow> (case do_prepare_phase ex_ambient u of None \<Rightarrow> False | Some t \<Rightarrow> sl_phase t = PhCommit)
      | _ \<Rightarrow> False)"
  by code_simp

text \<open>The nominations node 0 would receive from nodes 1 and 2, and what its store then shows.\<close>

definition late_nominations :: "(int, int) msg list" where
  "late_nominations = map (late_msg (Nominate \<lparr>nom_X = [], nom_Y = [5]\<rparr>)) [1, 2]"

definition late_nominated :: "(int \<times> (int, int) msg) list \<Rightarrow> bool" where
  "late_nominated M \<longleftrightarrow> list_all (\<lambda>k. case map_of M k of None \<Rightarrow> False | Some m \<Rightarrow> supports_value accepts_nominated m 5) [1, 2]"

lemma late_nomination_run:
  "case slot_new ex_ambient 0 (late_quorum_set 0) 7 ex_validity ex_combine of
     None \<Rightarrow> False
   | Some s \<Rightarrow> slot_step ex_ambient s (Deliver late_nominations) \<noteq> None \<and> sl_phase s = PhNominatePrepare \<and>
       late_nominated (sl_M (snd (store_msgs s (msgs_for_slot s late_nominations))))"
  by code_simp

lemma late_nomination:
  obtains s out t where "slot_new ex_ambient 0 (late_quorum_set 0) 7 ex_validity ex_combine = Some s"
    and "slot_step ex_ambient s (Deliver late_nominations) = Some (out, t)" and "sl_phase s = PhNominatePrepare"
    and "late_nominated (sl_M (snd (store_msgs s (msgs_for_slot s late_nominations))))"
proof (cases "slot_new ex_ambient 0 (late_quorum_set 0) 7 ex_validity ex_combine")
  case None
  with late_nomination_run show ?thesis by (simp only: option.case simp_thms)
next
  case (Some s)
  with late_nomination_run have r: "slot_step ex_ambient s (Deliver late_nominations) \<noteq> None \<and>
      sl_phase s = PhNominatePrepare \<and> late_nominated (sl_M (snd (store_msgs s (msgs_for_slot s late_nominations))))"
    by (simp only: option.case simp_thms)
  then obtain out t where "slot_step ex_ambient s (Deliver late_nominations) = Some (out, t)" by fast
  with Some r that show ?thesis by blast
qed

end
