(* ===== verification/Scp_Nomination.thy ===== *)
theory Scp_Nomination
  imports Scp_Agreement
begin

section \<open>Nomination of reachable slots\<close>

text \<open>
  While a slot nominates it follows the nodes it depends on: whatever a blocking set accepts as
  nominated, as far as the stored messages show, the slot has accepted too. The nomination
  phase never aborts on a slot whose voted and accepted values are disjoint, it establishes
  this, and every call on the slot keeps it.
\<close>

definition blocking_accepts :: "('id, 'v, 'e) slot \<Rightarrow> 'v \<Rightarrow> bool" where
  "blocking_accepts s v \<longleftrightarrow>
     (\<exists>S. S \<noteq> {} \<and> blocking (sl_quorum_set s) S \<and>
        (\<forall>k \<in> S. \<exists>m. map_of (sl_M s) k = Some m \<and> supports_value accepts_nominated m v))"

definition follows_blocking :: "('id, 'v, 'e) slot \<Rightarrow> bool" where
  "follows_blocking s \<longleftrightarrow> (\<forall>v. blocking_accepts s v \<longrightarrow> v \<in> sl_Y s)"

lemma follows_blocking_mono:
  assumes "follows_blocking s" and "sl_M t = sl_M s" and "sl_quorum_set t = sl_quorum_set s" and "sl_Y s \<subseteq> sl_Y t"
  shows "follows_blocking t"
  using assms by (auto simp: follows_blocking_def blocking_accepts_def)

lemma follows_blocking_cong:
  "same_inputs s t \<Longrightarrow> same_nomination s t \<Longrightarrow> follows_blocking s \<Longrightarrow> follows_blocking t"
  by (erule follows_blocking_mono) (simp_all add: same_defs)

subsection \<open>The nomination phase returns\<close>

lemma vote_nominate_returns: "sl_X s \<inter> sl_Y s = {} \<Longrightarrow> \<exists>t. vote_nominate s = Some t \<and> sl_X t \<inter> sl_Y t = {}"
  by (auto simp: vote_nominate_def rust_assert_def Let_def)

lemma update_YZ_returns:
  assumes "sl_X s \<inter> sl_Y s = {}"
  shows "\<exists>t. update_YZ s = Some t"
proof -
  obtain A where A: "additional_values_accepted_nominated s = Some A"
    using additional_values_accepted_nominated_returns by blast
  obtain C where "additional_values_confirmed_nominated (s\<lparr>sl_X := sl_X s - A, sl_Y := sl_Y s \<union> A\<rparr>) = Some C"
    using additional_values_confirmed_nominated_returns by blast
  moreover have "(sl_X s - A) \<inter> (sl_Y s \<union> A) = {}" using assms by blast
  ultimately show ?thesis using A by (simp add: update_YZ_def rust_assert_def Let_def)
qed

lemma do_nominate_phase_returns:
  assumes "sl_phase s = PhNominatePrepare" and "sl_X s \<inter> sl_Y s = {}"
  shows "\<exists>t. do_nominate_phase a s = Some t"
proof -
  have "sl_X (schedule_next_nomination_round a s) \<inter> sl_Y (schedule_next_nomination_round a s) = {}"
    using assms(2) schedule_next_nomination_round_frame(2) [of s a] by (simp add: same_nomination_def)
  from vote_nominate_returns [OF this] obtain s1
    where 1: "vote_nominate (schedule_next_nomination_round a s) = Some s1" "sl_X s1 \<inter> sl_Y s1 = {}" by blast
  from update_YZ_returns [OF 1(2)] obtain s2 where "update_YZ s1 = Some s2" by blast
  with 1(1) assms(1) show ?thesis by (simp add: do_nominate_phase_def rust_assert_def)
qed

subsection \<open>The nomination phase follows blocking sets\<close>

lemma update_YZ_follows:
  assumes "update_YZ s = Some t" and "store_ok s recv"
    and "is_valid (sl_quorum_set s)" and "qs_size (sl_quorum_set s) < 2 ^ 32"
  shows "follows_blocking t"
  unfolding follows_blocking_def
proof (intro allI impI)
  fix v assume "blocking_accepts t v"
  then obtain S where S: "S \<noteq> {}" "blocking (sl_quorum_set s) S"
    "\<forall>k \<in> S. \<exists>m. map_of (sl_M s) k = Some m \<and> supports_value accepts_nominated m v"
    using update_YZ_frame(1) [OF assms(1)] by (auto simp: blocking_accepts_def same_inputs_def)
  have "\<forall>k \<in> S. k \<noteq> sl_node_id s"
    using S(3) assms(2) unfolding store_ok_def M_inv_def stored_ok_def by blast
  with S obtain A where "additional_values_accepted_nominated s = Some A" "v \<in> A"
    using accepted_nominated_complete [OF assms(3,4) S(2,1), of v] by blast
  with assms(1) show "v \<in> sl_Y t" by (auto elim: update_YZ_sets)
qed

lemma nominate_follows:
  assumes "do_nominate_phase a s = Some t" and "store_ok s recv"
    and "is_valid (sl_quorum_set s)" and "qs_size (sl_quorum_set s) < 2 ^ 32"
  shows "follows_blocking t"
  using assms(1)
proof (cases rule: do_nominate_phaseE)
  case (1 s1 s2)
  have same: "same_inputs s s1" "sl_phase s1 = sl_phase s"
    using schedule_next_nomination_round_frame [where s = s and a = a] vote_nominate_frame [OF 1(2)]
    by (auto simp: same_inputs_def same_ballots_def)
  with assms(2) have "store_ok s1 recv" by (auto intro: store_ok_inputs)
  with update_YZ_follows [OF 1(3)] assms(3,4) same(1) have "follows_blocking s2" by (simp add: same_inputs_def)
  with 1(4) show ?thesis using start_ballot_frame(1,3) follows_blocking_cong by blast
qed

lemma protocol_same:
  assumes "do_ballot_protocol a s = Some t" and "store_ok s recv" and "commit_range_ok s"
  shows "same_inputs s t" and "same_nomination s t"
  using do_ballot_protocol_step(1) [OF assms(1) store_ok_M_valid [OF assms(2)] assms(3)]
  by (auto simp: ballot_step_def)

lemma nominate_protocol_follows:
  assumes "do_nominate_phase a s = Some s1" and "do_ballot_protocol a s1 = Some s2" and "out_msg s2 = Some (mo, t)"
    and "store_ok s recv" and "nom_inv s" and "commit_range_ok s"
    and "is_valid (sl_quorum_set s)" and "qs_size (sl_quorum_set s) < 2 ^ 32"
  shows "follows_blocking t"
proof -
  note n = nominate_inv [OF assms(1,4,5,6)]
  have "follows_blocking s2"
    using nominate_follows [OF assms(1,4,7,8)] protocol_same [OF assms(2) n(1,4)] by (blast intro: follows_blocking_cong)
  then show ?thesis using assms(3) by (auto elim!: out_msgE intro: follows_blocking_mono)
qed

subsection \<open>Every call keeps it\<close>

lemma store_msgs_unstored:
  assumes "store_msgs s ms = (b, t)" and "\<not> b"
  shows "cache_step s t"
  using assms
proof (induction ms arbitrary: s b)
  case (Cons m ms)
  obtain b1 s1 where 1: "store_msg s m = (b1, s1)" by (cases "store_msg s m")
  with Cons.prems obtain b2 where 2: "store_msgs s1 ms = (b2, t)" "\<not> b1" "\<not> b2"
    by (auto split: prod.splits)
  from 1 2(2) have "cache_step s s1" by (auto elim: store_msgE)
  with Cons.IH [OF 2(1,3)] show ?case by (blast intro: cache_step_trans)
qed simp

lemma follows_blocking_cache: "cache_step s t \<Longrightarrow> follows_blocking s \<Longrightarrow> follows_blocking t"
  by (rule follows_blocking_mono [of s]) (auto simp: cache_step_def)

lemma store_msgs_inv:
  assumes "store_msgs s (msgs_for_slot s msgs) = (b, s1)" and "slot_inv s recv"
  shows "store_ok s1 (recv @ msgs)" "nom_inv s1" "commit_range_ok s1" "same_identity s s1" "sl_phase s1 = sl_phase s"
proof -
  have inv: "store_ok s recv" "nom_inv s" "phase_inv s" using assms(2) by (auto simp: slot_inv_def)
  have st: "store_step s s1" "store_ok s1 (recv @ msgs)"
    using store_msgs_step [OF assms(1) slot_inv_mono [OF inv(1)]] by (auto simp: msgs_for_slot_set)
  then show "store_ok s1 (recv @ msgs)" by simp
  show "nom_inv s1" "commit_range_ok s1" "same_identity s s1" "sl_phase s1 = sl_phase s"
    using st(1) inv(2) phase_inv_range [OF inv(3)]
    by (auto simp: store_step_def nom_inv_def commit_range_ok_def same_identity_def)
qed

text \<open>After the handler the store is what the message loop made of it.\<close>

lemma deliver_store:
  assumes "slot_step a s (Deliver msgs) = Some (out, t)" and "slot_inv s recv"
    and "store_msgs s (msgs_for_slot s msgs) = (b, s1)"
  shows "sl_M t = sl_M s1"
proof (cases b)
  case False
  with assms(1,3) show ?thesis by (auto simp: handle_messages_def elim!: run_elims)
next
  case True
  with assms(1,3) obtain mo s2 s3
    where n: "(if sl_phase s1 = PhNominatePrepare then do_nominate_phase a s1 else Some s1) = Some s2"
      and p: "do_ballot_protocol a s2 = Some s3" and o: "out_msg s3 = Some (mo, t)"
    by (auto simp: handle_messages_def elim!: run_elims)
  note s1 = store_msgs_inv [OF assms(3,2)]
  have "same_inputs s1 s2 \<and> store_ok s2 (recv @ msgs) \<and> commit_range_ok s2"
  proof (cases "sl_phase s1 = PhNominatePrepare")
    case True
    with n have "do_nominate_phase a s1 = Some s2" by simp
    then show ?thesis using do_nominate_phase_frame(1) nominate_inv(1,4) [OF _ s1(1-3)] by blast
  next
    case False
    with n s1 show ?thesis by simp
  qed
  with protocol_same(1) [OF p] have "sl_M s3 = sl_M s1" by (auto simp: same_inputs_def)
  with o show ?thesis by (auto elim!: out_msgE)
qed

lemma propose_follows:
  assumes "propose_values a s vals = Some (mo, t)" and "slot_inv s recv" and "follows_blocking s"
    and "is_valid (sl_quorum_set s)" and "qs_size (sl_quorum_set s) < 2 ^ 32"
  shows "follows_blocking t"
proof (cases "sl_phase s = PhNominatePrepare \<and> Set.is_empty (sl_Z s)")
  case False
  with assms(1,3) show ?thesis
    by (auto simp: propose_values_def elim!: out_msgE intro: follows_blocking_mono)
next
  case True
  obtain ws s1 where f: "filter_valid s (sorted_list_of_set vals) = (ws, s1)"
    by (cases "filter_valid s (sorted_list_of_set vals)")
  have c: "cache_step s s1" using filter_valid_step [OF f] by simp
  then obtain V where s1: "s1 = s\<lparr>sl_valid_values := V\<rparr>" by (auto simp: cache_step_def)
  have inv: "store_ok s1 recv" "nom_inv s" "phase_inv s"
    using assms(2) c by (auto simp: slot_inv_def intro: store_ok_cache_step)
  show ?thesis
  proof (cases "ws = []")
    case True
    with assms(1) f \<open>sl_phase s = PhNominatePrepare \<and> Set.is_empty (sl_Z s)\<close> have "t = s1"
      by (auto simp: propose_values_def)
    with c assms(3) show ?thesis by (blast intro: follows_blocking_cache)
  next
    case False
    let ?s2 = "s1\<lparr>sl_W := sl_W s1 \<union> set ws\<rparr>"
    from assms(1) True f False obtain s3 s4 where n: "do_nominate_phase a ?s2 = Some s3"
      "do_ballot_protocol a s3 = Some s4" "out_msg s4 = Some (mo, t)"
      by (auto simp: propose_values_def elim!: run_elims)
    have "store_ok ?s2 recv" "nom_inv ?s2" "commit_range_ok ?s2"
      using inv s1 phase_inv_range [OF inv(3)] by (simp_all add: frame_simps nom_inv_def commit_range_ok_def)
    from nominate_protocol_follows [OF n this] assms(4,5) s1 show ?thesis by simp
  qed
qed

lemma handle_follows:
  assumes "handle_messages a s msgs = Some (mo, t)" and "slot_inv s recv" and "follows_blocking s"
    and "sl_phase s = PhNominatePrepare" and "is_valid (sl_quorum_set s)" and "qs_size (sl_quorum_set s) < 2 ^ 32"
  shows "follows_blocking t"
proof -
  obtain b s1 where st: "store_msgs s (msgs_for_slot s msgs) = (b, s1)"
    by (cases "store_msgs s (msgs_for_slot s msgs)")
  note s1 = store_msgs_inv [OF st assms(2)]
  show ?thesis
  proof (cases b)
    case False
    with assms(1) st have "t = s1" by (auto simp: handle_messages_def)
    with store_msgs_unstored [OF st False] assms(3) show ?thesis by (blast intro: follows_blocking_cache)
  next
    case True
    with assms(1,4) st s1(5) obtain s2 s3 where n: "do_nominate_phase a s1 = Some s2"
      "do_ballot_protocol a s2 = Some s3" "out_msg s3 = Some (mo, t)"
      by (auto simp: handle_messages_def elim!: run_elims)
    from nominate_protocol_follows [OF n s1(1-3)] assms(5,6) s1(4) show ?thesis by (simp add: same_identity_def)
  qed
qed

lemma nomination_timeout_follows:
  assumes "nomination_timeout a s = Some (b, t)" and "slot_inv s recv" and "follows_blocking s"
    and "is_valid (sl_quorum_set s)" and "qs_size (sl_quorum_set s) < 2 ^ 32"
  shows "follows_blocking t"
proof (cases "case sl_next_nominate_round_at s of Some t \<Rightarrow> now a > t | None \<Rightarrow> False")
  case False
  with assms(1,3) show ?thesis by (auto simp: nomination_timeout_def)
next
  case True
  with assms(1) obtain r peers
    where n: "do_nominate_phase a ((cancel_next_nomination_round s)
        \<lparr>sl_nominate_round := r, sl_max_priority_peers := peers\<rparr>) = Some t"
    by (auto simp: nomination_timeout_def Let_def elim!: run_elims)
  show ?thesis
    by (rule nominate_follows [OF n, of recv])
       (use assms(2,4,5) in \<open>simp_all add: slot_inv_def cancel_next_nomination_round_def store_ok_def
          cache_ok_def M_inv_def M_values_ok_def\<close>)
qed

lemma ballot_timeout_follows:
  assumes "ballot_timeout a s = Some (b, t)" and "slot_inv s recv" and "follows_blocking s"
  shows "follows_blocking t"
proof (cases "case sl_next_ballot_at s of Some t \<Rightarrow> now a > t | None \<Rightarrow> False")
  case False
  with assms(1,3) show ?thesis by (auto simp: ballot_timeout_def)
next
  case True
  with assms(1) obtain s1 where p: "do_ballot_protocol a s1 = Some t"
    and n: "next_ballot a (cancel_next_ballot_timer s) = Some s1"
    by (auto simp: ballot_timeout_def elim!: run_elims)
  obtain B where s1: "s1 = s\<lparr>sl_next_ballot_at := None, sl_B := B\<rparr>"
    using next_ballot_frame [OF n] by (auto simp: cancel_next_ballot_timer_def)
  have "store_ok s1 recv" "commit_range_ok s1"
    using assms(2) phase_inv_range [of s] s1
    by (simp_all add: slot_inv_def store_ok_def cache_ok_def M_inv_def M_values_ok_def commit_range_ok_def)
  moreover have "follows_blocking s1" using assms(3) by (rule follows_blocking_mono) (simp_all add: s1)
  ultimately show ?thesis using protocol_same [OF p] by (blast intro: follows_blocking_cong)
qed

lemma timeouts_follow:
  assumes "process_timeouts a s = Some (out, t)" and "slot_inv s recv" and "follows_blocking s"
    and "is_valid (sl_quorum_set s)" and "qs_size (sl_quorum_set s) < 2 ^ 32"
  shows "follows_blocking t"
proof -
  from assms(1) obtain b1 s1 b2 s2 where 1: "nomination_timeout a s = Some (b1, s1)"
    and 2: "ballot_timeout a s1 = Some (b2, s2)"
    and o: "t = s2 \<or> (\<exists>mo. out_msg s2 = Some (mo, t))"
    by (auto simp: process_timeouts_def elim!: run_elims split: if_split_asm)
  have "slot_inv s1 recv" using nomination_timeout_ok(1) [OF 1 assms(2)] by (simp add: good_step_def)
  with ballot_timeout_follows [OF 2] nomination_timeout_follows [OF 1 assms(2-5)] have "follows_blocking s2" by blast
  with o show ?thesis by (auto elim!: out_msgE intro: follows_blocking_mono)
qed

lemma slot_step_follows:
  assumes "slot_step a s e = Some (out, t)" and "slot_inv s recv" and "follows_blocking s"
    and "sl_phase s = PhNominatePrepare" and "is_valid (sl_quorum_set s)" and "qs_size (sl_quorum_set s) < 2 ^ 32"
  shows "follows_blocking t"
proof (cases e)
  case (Propose vals)
  with assms propose_follows [of a s vals _ t recv] show ?thesis by (auto elim!: run_elims)
next
  case (Deliver msgs)
  with assms handle_follows [of a s msgs _ t recv] show ?thesis by (auto elim!: run_elims)
next
  case Timeouts
  with assms timeouts_follow [of a s out t recv] show ?thesis by simp
qed

lemma slot_run_follows:
  assumes "slot_run n q i f g s recv sent" and "is_valid q" and "qs_size q < 2 ^ 32"
  shows "sl_phase s = PhNominatePrepare \<Longrightarrow> follows_blocking s"
  using assms(1)
proof (induction rule: slot_run.induct)
  case (new a s)
  then have "sl_M s = []" by (cases rule: slot_new_fields) (simp add: slot_init_def)
  then show ?case by (auto simp: follows_blocking_def blocking_accepts_def)
next
  case (step s recv sent a e out t)
  have s: "slot_inv s recv" "sl_quorum_set s = q"
    using slot_run_inv [OF step.hyps(1)] by (auto simp: run_inv_def)
  have "value_fixed s t" using call_ok_step(3) [OF slot_step_ok [OF step.hyps(4) s(1) step.hyps(3)]] .
  with step.prems have "sl_phase s = PhNominatePrepare"
    by (cases "sl_phase s") (auto simp: value_fixed_def)
  with slot_step_follows [OF step.hyps(4) s(1) step.IH] s(2) assms(2,3) show ?case by simp
qed

end
