(* ===== verification/Scp_Values.thy ===== *)
theory Scp_Values
  imports Scp_Agreement
begin

section \<open>Validity of the values a slot works with\<close>

text \<open>
  Every value a slot holds, in its nomination sets and in its ballots, passed the validity
  function, as long as the combining function maps valid values to valid values. The values of
  stored messages are checked on arrival, except in the externalize phase, where the values of
  the ballot no longer change.
\<close>

definition msgs_in :: "'v set \<Rightarrow> ('id \<times> ('id, 'v) msg) list \<Rightarrow> bool" where
  "msgs_in V msgs \<longleftrightarrow> (\<forall>n m. map_of msgs n = Some m \<longrightarrow> msg_values m \<subseteq> V)"

definition ballots_in :: "'v set \<Rightarrow> ('id, 'v, 'e) slot \<Rightarrow> bool" where
  "ballots_in V s \<longleftrightarrow> set (b_X (sl_B s)) \<subseteq> V \<and> opt_ballot_values (sl_P s) \<subseteq> V \<and>
     opt_ballot_values (sl_PP s) \<subseteq> V \<and> opt_ballot_values (sl_H s) \<subseteq> V \<and> opt_ballot_values (sl_C s) \<subseteq> V"

definition sets_in :: "'v set \<Rightarrow> ('id, 'v, 'e) slot \<Rightarrow> bool" where
  "sets_in V s \<longleftrightarrow> sl_W s \<subseteq> V \<and> sl_X s \<subseteq> V \<and> sl_Y s \<subseteq> V \<and> sl_Z s \<subseteq> V"

definition combine_in :: "'v set \<Rightarrow> ('v list \<Rightarrow> 'e + 'v list) \<Rightarrow> bool" where
  "combine_in V g \<longleftrightarrow> (\<forall>vs ws. set vs \<subseteq> V \<longrightarrow> g vs = Inr ws \<longrightarrow> set ws \<subseteq> V)"

text \<open>What a computation on the slot may rely on.\<close>

definition values_ok :: "'v::linorder set \<Rightarrow> ('id, 'v, 'e) slot \<Rightarrow> bool" where
  "values_ok V s \<longleftrightarrow> ballots_in V s \<and> sets_in V s \<and> msgs_in V (sl_M s) \<and> M_valid s \<and>
     finite (sl_Z s) \<and> combine_in V (sl_combine_fn s)"

lemma opt_ballot_values_simps [simp]:
  "opt_ballot_values None = {}" "opt_ballot_values (Some b) = set (b_X b)"
  by (simp_all add: opt_ballot_values_def)

subsection \<open>The queries\<close>

lemma finite_below_some [simp]: "finite (below_some S) \<longleftrightarrow> finite S"
proof
  have "S \<subseteq> below_some S" by (auto simp: below_some_def ballot_below_def)
  then show "finite (below_some S) \<Longrightarrow> finite S" by (rule finite_subset)
  have "below_some S \<subseteq> (\<Union>c \<in> S. (\<lambda>n. Ballot n (b_X c)) ` UNIV)"
    by (auto simp: below_some_def ballot_below_def) (metis ballot.collapse rangeI)
  then show "finite S \<Longrightarrow> finite (below_some S)" by (rule finite_subset) simp
qed

lemma accepts_prepared_values: "b \<in> accepts_prepared m \<Longrightarrow> set (b_X b) \<subseteq> msg_values m"
  by (auto simp: accepts_prepared_def prepared_ballots_def msg_values_def opt_ballot_values_def
      split: topic.split_asm option.split_asm)

lemma accepted_prepared_candidates_in:
  "msgs_in V (sl_M s) \<Longrightarrow> b \<in> accepted_prepared_candidates s \<Longrightarrow> set (b_X b) \<subseteq> V"
  by (fastforce simp: accepted_prepared_candidates_def msgs_in_def dest: accepts_prepared_values
      split: option.split_asm)

lemma finite_accepted_prepared_candidates: "finite (accepted_prepared_candidates s)"
  by (auto simp: accepted_prepared_candidates_def split: option.split)

lemma finite_local_prepare_votes: "finite (local_prepare_votes s)"
  by (auto simp: local_prepare_votes_def split: option.split)

lemma local_prepare_votes_in: "ballots_in V s \<Longrightarrow> b \<in> local_prepare_votes s \<Longrightarrow> set (b_X b) \<subseteq> V"
  by (auto simp: local_prepare_votes_def ballots_in_def split: if_split_asm option.split_asm)

lemma accepted_prepared_in:
  assumes "ballots_accepted_prepared s = Some A" and "ballots_in V s" and "msgs_in V (sl_M s)"
  shows "finite A" and "b \<in> A \<Longrightarrow> set (b_X b) \<subseteq> V"
proof -
  have sub: "A \<subseteq> accepted_prepared_candidates s \<union> below_some (local_prepare_votes s)"
    using ballots_accepted_preparedE [OF assms(1)] by blast
  then show "finite A"
    by (rule finite_subset) (simp add: finite_accepted_prepared_candidates finite_local_prepare_votes)
  show "set (b_X b) \<subseteq> V" if "b \<in> A"
    using that sub accepted_prepared_candidates_in [OF assms(3)] local_prepare_votes_in [OF assms(2)]
    by (fastforce simp: below_some_def ballot_below_def)
qed

lemma confirmed_prepared_in:
  assumes "ballots_confirmed_prepared s = Some A" and "ballots_in V s" and "msgs_in V (sl_M s)"
  shows "finite A" and "b \<in> A \<Longrightarrow> set (b_X b) \<subseteq> V"
proof -
  from assms(1) obtain A0 where A0: "ballots_accepted_prepared s = Some A0" and sub: "A \<subseteq> below_some A0"
    by (rule ballots_confirmed_prepared_backed)
  note a = accepted_prepared_in [OF A0 assms(2,3)]
  show "finite A" using sub a(1) by (auto intro: finite_subset)
  show "set (b_X b) \<subseteq> V" if "b \<in> A"
    using that sub a(2) by (fastforce simp: below_some_def ballot_below_def)
qed

lemma iter_max_empty [simp]: "iter_max {} = None"
  by simp

lemma iter_max_mem: "iter_max S = Some x \<Longrightarrow> finite S \<Longrightarrow> x \<in> S"
  by (auto simp: iter_max_Some)

definition keys_in :: "'v set \<Rightarrow> 'v ballot_ranges \<Rightarrow> bool" where
  "keys_in V rs \<longleftrightarrow> (\<forall>v \<in> keys rs. set v \<subseteq> V)"

lemma keys_in_update: "keys_in V rs \<Longrightarrow> set v \<subseteq> V \<Longrightarrow> keys_in V (AList.update v r rs)"
  by (simp add: keys_in_def)

lemma accepted_committed_candidates_in:
  assumes "accepted_committed_candidates msgs ns acc = Some rs" and "msgs_in V msgs" and "keys_in V acc"
  shows "keys_in V rs"
  using assms(1,3)
proof (induction ns arbitrary: acc)
  case (Cons n ns)
  show ?case
  proof (cases "map_of msgs n")
    case (Some m)
    with assms(2) have m: "msg_values m \<subseteq> V" by (simp add: msgs_in_def)
    show ?thesis
    proof (cases "topic m")
      case (Commit p)
      with m have "set (b_X (com_B p)) \<subseteq> V" by (simp add: msg_values_def)
      with Cons.prems Some Commit show ?thesis by (auto elim!: run_elims intro: Cons.IH keys_in_update)
    next
      case (Externalize p)
      with m have "set (b_X (ext_C p)) \<subseteq> V" by (simp add: msg_values_def)
      with Cons.prems Some Externalize show ?thesis by (auto intro: Cons.IH keys_in_update)
    qed (use Cons Some in auto)
  qed (use Cons in auto)
qed simp

lemma accepted_committed_in:
  assumes "ballots_accepted_committed a s = Some rs" and "values_ok V s" and "v \<in> keys rs"
  shows "set v \<subseteq> V"
proof -
  have M: "M_valid s" and V: "msgs_in V (sl_M s)" "set (b_X (sl_B s)) \<subseteq> V"
    using assms(2) by (auto simp: values_ok_def ballots_in_def)
  from assms(1) M show ?thesis
  proof (cases rule: ballots_accepted_committedE)
    case (1 cs bs vs Q p2)
    have "keys_in V cs" using accepted_committed_candidates_in [OF 1(3) V(1)] by (simp add: keys_in_def)
    then have "\<forall>v \<in> keys bs. set v \<subseteq> V" using 1(2) by (auto simp: keys_in_def)
    moreover have "set v \<subseteq> V" if "Q \<noteq> {}" "v \<in> keys (brp_ranges p2)" for v
    proof -
      note q = vote_range_quorum [OF 1(7) that(1) 1(6) M]
      from that(2) obtain lo hi where "(v, lo, hi) \<in> set (brp_ranges p2)" by auto
      with ranges_wfD [OF q(1)] have "(v, lo) \<in> range_ballots (brp_ranges p2)"
        by (fastforce simp: range_ballots_def)
      with q(2) have "(v, lo) \<in> range_ballots vs" by blast
      with 1(5) have "v = b_X (sl_B s)"
        by (auto simp: local_commit_votes_def range_ballots_def elim!: run_elims split: option.split_asm)
      with V(2) show ?thesis by simp
    qed
    ultimately show ?thesis using assms(3) 1(8)
      by (auto simp: keys_fold_upsert_range split: if_split_asm)
  qed
qed

subsection \<open>The prepare phase\<close>

lemma value_iter_set: "ambient_ok a \<Longrightarrow> finite S \<Longrightarrow> set (value_iter a S) = S"
  by (simp add: ambient_ok_def)

lemma combine_inD: "combine_in V g \<Longrightarrow> set vs \<subseteq> V \<Longrightarrow> g vs = Inr ws \<Longrightarrow> set ws \<subseteq> V"
  by (simp add: combine_in_def)

lemma combined_values_in:
  assumes "combined_values a s = Some x" and "values_ok V s" and "ambient_ok a"
  shows "set x \<subseteq> V"
  using assms value_iter_set [OF assms(3), of "sl_Z s"]
  by (auto simp: combined_values_def values_ok_def sets_in_def
      split: if_split_asm sum.split_asm dest!: combine_inD)

lemma get_next_ballot_values_in:
  assumes "get_next_ballot_values a s = Some (Some x)" and "values_ok V s" and "ambient_ok a"
  shows "set x \<subseteq> V"
proof -
  have V: "ballots_in V s" "msgs_in V (sl_M s)" using assms(2) by (auto simp: values_ok_def)
  from assms(1) obtain A where A: "ballots_confirmed_prepared s = Some A"
    by (auto simp: get_next_ballot_values_def elim!: run_elims)
  note a = confirmed_prepared_in [OF A V]
  show ?thesis
  proof (cases "iter_max A")
    case (Some h)
    with assms(1) A have "x = b_X h" by (simp add: get_next_ballot_values_def)
    with a(2) iter_max_mem [OF Some a(1)] show ?thesis by simp
  next
    case None
    show ?thesis
    proof (cases "combined_values a s")
      case (Some y)
      with None assms(1) A have "x = y" by (simp add: get_next_ballot_values_def)
      with combined_values_in [OF Some assms(2,3)] show ?thesis by simp
    next
      case none: None
      with None assms(1) A obtain B where B: "ballots_accepted_prepared s = Some B"
        and x: "(case iter_max B of Some p \<Rightarrow> x = b_X p | None \<Rightarrow> x = b_X (sl_B s))"
        by (auto simp: get_next_ballot_values_def elim!: run_elims split: option.splits if_split_asm)
      note b = accepted_prepared_in [OF B V]
      from x b(2) iter_max_mem [OF _ b(1)] V(1) show ?thesis
        by (auto simp: ballots_in_def split: option.split_asm)
    qed
  qed
qed

lemma values_ok_step:
  assumes "values_ok V s" and "same_inputs s t" and "same_nomination s t" and "ballots_in V t"
  shows "values_ok V t"
  using assms by (simp add: values_ok_def sets_in_def same_inputs_def same_nomination_def)

lemma ballots_inI:
  assumes "ballots_in V s" and "set (b_X (sl_B t)) \<subseteq> V"
    and "opt_ballot_values (sl_P t) \<subseteq> V" and "opt_ballot_values (sl_PP t) \<subseteq> V"
    and "opt_ballot_values (sl_H t) \<subseteq> V" and "opt_ballot_values (sl_C t) \<subseteq> V"
  shows "ballots_in V t"
  using assms by (simp add: ballots_in_def)

lemma iter_max_in:
  assumes "\<And>b. b \<in> A \<Longrightarrow> set (b_X b) \<subseteq> V" and "finite A"
  shows "opt_ballot_values (iter_max A) \<subseteq> V"
  using assms iter_max_mem [of A] by (cases "iter_max A") auto

lemma iter_max_filter_in:
  assumes "\<And>b. b \<in> A \<Longrightarrow> set (b_X b) \<subseteq> V" and "finite A"
  shows "opt_ballot_values (iter_max (Set.filter Q A)) \<subseteq> V"
  by (rule iter_max_in) (use assms in auto)

lemma prepare_step1_in:
  assumes "prepare_step1 s = Some (Continue t)" and "values_ok V s"
  shows "ballots_in V t"
proof -
  have V: "ballots_in V s" "msgs_in V (sl_M s)" using assms(2) by (auto simp: values_ok_def)
  from assms(1) obtain A where A: "ballots_accepted_prepared s = Some A"
    by (auto simp: prepare_step1_def elim!: run_elims)
  note a = accepted_prepared_in [OF A V]
  note m = iter_max_in [OF a(2,1)] iter_max_filter_in [OF a(2,1)]
  show ?thesis
  proof (cases "iter_max A")
    case None
    with assms(1) A V(1) show ?thesis by (simp add: prepare_step1_def)
  next
    case (Some p)
    with assms(1) A have
      "t = s\<lparr>sl_P := Some p, sl_PP := iter_max (Set.filter (\<lambda>b. b < p \<and> b_X b \<noteq> b_X p) A)\<rparr>"
      by (simp add: prepare_step1_def split: if_split_asm)
    with V(1) m(1) m(2) [of "\<lambda>b. b < p \<and> b_X b \<noteq> b_X p"] Some show ?thesis by (simp add: ballots_in_def)
  qed
qed

lemma prepare_abort_C_in: "ballots_in V s \<Longrightarrow> ballots_in V (prepare_abort_C s)"
  by (auto simp: prepare_abort_C_def ballots_in_def split: option.split)

lemma prepare_step2_in:
  assumes "prepare_step2 s = Some t" and "values_ok V s"
  shows "ballots_in V t"
proof -
  have V: "ballots_in V s" "msgs_in V (sl_M s)" using assms(2) by (auto simp: values_ok_def)
  from assms(1) obtain A where A: "ballots_confirmed_prepared s = Some A"
    by (auto simp: prepare_step2_def elim!: run_elims)
  note a = confirmed_prepared_in [OF A V]
  show ?thesis
  proof (cases "iter_max A")
    case None
    with assms(1) A V(1) show ?thesis by (simp add: prepare_step2_def)
  next
    case (Some h)
    with a(2) iter_max_mem [OF Some a(1)] have "set (b_X h) \<subseteq> V" by simp
    with assms(1) A V(1) Some show ?thesis
      by (auto simp: prepare_step2_def Let_def ballots_in_def cancel_next_nomination_round_def max_def
          split: option.split_asm if_split_asm)
  qed
qed

lemma raise_above_X [simp]: "b_X (raise_above p c) = b_X c"
  by (simp add: raise_above_def split: option.split)

lemma raise_to_X [simp]: "b_X (raise_to b h) = b_X h"
  by (simp add: raise_to_def)

lemma prepare_step3_in: "prepare_step3 s = Some t \<Longrightarrow> ballots_in V s \<Longrightarrow> ballots_in V t"
  by (auto simp: prepare_step3_def Let_def ballots_in_def elim!: run_elims split: option.split_asm if_split_asm)

lemma prepare_step8_in: "ballots_in V s \<Longrightarrow> ballots_in V (prepare_step8 s)"
  by (auto simp: prepare_step8_def ballots_in_def split: option.split)

lemma finite_min_mem: "iter_min S = Some x \<Longrightarrow> finite S \<Longrightarrow> x \<in> S"
  by (auto simp: iter_min_Some)

lemma prepare_step4_in:
  assumes "prepare_step4 a s = Some (Return t)" and "values_ok V s"
  shows "set (b_X (sl_B t)) \<subseteq> V"
proof -
  from assms(1) obtain rs c h where rs: "ballots_accepted_committed a s = Some rs"
    and h: "iter_max ((\<lambda>(vals, lo, hi). Ballot hi vals) `
                Set.filter (\<lambda>(vals, _). vals = b_X c) (set rs)) = Some h"
    and t: "b_X (sl_B t) = b_X h"
    by (auto simp: prepare_step4_def Let_def cancel_next_nomination_round_def elim!: run_elims
        split: option.split_asm)
  have "h \<in> (\<lambda>(vals, lo, hi). Ballot hi vals) ` Set.filter (\<lambda>(vals, _). vals = b_X c) (set rs)"
    using h by (rule iter_max_mem) simp
  then have "b_X h \<in> keys rs" by force
  with accepted_committed_in [OF rs assms(2)] t show ?thesis by simp
qed

lemma prepare_step9_in:
  assumes "prepare_step9 a s = Some r" and "values_ok V s" and "ambient_ok a"
  shows "pred_flow (ballots_in V) r"
  using assms(1)
proof (cases rule: prepare_step9_cases)
  case 1
  with assms(2) show ?thesis by (simp add: values_ok_def)
next
  case (2 u x t)
  have "set x \<subseteq> V" using 2(5) assms(2,3) by (rule get_next_ballot_values_in)
  with assms(2) maybe_set_ballot_timer_frame(3,4) [OF 2(2)] 2(1) show ?thesis
    by (simp add: values_ok_def ballots_in_def same_ballots_def cancel_next_ballot_timer_def)
qed

text \<open>A pass that stays in the prepare phases keeps every ballot valid; one that leaves them, the value.\<close>

lemma prepare_pass_in:
  assumes "prepare_pass a s = Some r" and V: "values_ok V s" and a: "ambient_ok a"
  shows "pred_flow (\<lambda>t. set (b_X (sl_B t)) \<subseteq> V \<and> (\<not> committed t \<longrightarrow> ballots_in V t)) r"
  using assms(1)
proof (cases rule: prepare_passE)
  case early
  with V show ?thesis by (simp add: values_ok_def ballots_in_def)
next
  case (late s1 s2 s3 r4)
  from prepare_step1_step [OF late(2)] have s1: "ballot_step s s1" by auto
  have v1: "values_ok V s1"
    by (rule values_ok_step [OF V]) (use s1 prepare_step1_in [OF late(2) V] in \<open>auto simp: ballot_step_def\<close>)
  have "values_ok V (prepare_abort_C s1)"
    by (rule values_ok_step [OF v1])
       (use v1 prepare_abort_C_frame in \<open>auto simp: values_ok_def prepare_abort_C_in\<close>)
  then have v2: "values_ok V s2"
    using values_ok_step prepare_step2_frame(1,2) [OF late(3)] prepare_step2_in [OF late(3)] by blast
  have v3: "values_ok V s3"
    by (rule values_ok_step [OF v2])
       (use v2 prepare_step3_step(1) [OF late(4)] prepare_step3_in [OF late(4)] in
         \<open>auto simp: ballot_step_def values_ok_def\<close>)
  have v8: "values_ok V (prepare_step8 s3)"
    by (rule values_ok_step [OF v3])
       (use v3 prepare_step8_step(1) [of s3] in \<open>auto simp: ballot_step_def values_ok_def prepare_step8_in\<close>)
  from late(5) show ?thesis
  proof (cases rule: prepare_step4_cases)
    case 1
    with late(6) have 9: "prepare_step9 a (prepare_step8 s3) = Some r" by auto
    from prepare_step9_in [OF 9 v8 a] show ?thesis by (cases r) (auto simp: ballots_in_def)
  next
    case (2 t)
    with late(5,6) prepare_step4_in [of a s3 t V] v3 show ?thesis by (auto simp: committed_def)
  qed
qed

lemma values_ok_ballot_step: "values_ok V s \<Longrightarrow> ballot_step s t \<Longrightarrow> ballots_in V t \<Longrightarrow> values_ok V t"
  by (rule values_ok_step) (auto simp: ballot_step_def)

lemma prepare_not_committed: "prepare_phase_invariants s \<Longrightarrow> \<not> committed s"
  by (auto simp: prepare_phase_invariants_def committed_def)

lemma do_prepare_phase_in:
  fixes s t :: "('id, 'v::linorder, 'e) slot"
  assumes "do_prepare_phase a s = Some t" and V: "values_ok V s" and a: "ambient_ok a"
  shows "set (b_X (sl_B t)) \<subseteq> V \<and> (\<not> committed t \<longrightarrow> ballots_in V t)"
proof -
  let ?ok = "\<lambda>t. set (b_X (sl_B t)) \<subseteq> V \<and> (\<not> committed t \<longrightarrow> ballots_in V t)"
  have "prepare_phase_invariants s \<and> (values_ok V s \<longrightarrow> ambient_ok a \<longrightarrow> ?ok t)"
  proof (rule do_prepare_phase.raw_induct [OF _ assms(1)])
    fix f and a :: "('id, 'v) ambient" and s t :: "('id, 'v, 'e) slot"
    assume IH: "\<And>a s t. f a s = Some t \<Longrightarrow> prepare_phase_invariants s \<and> (values_ok V s \<longrightarrow> ambient_ok a \<longrightarrow> ?ok t)"
      and run: "do {
        r \<leftarrow> prepare_pass a s;
        case r of Return s \<Rightarrow> Some s
        | Continue s \<Rightarrow> do { check_prepare_phase_invariants s; Some s }
        | Rerun s \<Rightarrow> do { s \<leftarrow> f a s; check_prepare_phase_invariants s; Some s } } = Some t"
    from run obtain r where r: "prepare_pass a s = Some r"
      and t: "r = Return t \<or> r = Continue t \<or> (\<exists>u. r = Rerun u \<and> f a u = Some t)"
      by (auto simp: check_prepare_phase_invariants_def elim!: run_elims split: flow.split_asm)
    note p = prepare_pass_step [OF r] prepare_pass_in [OF r, of V]
    show "prepare_phase_invariants s \<and> (values_ok V s \<longrightarrow> ambient_ok a \<longrightarrow> ?ok t)"
    proof (rule conjI, rule p(1), intro impI)
      assume V: "values_ok V s" "ambient_ok a"
      show "?ok t"
        using t
      proof (elim disjE exE conjE)
        fix u assume u: "r = Rerun u" "f a u = Some t"
        with p(2) p(4) V have "ballot_step s u" "?ok u" by auto
        with V(1) IH [OF u(2)] have "values_ok V u"
          using values_ok_ballot_step [OF V(1)] prepare_not_committed [of u] by blast
        with IH [OF u(2)] V(2) show "?ok t" by blast
      qed (use p(4) V in auto)
    qed
  qed
  with V a show ?thesis by blast
qed

subsection \<open>Every call keeps the values valid\<close>

definition valid_set :: "('v \<Rightarrow> 'e + unit) \<Rightarrow> 'v set" where
  "valid_set f = {v. f v = Inr ()}"

text \<open>What is true of the values between two calls.\<close>

definition val_inv :: "'v set \<Rightarrow> ('id, 'v, 'e) slot \<Rightarrow> bool" where
  "val_inv V s \<longleftrightarrow> set (b_X (sl_B s)) \<subseteq> V \<and> (\<not> committed s \<longrightarrow> ballots_in V s \<and> sets_in V s)"

text \<open>The invariants of the slot that the argument needs.\<close>

definition val_ctx :: "('id, 'v::linorder) msg list \<Rightarrow> 'v set \<Rightarrow> ('id, 'v, 'e) slot \<Rightarrow> bool" where
  "val_ctx recv V s \<longleftrightarrow> store_ok s recv \<and> nom_inv s \<and> commit_range_ok s \<and>
     valid_set (sl_validity_fn s) = V \<and> combine_in V (sl_combine_fn s)"

lemma val_ctx_values_ok: "val_ctx recv V s \<Longrightarrow> val_inv V s \<Longrightarrow> \<not> committed s \<Longrightarrow> values_ok V s"
  using store_ok_M_valid [of s recv]
  by (fastforce simp: val_ctx_def val_inv_def values_ok_def nom_inv_def msgs_in_def valid_set_def
      store_ok_def M_values_ok_def committed_def)

lemma val_inv_cong:
  assumes "sl_B t = sl_B s" and "same_ballots s t" and "sl_W t = sl_W s" and "same_nomination s t"
  shows "val_inv V t \<longleftrightarrow> val_inv V s"
  using assms by (simp add: val_inv_def ballots_in_def sets_in_def same_ballots_def same_nomination_def committed_def)

lemma val_inv_fixed: "val_inv V s \<Longrightarrow> committed s \<Longrightarrow> value_fixed s t \<Longrightarrow> val_inv V t"
  by (simp add: val_inv_def value_fixed_def committed_rank)

lemma protocol_tail_fixed:
  assumes "(if sl_phase s = PhCommit then do_commit_phase a s else Some s) = Some s1"
    and "(if sl_phase s1 = PhExternalize then do_externalize_phase a s1 else Some s1) = Some t"
    and "commit_range_ok s" and "M_valid s" and "committed s"
  shows "value_fixed s t"
proof -
  have "prepare_phase_invariants s \<or> sl_phase s = PhCommit \<or> sl_phase s = PhExternalize"
    using assms(5) by (auto simp: committed_def)
  note c = protocol_commit_part [OF assms(1,3,4) this]
  then have "commit_range_ok s1"
    "prepare_phase_invariants s1 \<or> commit_phase_invariants s1 \<or> sl_phase s1 = PhExternalize" by auto
  from protocol_externalize_part [OF assms(2) this] c show ?thesis by (blast intro: value_fixed_trans)
qed

lemma protocol_in:
  assumes p: "do_ballot_protocol a s = Some t" and c: "val_ctx recv V s" and V: "val_inv V s"
    and a: "ambient_ok a"
  shows "val_inv V t"
proof (cases "committed s")
  case True
  have "M_valid s" "commit_range_ok s" using c store_ok_M_valid by (auto simp: val_ctx_def)
  with p have "value_fixed s t" by (rule do_ballot_protocol_step(2))
  with V True show ?thesis by (rule val_inv_fixed)
next
  case False
  from p obtain s1 s2 s3 where 1: "maybe_set_ballot_timer a s = Some s1"
    and 2: "(if sl_phase s1 = PhNominatePrepare \<or> sl_phase s1 = PhPrepare then do_prepare_phase a s1
             else Some s1) = Some s2"
    and 3: "(if sl_phase s2 = PhCommit then do_commit_phase a s2 else Some s2) = Some s3"
    and 4: "(if sl_phase s3 = PhExternalize then do_externalize_phase a s3 else Some s3) = Some t"
    by (auto simp: do_ballot_protocol_def elim!: run_elims)
  note f = maybe_set_ballot_timer_frame [OF 1]
  have s1: "val_inv V s1" "\<not> committed s1" "commit_range_ok s1" "M_valid s1"
    using val_inv_cong [OF f(4,3) _ f(2)] V False c f store_ok_M_valid [of s recv]
    by (auto simp: same_inputs_def same_ballots_def committed_def val_ctx_def commit_range_ok_def)
  have v1: "values_ok V s1"
    by (rule values_ok_step [OF val_ctx_values_ok [OF c V False] f(1,2)])
       (use s1 in \<open>simp add: val_inv_def\<close>)
  have d: "do_prepare_phase a s1 = Some s2"
    using 2 s1(2) by (cases "sl_phase s1") (auto simp: committed_def)
  note b = do_prepare_phase_step [OF d]
  have s2: "val_inv V s2"
    using do_prepare_phase_in [OF d v1 a] b s1(1,2)
    by (auto simp: val_inv_def sets_in_def ballot_step_def same_inputs_def same_nomination_def)
  show ?thesis
  proof (cases "committed s2")
    case True
    have "commit_range_ok s2" "M_valid s2"
      using b s1(4) ballot_step_M_valid prepare_range_ok by blast+
    with 3 4 True have "value_fixed s2 t" by (intro protocol_tail_fixed)
    with s2 True show ?thesis by (rule val_inv_fixed)
  next
    case False
    with 3 4 have "t = s2" by (auto simp: committed_def)
    with s2 show ?thesis by simp
  qed
qed

text \<open>Nomination takes values from the node's own proposals and from messages.\<close>

lemma msgs_in_set:
  "msgs_in V M \<Longrightarrow> distinct (map fst M) \<Longrightarrow> (n, m) \<in> set M \<Longrightarrow> msg_values m \<subseteq> V"
  by (simp add: msgs_in_def)

lemma UN_if_in:
  "(\<And>n m. (n, m) \<in> set M \<Longrightarrow> g m \<subseteq> V) \<Longrightarrow> (\<Union>(n, m) \<in> set M. if Q n then g m else {}) \<subseteq> V"
  "(\<And>n m. (n, m) \<in> set M \<Longrightarrow> g m \<subseteq> V) \<Longrightarrow> (\<Union>(n, m) \<in> set M. if Q n then {} else g m) \<subseteq> V"
  by (force split: if_split_asm)+

lemma nominated_values:
  "(case topic m of Nominate p \<Rightarrow> set (nom_X p) \<union> set (nom_Y p)
     | NominatePrepare p _ \<Rightarrow> set (nom_X p) \<union> set (nom_Y p) | _ \<Rightarrow> {}) \<subseteq> msg_values m"
  "(case accepts_nominated m of None \<Rightarrow> {} | Some vals \<Rightarrow> vals) \<subseteq> msg_values m"
  by (auto simp: accepts_nominated_def msg_values_def split: topic.split)

lemma leader_values_in:
  assumes "sl_W s \<subseteq> V" and "msgs_in V (sl_M s)" and "distinct (map fst (sl_M s))"
  shows "leader_values s \<subseteq> V"
  unfolding leader_values_def
proof (rule Un_least, use assms(1) in simp, rule UN_if_in(1))
  fix n m assume "(n, m) \<in> set (sl_M s)"
  with msgs_in_set [OF assms(2,3)] have "msg_values m \<subseteq> V" by blast
  with nominated_values(1) show "(case topic m of Nominate p \<Rightarrow> set (nom_X p) \<union> set (nom_Y p)
     | NominatePrepare p _ \<Rightarrow> set (nom_X p) \<union> set (nom_Y p) | _ \<Rightarrow> {}) \<subseteq> V" by (rule subset_trans)
qed

lemma accepted_nominated_in:
  assumes "additional_values_accepted_nominated s = Some A" and "msgs_in V (sl_M s)" and "sl_X s \<subseteq> V"
    and "distinct (map fst (sl_M s))"
  shows "A \<subseteq> V"
proof -
  have "accepted_nominated_candidates s \<subseteq> V"
    unfolding accepted_nominated_candidates_def
  proof (rule UN_if_in(2))
    fix n m assume "(n, m) \<in> set (sl_M s)"
    with msgs_in_set [OF assms(2,4)] have "msg_values m \<subseteq> V" by blast
    with nominated_values(2) show "(case accepts_nominated m of None \<Rightarrow> {} | Some vals \<Rightarrow> vals) \<subseteq> V"
      by (rule subset_trans)
  qed
  with accepted_nominated_source [OF assms(1)] assms(3) show ?thesis by blast
qed

text \<open>A nomination round.\<close>

lemma vote_nominate_in:
  assumes "vote_nominate s = Some t" and "values_ok V s" and "distinct (map fst (sl_M s))"
  shows "values_ok V t"
proof -
  have "leader_values s \<subseteq> V"
    using assms(2,3) by (intro leader_values_in) (auto simp: values_ok_def sets_in_def)
  with assms(2) vote_nominate_X [OF assms(1)] vote_nominate_frame [OF assms(1)] show ?thesis
    by (auto simp: values_ok_def sets_in_def ballots_in_def same_inputs_def same_ballots_def)
qed

lemma update_YZ_in:
  assumes "update_YZ s = Some t" and "values_ok V s" and "distinct (map fst (sl_M s))" and "finite (sl_Z t)"
  shows "values_ok V t"
  using assms(1)
proof (cases rule: update_YZ_sets)
  case (1 A C)
  have A: "A \<subseteq> V"
    using assms(2,3) by (intro accepted_nominated_in [OF 1(1)]) (auto simp: values_ok_def sets_in_def)
  have "sets_in V t"
    using 1 A assms(2) update_YZ_frame(1) [OF assms(1)]
    by (auto simp: values_ok_def sets_in_def same_inputs_def)
  then show ?thesis
    using assms(2,4) update_YZ_frame(1-3) [OF assms(1)]
    by (simp add: values_ok_def ballots_in_def same_inputs_def same_ballots_def)
qed

lemma start_ballot_in:
  assumes "values_ok V s" and "ambient_ok a"
  shows "values_ok V (start_ballot a s)"
proof (rule values_ok_step [OF assms(1) start_ballot_frame(1,3)])
  have "set x \<subseteq> V" if "\<not> Set.is_empty (sl_Z s)" "sl_combine_fn s (value_iter a (sl_Z s)) = Inr x" for x
    using that by (intro combined_values_in [OF _ assms, of x]) (simp add: combined_values_def)
  with assms(1) show "ballots_in V (start_ballot a s)"
    by (auto simp: start_ballot_def values_ok_def ballots_in_def split: sum.split)
qed

lemma nominate_in:
  assumes "do_nominate_phase a s = Some t" and "val_ctx recv V s" and "val_inv V s" and "ambient_ok a"
  shows "val_ctx recv V t" and "val_inv V t"
proof -
  have i: "store_ok s recv" "nom_inv s" "commit_range_ok s" using assms(2) by (auto simp: val_ctx_def)
  note n = nominate_inv [OF assms(1) i]
  show "val_ctx recv V t" using n(1,2,4,5) assms(2) by (auto simp: val_ctx_def same_identity_def)
  from assms(1) obtain s1 s2 where ph: "sl_phase s = PhNominatePrepare"
    and 1: "vote_nominate (schedule_next_nomination_round a s) = Some s1"
    and 2: "update_YZ s1 = Some s2" and t: "t = start_ballot a s2"
    by (rule do_nominate_phaseE)
  note f = schedule_next_nomination_round_frame [where s = s and a = a]
  have d: "distinct (map fst (sl_M s))" using i(1) by (simp add: store_ok_def M_inv_def)
  have v: "values_ok V s"
    using assms(2,3) ph by (intro val_ctx_values_ok) (auto simp: committed_def)
  have "values_ok V (schedule_next_nomination_round a s)"
    by (rule values_ok_step [OF v f(1,2)])
       (use v f in \<open>simp add: values_ok_def ballots_in_def same_ballots_def\<close>)
  then have v1: "values_ok V s1" and d1: "distinct (map fst (sl_M s1))"
    using vote_nominate_in [OF 1] d f(1) vote_nominate_frame(1) [OF 1] by (auto simp: same_inputs_def)
  have "finite (sl_Z s2)"
    using n(2) t start_ballot_frame(3) [where s = s2 and a = a] by (simp add: nom_inv_def same_nomination_def)
  from update_YZ_in [OF 2 v1 d1 this] assms(4) have "values_ok V t"
    unfolding t by (rule start_ballot_in)
  then show "val_inv V t" by (auto simp: val_inv_def values_ok_def ballots_in_def)
qed

text \<open>The calls of a slot.\<close>

lemma val_inv_last_sent [frame_simps]: "val_inv V (s\<lparr>sl_last_sent_msg := l\<rparr>) \<longleftrightarrow> val_inv V s"
  by (simp add: val_inv_def ballots_in_def sets_in_def committed_def)

lemma out_msg_in: "out_msg s = Some (mo, t) \<Longrightarrow> val_inv V s \<Longrightarrow> val_inv V t"
  by (erule out_msgE) (simp_all add: frame_simps)

lemma slot_inv_val_ctx:
  "slot_inv s recv \<Longrightarrow> combine_in (valid_set (sl_validity_fn s)) (sl_combine_fn s) \<Longrightarrow>
   val_ctx recv (valid_set (sl_validity_fn s)) s"
  using phase_inv_range [of s] by (auto simp: val_ctx_def slot_inv_def)

lemma propose_values_in:
  assumes "propose_values a s vals = Some (mo, t)" and "val_ctx recv V s" and "val_inv V s"
    and "ambient_ok a"
  shows "val_inv V t"
proof (cases "sl_phase s = PhNominatePrepare \<and> Set.is_empty (sl_Z s)")
  case False
  with assms(1) have "out_msg s = Some (mo, t)" by (auto simp: propose_values_def)
  then show ?thesis using assms(3) by (rule out_msg_in)
next
  case True
  obtain ws s1 where f: "filter_valid s (sorted_list_of_set vals) = (ws, s1)"
    by (cases "filter_valid s (sorted_list_of_set vals)")
  note fs = filter_valid_step [OF f]
  then obtain C where s1: "s1 = s\<lparr>sl_valid_values := C\<rparr>" by (auto simp: cache_step_def)
  have ws: "set ws \<subseteq> V" using fs assms(2) by (auto simp: val_ctx_def valid_set_def store_ok_def)
  have st: "store_ok s1 recv" using fs assms(2) store_ok_cache_step by (auto simp: val_ctx_def)
  let ?s2 = "s1\<lparr>sl_W := sl_W s1 \<union> set ws\<rparr>"
  have c2: "val_ctx recv V ?s2" and v1: "val_inv V s1" and v2: "val_inv V ?s2"
    using assms(2,3) ws st s1
    by (auto simp: val_ctx_def val_inv_def frame_simps nom_inv_def commit_range_ok_def ballots_in_def
        sets_in_def committed_def)
  show ?thesis
  proof (cases "ws = []")
    case True
    with assms(1) \<open>sl_phase s = PhNominatePrepare \<and> Set.is_empty (sl_Z s)\<close> f v1
    show ?thesis by (auto simp: propose_values_def)
  next
    case False
    from assms(1) True f False obtain s3 s4 where n: "do_nominate_phase a ?s2 = Some s3"
      and p: "do_ballot_protocol a s3 = Some s4" and o: "out_msg s4 = Some (mo, t)"
      by (auto simp: propose_values_def elim!: run_elims)
    from protocol_in [OF p nominate_in [OF n c2 v2 assms(4)] assms(4)] show ?thesis
      by (rule out_msg_in [OF o])
  qed
qed

lemma handle_messages_in:
  assumes "handle_messages a s msgs = Some (mo, t)" and "val_ctx recv V s" and "val_inv V s"
    and "ambient_ok a"
  shows "val_inv V t"
proof -
  obtain b s1 where st: "store_msgs s (msgs_for_slot s msgs) = (b, s1)"
    by (cases "store_msgs s (msgs_for_slot s msgs)")
  have "store_ok s recv" using assms(2) by (simp add: val_ctx_def)
  then have s1: "store_step s s1" "store_ok s1 (recv @ msgs)"
    using store_msgs_step [OF st slot_inv_mono] by (auto simp: msgs_for_slot_set)
  have c1: "val_ctx (recv @ msgs) V s1" and v1: "val_inv V s1"
    using assms(2,3) s1
    by (auto simp: val_ctx_def val_inv_def store_step_def nom_inv_def commit_range_ok_def ballots_in_def
        sets_in_def committed_def)
  show ?thesis
  proof (cases b)
    case False
    with assms(1) st v1 show ?thesis by (auto simp: handle_messages_def)
  next
    case True
    with assms(1) st obtain s2 s3
      where n: "(if sl_phase s1 = PhNominatePrepare then do_nominate_phase a s1 else Some s1) = Some s2"
        and p: "do_ballot_protocol a s2 = Some s3" and o: "out_msg s3 = Some (mo, t)"
      by (auto simp: handle_messages_def elim!: run_elims)
    have "val_ctx (recv @ msgs) V s2" "val_inv V s2"
      using n c1 v1 nominate_in [OF _ c1 v1 assms(4), of s2] by (auto split: if_split_asm)
    from protocol_in [OF p this assms(4)] show ?thesis by (rule out_msg_in [OF o])
  qed
qed

lemma nomination_timeout_in:
  assumes "nomination_timeout a s = Some (b, t)" and "val_ctx recv V s" and "val_inv V s" and "ambient_ok a"
  shows "val_ctx recv V t \<and> val_inv V t"
proof (cases "case sl_next_nominate_round_at s of Some t \<Rightarrow> now a > t | None \<Rightarrow> False")
  case False
  with assms show ?thesis by (auto simp: nomination_timeout_def)
next
  case True
  with assms(1) obtain r peers
    where n: "do_nominate_phase a ((cancel_next_nomination_round s)
        \<lparr>sl_nominate_round := r, sl_max_priority_peers := peers\<rparr>) = Some t"
    by (auto simp: nomination_timeout_def Let_def elim!: run_elims)
  let ?s0 = "(cancel_next_nomination_round s)\<lparr>sl_nominate_round := r, sl_max_priority_peers := peers\<rparr>"
  have "val_ctx recv V ?s0" "val_inv V ?s0"
    using assms(2,3)
    by (simp_all add: cancel_next_nomination_round_def val_ctx_def val_inv_def store_ok_def cache_ok_def
        M_inv_def M_values_ok_def nom_inv_def commit_range_ok_def ballots_in_def sets_in_def committed_def)
  from nominate_in [OF n this assms(4)] show ?thesis ..
qed

lemma next_ballot_in:
  assumes "next_ballot a s = Some t" and "val_ctx recv V s" and "val_inv V s" and "ambient_ok a"
  shows "val_ctx recv V t \<and> val_inv V t"
proof -
  obtain B where t: "t = s\<lparr>sl_B := B\<rparr>" "committed s \<longrightarrow> b_X B = b_X (sl_B s)"
    using next_ballot_frame [OF assms(1)] by blast
  have "set (b_X B) \<subseteq> V"
  proof (cases "committed s")
    case True
    with t assms(3) show ?thesis by (simp add: val_inv_def)
  next
    case False
    note v = val_ctx_values_ok [OF assms(2,3) False]
    from False assms(1) obtain x_opt where x: "get_next_ballot_values a s = Some x_opt"
      and B: "b_X (sl_B t) = (case x_opt of Some x \<Rightarrow> x | None \<Rightarrow> b_X (sl_B s))"
      by (auto simp: next_ballot_def Let_def committed_def elim!: run_elims split: phase.split_asm option.split)
    have "b_X B = b_X (sl_B t)" using t(1) by simp
    with B x get_next_ballot_values_in [OF _ v assms(4)] assms(3) show ?thesis
      by (cases x_opt) (simp_all add: val_inv_def)
  qed
  with t assms(2,3) show ?thesis
    by (simp add: val_ctx_def val_inv_def store_ok_def cache_ok_def M_inv_def M_values_ok_def nom_inv_def
        commit_range_ok_def ballots_in_def sets_in_def committed_def)
qed

lemma ballot_timeout_in:
  assumes "ballot_timeout a s = Some (b, t)" and "val_ctx recv V s" and "val_inv V s" and "ambient_ok a"
  shows "val_inv V t"
proof (cases "case sl_next_ballot_at s of Some t \<Rightarrow> now a > t | None \<Rightarrow> False")
  case False
  with assms show ?thesis by (auto simp: ballot_timeout_def)
next
  case True
  with assms(1) obtain s1 where n: "next_ballot a (cancel_next_ballot_timer s) = Some s1"
    and p: "do_ballot_protocol a s1 = Some t"
    by (auto simp: ballot_timeout_def elim!: run_elims)
  have "val_ctx recv V (cancel_next_ballot_timer s)" "val_inv V (cancel_next_ballot_timer s)"
    using assms(2,3)
    by (simp_all add: cancel_next_ballot_timer_def val_ctx_def val_inv_def store_ok_def cache_ok_def
        M_inv_def M_values_ok_def nom_inv_def commit_range_ok_def ballots_in_def sets_in_def committed_def)
  from next_ballot_in [OF n this assms(4)] show ?thesis
    using protocol_in [OF p _ _ assms(4)] by blast
qed

lemma process_timeouts_in:
  assumes "process_timeouts a s = Some (out, t)" and "val_ctx recv V s" and "val_inv V s" and "ambient_ok a"
  shows "val_inv V t"
proof -
  from assms(1) obtain b1 s1 b2 s2 where 1: "nomination_timeout a s = Some (b1, s1)"
    and 2: "ballot_timeout a s1 = Some (b2, s2)" and o: "t = s2 \<or> (\<exists>mo. out_msg s2 = Some (mo, t))"
    by (auto simp: process_timeouts_def elim!: run_elims split: if_split_asm)
  from nomination_timeout_in [OF 1 assms(2-4)] ballot_timeout_in [OF 2 _ _ assms(4)]
  have "val_inv V s2" by blast
  with o out_msg_in [of s2 _ t V] show ?thesis by blast
qed

lemma slot_step_in:
  assumes "slot_step a s e = Some (out, t)" and "val_ctx recv V s" and "val_inv V s" and "ambient_ok a"
  shows "val_inv V t"
proof (cases e)
  case (Propose vals)
  with assms propose_values_in [of a s vals _ t recv V] show ?thesis by (auto elim!: run_elims)
next
  case (Deliver msgs)
  with assms handle_messages_in [of a s msgs _ t recv V] show ?thesis by (auto elim!: run_elims)
next
  case Timeouts
  with assms process_timeouts_in [of a s out t recv V] show ?thesis by simp
qed

lemma slot_run_combine: "slot_run n q i f g s recv sent \<Longrightarrow> sl_combine_fn s = g"
proof (induction rule: slot_run.induct)
  case (new a s)
  then show ?case by (cases rule: slot_new_fields) (simp add: slot_init_def)
next
  case (step s recv sent a e out t)
  have "slot_inv s recv" using slot_run_inv [OF step.hyps(1)] by (simp add: run_inv_def)
  from call_ok_step(2) [OF slot_step_ok [OF step.hyps(4) this step.hyps(3)]] step.IH show ?case
    by (simp add: same_identity_def)
qed

lemma slot_run_values:
  assumes "slot_run n q i f g s recv sent" and "combine_in (valid_set f) g"
  shows "val_inv (valid_set f) s"
  using assms(1)
proof induction
  case (new a s)
  then show ?case
    by (cases rule: slot_new_fields)
       (simp add: slot_init_def val_inv_def ballots_in_def sets_in_def committed_def)
next
  case (step s recv sent a e out t)
  have r: "slot_inv s recv" "sl_validity_fn s = f"
    using slot_run_inv [OF step.hyps(1)] by (auto simp: run_inv_def)
  have "val_ctx recv (valid_set f) s"
    using slot_inv_val_ctx [OF r(1)] r(2) slot_run_combine [OF step.hyps(1)] assms(2) by simp
  from slot_step_in [OF step.hyps(4) this step.IH step.hyps(2)] show ?case .
qed

end
