(* ===== verification/Scp_Ballot_Steps.thy ===== *)
theory Scp_Ballot_Steps
  imports Scp_Slot_Frame
begin

section \<open>What two steps of the ballot protocol compute\<close>

text \<open>
  The declarative meaning of the two computations the ballot protocol rests on: the counter that
  gets a blocked node unblocked (\<^verbatim>\<open>get_unblocking_ballot_counter\<close>) and the lowest ballot to vote
  commit for (step 3 of \<^verbatim>\<open>do_prepare_phase\<close>). Both are least elements, and neither computation
  aborts or wraps.
\<close>

subsection \<open>The ballot counter that unblocks the node\<close>

text \<open>The nodes whose messages are on a higher counter block the node.\<close>

definition counter_blocked :: "('id, 'v, 'e) slot \<Rightarrow> u32 \<Rightarrow> bool" where
  "counter_blocked s c \<longleftrightarrow> blocking (sl_quorum_set s) {n. \<exists>m. map_of (sl_M s) n = Some m \<and> c < bN m}"

lemma unblocking_step:
  assumes q: "is_valid (sl_quorum_set s)" "qs_size (sl_quorum_set s) < 2 ^ 32"
  shows "(\<not> counter_blocked s c \<and> unblocking_loop s c = Some c) \<or>
    (\<exists>n. counter_blocked s c \<and> c < n \<and> unblocking_loop s c = unblocking_loop s n \<and>
       (\<forall>c'. c' < n \<longrightarrow> counter_blocked s c'))"
proof -
  let ?t = "\<lambda>m :: ('a, 'b) msg. c < bN m"
  obtain B p where f: "find_blocking_set func_test s \<lparr>fp_test_fn = ?t\<rparr> = Some (B, p)"
    and iff: "B \<noteq> {} \<longleftrightarrow> counter_blocked s c" and B: "B \<noteq> {} \<Longrightarrow> blocking (sl_quorum_set s) B"
    using findBlockingSet_func [OF q, of "sl_M s" ?t] by (auto simp: find_blocking_set_def counter_blocked_def)
  show ?thesis
  proof (cases "B = {}")
    case True
    with iff f show ?thesis by (simp add: unblocking_loop.simps [of s c])
  next
    case False
    have fin: "finite B" using f by (rule find_blocking_set_finite)
    have mem: "\<exists>m. map_of (sl_M s) n = Some m \<and> c < bN m" if "n \<in> B" for n
      using find_blocking_set_func [OF f that] by simp
    let ?N = "(\<lambda>n. bN (the (map_of (sl_M s) n))) ` B"
    have ctr: "ballot_counters s B = Some ?N" using mem by (force simp: ballot_counters_def)
    obtain n where n: "iter_min ?N = Some n" "n \<in> ?N" "\<forall>x \<in> ?N. n \<le> x"
      using iter_min_Some [of ?N] fin False by (auto simp: iter_min_def)
    have "c < n" using n(2) mem by fastforce
    moreover have "counter_blocked s c'" if "c' < n" for c'
    proof -
      have "B \<subseteq> {n. \<exists>m. map_of (sl_M s) n = Some m \<and> c' < bN m}"
        using n(3) mem that by (fastforce intro: less_le_trans)
      with B [OF False] show ?thesis unfolding counter_blocked_def blocking_def by blast
    qed
    moreover have "unblocking_loop s c = unblocking_loop s n"
      using f False ctr n(1) by (simp add: unblocking_loop.simps [of s c])
    ultimately show ?thesis using iff False by blast
  qed
qed

lemma unblocking_loop_least:
  assumes "is_valid (sl_quorum_set s)" and "qs_size (sl_quorum_set s) < 2 ^ 32"
  shows "\<exists>r. unblocking_loop s c = Some r \<and> c \<le> r \<and> \<not> counter_blocked s r \<and>
    (\<forall>c'. c \<le> c' \<longrightarrow> c' < r \<longrightarrow> counter_blocked s c')"
proof (induction "2 ^ 32 - unat c" arbitrary: c rule: less_induct)
  case less
  from unblocking_step [OF assms, of c] show ?case
  proof (elim disjE exE conjE)
    assume "\<not> counter_blocked s c" "unblocking_loop s c = Some c"
    then show ?thesis by (intro exI [of _ c]) auto
  next
    fix n assume n: "counter_blocked s c" "c < n" "unblocking_loop s c = unblocking_loop s n"
      "\<forall>c'. c' < n \<longrightarrow> counter_blocked s c'"
    have "2 ^ 32 - unat n < 2 ^ 32 - unat c"
      using n(2) u32_unat_less [of n] by (simp add: word_less_nat_alt diff_less_mono2)
    from less [OF this] obtain r where "unblocking_loop s n = Some r" "n \<le> r" "\<not> counter_blocked s r"
      "\<forall>c'. n \<le> c' \<longrightarrow> c' < r \<longrightarrow> counter_blocked s c'" by blast
    with n show ?thesis by (intro exI [of _ r]) (auto simp: not_less [symmetric])
  qed
qed

subsection \<open>The lowest ballot to vote commit for\<close>

lemma aborts_mono: "\<not> aborts p c \<Longrightarrow> c \<le> c' \<Longrightarrow> b_X c' = b_X c \<Longrightarrow> \<not> aborts p c'"
  by (auto simp: aborts_def split: option.splits)

text \<open>The least ballot with the values \<open>x\<close> that is not below \<open>p\<close>, when there is one up to \<open>h\<close>.\<close>

lemma least_not_below:
  fixes p h :: "'v::linorder ballot"
  assumes "p \<le> h" and "b_X h = x" and "b_X p \<noteq> x"
  defines "c \<equiv> Ballot (if b_X p < x then b_N p else b_N p + 1) x"
  shows "p < c" and "c \<le> h" and "b_X d = x \<Longrightarrow> p \<le> d \<Longrightarrow> c \<le> d"
proof -
  have "b_N p < b_N h" if "\<not> b_X p < x"
    using assms(1-3) that by (auto simp: ballot_le_iff)
  note succ = u32_less_succ [OF this] u32_succ_le [OF this]
  show "p < c" using succ(1) assms(3) by (auto simp: c_def ballot_less_iff)
  show "c \<le> h" using succ(2) assms(1-3) by (auto simp: c_def ballot_le_iff)
  show "c \<le> d" if "b_X d = x" "p \<le> d"
  proof (cases "b_X p < x")
    case True
    with that show ?thesis by (auto simp: c_def ballot_le_iff)
  next
    case False
    with that assms(3) have "b_N p < b_N d" by (auto simp: ballot_le_iff)
    from u32_succ_le [OF this] that(1) False show ?thesis by (auto simp: c_def ballot_le_iff)
  qed
qed

lemma raise_above_least:
  fixes c h :: "'v::linorder ballot"
  assumes "c \<le> h" and "b_X c = b_X h" and "\<not> aborts p h"
  shows "b_X (raise_above p c) = b_X h \<and> c \<le> raise_above p c \<and> raise_above p c \<le> h \<and>
    \<not> aborts p (raise_above p c) \<and>
    (\<forall>d. b_X d = b_X h \<longrightarrow> c \<le> d \<longrightarrow> \<not> aborts p d \<longrightarrow> raise_above p c \<le> d)"
proof (cases "aborts p c")
  case False
  then have "raise_above p c = c" by (auto simp: raise_above_def aborts_def split: option.splits)
  with False assms show ?thesis by auto
next
  case True
  then obtain q where q: "p = Some q" "c < q" "b_X q \<noteq> b_X h"
    using assms(2) by (auto simp: aborts_def split: option.split_asm)
  then have "q \<le> h" using assms(3) by (auto simp: aborts_def)
  note l = least_not_below [OF this refl q(3)]
  have r: "raise_above p c = Ballot (if b_X q < b_X h then b_N q else b_N q + 1) (b_X h)"
    using q assms(2) by (auto simp: raise_above_def)
  have "c \<le> raise_above p c" using q(2) l(1) unfolding r by (meson less_imp_le less_trans)
  moreover have "q \<le> d" if "\<not> aborts p d" "b_X d = b_X h" for d using that q by (auto simp: aborts_def)
  ultimately show ?thesis
    using l unfolding r by (auto simp: aborts_def q(1))
qed


text \<open>The ballot step 3 starts from: the lowest with the values of \<open>h\<close> that is not below \<open>b\<close>.\<close>

lemma first_commit_ballot:
  fixes b h :: "'v::linorder ballot"
  assumes "b \<le> h"
  defines "c \<equiv> Ballot (if b_X h \<ge> b_X b then b_N b else b_N b + 1) (b_X h)"
  shows "b \<le> c" "c \<le> h" "b_X d = b_X h \<Longrightarrow> b \<le> d \<Longrightarrow> c \<le> d"
proof (atomize (full), cases "b_X b = b_X h")
  case True
  with assms(1) show "b \<le> c \<and> c \<le> h \<and> (b_X d = b_X h \<longrightarrow> b \<le> d \<longrightarrow> c \<le> d)"
    by (auto simp: c_def ballot_le_iff)
next
  case False
  then have "c = Ballot (if b_X b < b_X h then b_N b else b_N b + 1) (b_X h)" by (auto simp: c_def)
  with least_not_below [OF assms(1) refl False] show "b \<le> c \<and> c \<le> h \<and> (b_X d = b_X h \<longrightarrow> b \<le> d \<longrightarrow> c \<le> d)"
    by (auto intro: less_imp_le)
qed

text \<open>
  C11. Voting to commit: when a ballot \<open>h\<close> is confirmed prepared, the node votes for none yet, its own
  ballot is not above \<open>h\<close> and nothing it accepted as prepared aborts \<open>h\<close>, step 3 does not abort
  and chooses the lowest ballot with the values of \<open>h\<close> that is not below the node's ballot and
  is not aborted by what it accepted as prepared; the counter never wraps.
\<close>

theorem prepare_step3_lowest:
  assumes "sl_C s = None" and "sl_H s = Some h" and "sl_B s \<le> h"
    and "\<not> aborts (sl_P s) h" and "\<not> aborts (sl_PP s) h"
  shows "\<exists>c. prepare_step3 s = Some (s\<lparr>sl_C := Some c\<rparr>) \<and> b_X c = b_X h \<and> sl_B s \<le> c \<and> c \<le> h \<and>
    \<not> aborts (sl_P s) c \<and> \<not> aborts (sl_PP s) c \<and>
    (\<forall>d. b_X d = b_X h \<and> sl_B s \<le> d \<and> \<not> aborts (sl_P s) d \<and> \<not> aborts (sl_PP s) d \<longrightarrow> c \<le> d)"
proof -
  define c0 where "c0 = Ballot (if b_X h \<ge> b_X (sl_B s) then b_N (sl_B s) else b_N (sl_B s) + 1) (b_X h)"
  define c1 where "c1 = raise_above (sl_P s) c0"
  define c2 where "c2 = raise_above (sl_PP s) c1"
  note s0 = first_commit_ballot [OF assms(3), folded c0_def]
  have x0: "b_X c0 = b_X h" by (simp add: c0_def)
  note s1 = raise_above_least [OF s0(2) x0 assms(4), folded c1_def]
  from s1 have s2: "b_X c2 = b_X h" "c1 \<le> c2" "c2 \<le> h" "\<not> aborts (sl_PP s) c2"
    "\<forall>d. b_X d = b_X h \<longrightarrow> c1 \<le> d \<longrightarrow> \<not> aborts (sl_PP s) d \<longrightarrow> c2 \<le> d"
    using raise_above_least [of c1 h "sl_PP s", folded c2_def] assms(5) by auto
  have le: "sl_B s \<le> c2" using s0(1) s1 s2(2) by (meson order.trans)
  have "prepare_step3 s = Some (s\<lparr>sl_C := Some c2\<rparr>)"
    using assms le s2(1,3) ballot_le_counter [OF s2(3)]
    by (simp add: prepare_step3_def Let_def c0_def [symmetric] c1_def [symmetric] c2_def [symmetric])
  moreover have "\<not> aborts (sl_P s) c2" using aborts_mono [of "sl_P s" c1 c2] s1 s2(1,2) by simp
  moreover have "c2 \<le> d" if "b_X d = b_X h" "sl_B s \<le> d" "\<not> aborts (sl_P s) d" "\<not> aborts (sl_PP s) d" for d
    using that s0(3) s1 s2(5) by blast
  ultimately show ?thesis using s2 le by blast
qed

definition ex_vote_slot :: "(int, int, unit) slot" where
  "ex_vote_slot = (ex_query_slot [])\<lparr>sl_B := Ballot 2 [5], sl_H := Some (Ballot 9 [5]),
     sl_P := Some (Ballot 6 [7]), sl_PP := Some (Ballot 4 [1])\<rparr>"

theorem prepare_step3_lowest_witness:
  "\<exists>c. prepare_step3 ex_vote_slot = Some (ex_vote_slot\<lparr>sl_C := Some c\<rparr>) \<and> Ballot 2 [5] \<le> c \<and> c \<le> Ballot 9 [5]"
  using prepare_step3_lowest [of ex_vote_slot "Ballot 9 [5]"]
  by (auto simp: ex_vote_slot_def ex_query_slot_def slot_init_def aborts_def ballot_le_iff ballot_less_iff)

text \<open>
  C12. Unblocking: with a valid quorum set of fewer than 2^32 members the loop that raises the
  ballot counter ends, and returns the lowest counter from the node's own on at which the nodes on higher counters
  do not block it.
\<close>

theorem unblocking_counter_lowest:
  assumes "is_valid (sl_quorum_set s)" and "qs_size (sl_quorum_set s) < 2 ^ 32"
  shows "\<exists>c. get_unblocking_ballot_counter s = Some c \<and> b_N (sl_B s) \<le> c \<and> \<not> counter_blocked s c \<and>
    (\<forall>c'. b_N (sl_B s) \<le> c' \<longrightarrow> c' < c \<longrightarrow> counter_blocked s c')"
  using unblocking_loop_least [OF assms] by (simp add: get_unblocking_ballot_counter_def)

theorem unblocking_counter_lowest_witness:
  "\<exists>c. get_unblocking_ballot_counter ex_commit_slot = Some c \<and> 4 \<le> c \<and> \<not> counter_blocked ex_commit_slot c"
  using unblocking_counter_lowest [of ex_commit_slot]
  by (auto simp: ex_commit_slot_def ex_query_slot_def slot_init_def new_with_node_ids_def qs_new_def)

end
