(* ===== verification/Rust_Result.thy ===== *)
theory Rust_Result
  imports Scp_Prelude
begin

section \<open>Prelude: results, bytes and 64-bit words\<close>

text \<open>
  Shared by the theories of the ledger and of transactions.
  \<^item> A function that returns \<^verbatim>\<open>Result\<close> and may also abort returns an \<open>outcome\<close>: \<open>Ok\<close> a value,
    \<open>Err\<close> an error, or \<open>Panic\<close>. \<open>and_then\<close> is the \<^verbatim>\<open>?\<close> operator.
  \<^item> A byte string is a list of 8-bit words; big-endian conversion of \<^verbatim>\<open>u64\<close> and its inverse.
  \<^item> \<^verbatim>\<open>u64::checked_next_power_of_two\<close> and \<^verbatim>\<open>u64::leading_zeros\<close>.
\<close>

unbundle bit_operations_syntax

named_theorems outcome_simps \<open>rewriting of computations that return a result\<close>

datatype ('e, 'a) outcome = Ok 'a | Err 'e | Panic

type_synonym bytes = "u8 list"

subsection \<open>Results\<close>

definition and_then :: "('e, 'a) outcome \<Rightarrow> ('a \<Rightarrow> ('e, 'b) outcome) \<Rightarrow> ('e, 'b) outcome" where
  "and_then x f = (case x of Ok a \<Rightarrow> f a | Err e \<Rightarrow> Err e | Panic \<Rightarrow> Panic)"

definition map_err :: "('e \<Rightarrow> 'f) \<Rightarrow> ('e, 'a) outcome \<Rightarrow> ('f, 'a) outcome" where
  "map_err f x = (case x of Ok a \<Rightarrow> Ok a | Err e \<Rightarrow> Err (f e) | Panic \<Rightarrow> Panic)"

definition ok_or :: "'e \<Rightarrow> 'a option \<Rightarrow> ('e, 'a) outcome" where
  "ok_or e x = (case x of Some a \<Rightarrow> Ok a | None \<Rightarrow> Err e)"

definition ensure :: "bool \<Rightarrow> 'e \<Rightarrow> ('e, unit) outcome" where
  "ensure b e = (if b then Ok () else Err e)"

definition of_run :: "'a run \<Rightarrow> ('e, 'a) outcome" where
  "of_run x = (case x of Some a \<Rightarrow> Ok a | None \<Rightarrow> Panic)"

lemma and_then_simps [simp]:
  "and_then (Ok a) f = f a" "and_then (Err e) f = Err e" "and_then Panic f = Panic"
  by (simp_all add: and_then_def)

lemma and_then_Ok_right [simp]: "and_then x Ok = x"
  by (cases x) simp_all

lemma map_err_simps [simp]:
  "map_err g (Ok a) = Ok a" "map_err g (Err e) = Err (g e)" "map_err g Panic = Panic"
  by (simp_all add: map_err_def)

lemma ok_or_simps [simp]: "ok_or e (Some a) = Ok a" "ok_or e None = Err e"
  by (simp_all add: ok_or_def)

lemma of_run_simps [simp]: "of_run (Some a) = Ok a" "of_run None = Panic"
  by (simp_all add: of_run_def)

lemma ensure_True [simp]: "b \<Longrightarrow> ensure b e = Ok ()"
  by (simp add: ensure_def)

lemma ensure_False [simp]: "\<not> b \<Longrightarrow> ensure b e = Err e"
  by (simp add: ensure_def)

lemma and_then_eq_Ok [outcome_simps]: "and_then x f = Ok y \<longleftrightarrow> (\<exists>z. x = Ok z \<and> f z = Ok y)"
  by (cases x) auto

lemma map_err_eq_Ok [outcome_simps]: "map_err g x = Ok y \<longleftrightarrow> x = Ok y"
  by (cases x) auto

lemma ok_or_eq_Ok [outcome_simps]: "ok_or e x = Ok y \<longleftrightarrow> x = Some y"
  by (cases x) auto

lemma ensure_eq_Ok [outcome_simps]: "ensure b e = Ok u \<longleftrightarrow> b"
  by (simp add: ensure_def)

lemma of_run_eq_Ok [outcome_simps]: "of_run x = Ok y \<longleftrightarrow> x = Some y"
  by (cases x) auto

lemma and_thenE:
  assumes "and_then x f = Ok y"
  obtains z where "x = Ok z" and "f z = Ok y"
  using assms by (auto simp: and_then_eq_Ok)

lemma and_then_ensureE:
  assumes "and_then (ensure b e) f = Ok y"
  obtains "b" and "f () = Ok y"
  using assms by (cases b) auto

lemmas outcome_elims = and_then_ensureE and_thenE

text \<open>\<^verbatim>\<open>Iterator::try_fold\<close>, and \<^verbatim>\<open>map\<close> followed by \<^verbatim>\<open>collect::<Result<Vec<_>, _>>\<close>.\<close>

fun try_fold :: "('s \<Rightarrow> 'x \<Rightarrow> ('e, 's) outcome) \<Rightarrow> 's \<Rightarrow> 'x list \<Rightarrow> ('e, 's) outcome" where
  "try_fold f s [] = Ok s"
| "try_fold f s (x # xs) = and_then (f s x) (\<lambda>t. try_fold f t xs)"

text \<open>A loop whose body returns a result and changes no state.\<close>

definition try_each :: "('x \<Rightarrow> ('e, unit) outcome) \<Rightarrow> 'x list \<Rightarrow> ('e, unit) outcome" where
  "try_each f xs = try_fold (\<lambda>_. f) () xs"

lemma try_each_simps [simp]:
  "try_each f [] = Ok ()" "try_each f (x # xs) = and_then (f x) (\<lambda>_. try_each f xs)"
  by (simp_all add: try_each_def)

lemma try_each_Ok: "try_each f xs = Ok () \<longleftrightarrow> list_all (\<lambda>x. f x = Ok ()) xs"
  by (induction xs) (auto simp: and_then_def split: outcome.splits)

fun try_map :: "('x \<Rightarrow> ('e, 'y) outcome) \<Rightarrow> 'x list \<Rightarrow> ('e, 'y list) outcome" where
  "try_map f [] = Ok []"
| "try_map f (x # xs) = and_then (f x) (\<lambda>y. and_then (try_map f xs) (\<lambda>ys. Ok (y # ys)))"

lemma try_fold_append: "try_fold f s (xs @ ys) = and_then (try_fold f s xs) (\<lambda>t. try_fold f t ys)"
proof (induction xs arbitrary: s)
  case (Cons x xs)
  then show ?case by (cases "f s x") auto
qed simp

lemma try_map_Ok: "(\<And>x. x \<in> set xs \<Longrightarrow> f x = Ok (g x)) \<Longrightarrow> try_map f xs = Ok (map g xs)"
  by (induction xs) auto

lemma try_map_eq_Ok: "try_map f xs = Ok ys \<longleftrightarrow> list_all2 (\<lambda>x y. f x = Ok y) xs ys"
  by (induction xs arbitrary: ys) (auto simp: and_then_eq_Ok list_all2_Cons1)

text \<open>A loop with an invariant that mentions the items done so far.\<close>

lemma try_fold_inv:
  assumes "I 0 s"
    and "\<And>i t. i < length xs \<Longrightarrow> I i t \<Longrightarrow> \<exists>u. f t (xs ! i) = Ok u \<and> I (Suc i) u"
  shows "\<exists>t. try_fold f s xs = Ok t \<and> I (length xs) t"
  using assms
proof (induction xs arbitrary: I s)
  case (Cons x xs)
  from Cons.prems(2) [of 0 s] Cons.prems(1) obtain u where u: "f s x = Ok u" "I 1 u" by auto
  have "\<exists>t. try_fold f u xs = Ok t \<and> I (Suc (length xs)) t"
  proof (rule Cons.IH [of "\<lambda>i. I (Suc i)"])
    show "I (Suc 0) u" using u(2) by simp
    show "\<exists>u. f t (xs ! i) = Ok u \<and> I (Suc (Suc i)) u" if "i < length xs" "I (Suc i) t" for i t
      using Cons.prems(2) [of "Suc i" t] that by simp
  qed
  with u(1) show ?case by simp
qed simp

subsection \<open>64-bit words\<close>

lemma u64_unat_less: "unat (n :: u64) < 2 ^ 64"
  by (rule order.strict_trans2 [OF unsigned_less]) simp

lemma unat_of_nat_u64: "n < 2 ^ 64 \<Longrightarrow> unat (word_of_nat n :: u64) = n"
  by (simp add: unat_of_nat)

lemma u64_eq_iff: "(a :: u64) = b \<longleftrightarrow> unat a = unat b"
  by (simp add: word_unat_eq_iff)

text \<open>\<^verbatim>\<open>u64::checked_next_power_of_two\<close>: the least power of two from the number on, if it fits.\<close>

definition checked_next_power_of_two :: "u64 \<Rightarrow> u64 option" where
  "checked_next_power_of_two n = find (\<lambda>p. n \<le> p) (map (\<lambda>k. 2 ^ k) [0..<64])"

definition leading_zeros :: "u64 \<Rightarrow> nat" where
  "leading_zeros w = length (takeWhile (\<lambda>k. \<not> bit w k) (rev [0..<64]))"

text \<open>The exponent of the least power of two from a natural number on.\<close>

definition ceil_log2 :: "nat \<Rightarrow> nat" where
  "ceil_log2 n = (LEAST k. n \<le> 2 ^ k)"

lemma ceil_log2_bounds: "n \<le> 2 ^ ceil_log2 n" "k < ceil_log2 n \<Longrightarrow> 2 ^ k < n"
proof -
  have "n \<le> 2 ^ n" using less_exp [of n] by simp
  then show "n \<le> 2 ^ ceil_log2 n" unfolding ceil_log2_def by (rule LeastI)
  show "k < ceil_log2 n \<Longrightarrow> 2 ^ k < n"
    unfolding ceil_log2_def by (drule not_less_Least) simp
qed

lemma ceil_log2_le: "n \<le> 2 ^ k \<Longrightarrow> ceil_log2 n \<le> k"
  unfolding ceil_log2_def by (rule Least_le)

lemma unat_power_u64 [simp]: "k < 64 \<Longrightarrow> unat (2 ^ k :: u64) = 2 ^ k"
proof -
  assume "k < 64"
  then have "(2 :: nat) ^ k < 2 ^ 64" by (intro power_strict_increasing) auto
  moreover have "(2 ^ k :: u64) = word_of_nat (2 ^ k)" by simp
  ultimately show ?thesis by (simp only: unat_of_nat_u64)
qed

lemma find_upt_Some:
  "find P [0..<n] = Some k \<longleftrightarrow> k < n \<and> P k \<and> (\<forall>j < k. \<not> P j)"
  unfolding find_Some_iff by (auto intro: exI [of _ k])

lemma find_map: "find P (map f xs) = map_option f (find (\<lambda>x. P (f x)) xs)"
  by (induction xs) auto

lemma checked_next_power_of_two_Some:
  assumes "unat n \<le> 2 ^ 63"
  shows "checked_next_power_of_two n = Some (2 ^ ceil_log2 (unat n))" and "ceil_log2 (unat n) < 64"
proof -
  show k: "ceil_log2 (unat n) < 64" using ceil_log2_le [OF assms] by simp
  have "find (\<lambda>k. n \<le> 2 ^ k) [0..<64] = Some (ceil_log2 (unat n))"
    unfolding find_upt_Some
  proof (intro conjI allI impI k)
    show "n \<le> 2 ^ ceil_log2 (unat n)"
      using ceil_log2_bounds(1) [of "unat n"] k by (simp add: word_le_nat_alt)
    show "\<not> n \<le> 2 ^ j" if "j < ceil_log2 (unat n)" for j
      using ceil_log2_bounds(2) [OF that] that k by (simp add: word_le_nat_alt)
  qed
  then show "checked_next_power_of_two n = Some (2 ^ ceil_log2 (unat n))"
    by (simp add: checked_next_power_of_two_def find_map)
qed

lemma checked_next_power_of_two_None:
  "checked_next_power_of_two n = None \<longleftrightarrow> 2 ^ 63 < unat n"
proof
  assume "checked_next_power_of_two n = None"
  then show "2 ^ 63 < unat n" using checked_next_power_of_two_Some(1) [of n] by fastforce
next
  assume n: "2 ^ 63 < unat n"
  have "\<not> n \<le> 2 ^ k" if "k < 64" for k
  proof -
    have "(2 :: nat) ^ k \<le> 2 ^ 63" using that by (intro power_increasing) auto
    with n that show ?thesis by (simp add: word_le_nat_alt)
  qed
  then show "checked_next_power_of_two n = None"
    by (auto simp: checked_next_power_of_two_def find_None_iff)
qed

lemma leading_zeros_power: "k < 64 \<Longrightarrow> leading_zeros (2 ^ k) = 63 - k"
proof -
  assume k: "k < 64"
  have "rev [0..<64] = rev [Suc k..<64] @ k # rev [0..<k]"
  proof -
    have "[0..<64] = [0..<k] @ k # [Suc k..<64]" using k upt_add_eq_append [of 0 k "64 - k"] upt_conv_Cons [of k 64] by simp
    then show ?thesis by simp
  qed
  moreover have "takeWhile (\<lambda>j. \<not> bit (2 ^ k :: u64) j) (rev [Suc k..<64] @ k # rev [0..<k]) = rev [Suc k..<64]"
    using k by (subst takeWhile_append2) (auto simp: bit_simps)
  ultimately show ?thesis by (simp add: leading_zeros_def)
qed

text \<open>Clearing and setting the lowest bits of a number.\<close>

lemma unat_take_bit_u64: "unat (take_bit d (w :: u64)) = unat w mod 2 ^ d"
  by (simp add: unsigned_take_bit_eq flip: take_bit_eq_mod)

lemma and_not_mask_eq: "w AND NOT (mask d) = w - take_bit d (w :: u64)"
proof -
  have "w AND NOT (mask d) = push_bit d (drop_bit d w)" by (rule bit_eqI) (auto simp: bit_simps)
  then show ?thesis using bits_ident [of d w] by (simp add: algebra_simps)
qed

lemma unat_and_not_mask: "unat (w AND NOT (mask d) :: u64) = unat w div 2 ^ d * 2 ^ d"
proof -
  have "take_bit d w \<le> w" by (simp add: word_le_nat_alt unat_take_bit_u64)
  then show ?thesis
    by (simp add: and_not_mask_eq unat_sub unat_take_bit_u64 minus_mod_eq_div_mult)
qed

lemma or_mask_eq: "w OR mask d = (w AND NOT (mask d)) + mask d" for w :: u64
proof -
  have "(w AND NOT (mask d)) + mask d = (w AND NOT (mask d)) OR mask d"
    by (rule disjunctive_add_eq_or) (rule bit_eqI, auto simp: bit_simps)
  also have "\<dots> = w OR mask d" by (rule bit_eqI) (auto simp: bit_simps)
  finally show ?thesis by simp
qed

lemma unat_or_mask:
  assumes "d < 64"
  shows "unat (w OR mask d :: u64) = unat w div 2 ^ d * 2 ^ d + (2 ^ d - 1)"
proof -
  have m: "unat (mask d :: u64) = 2 ^ d - 1"
    using assms by (simp add: mask_eq_exp_minus_1 unat_minus_one)
  have "unat w div 2 ^ d < 2 ^ (64 - d)"
    using u64_unat_less [of w] assms
    by (simp add: less_mult_imp_div_less flip: power_add)
  then have "(unat w div 2 ^ d + 1) * 2 ^ d \<le> 2 ^ (64 - d) * 2 ^ d" by (intro mult_right_mono) auto
  also have "\<dots> = 2 ^ 64" using assms by (simp flip: power_add)
  finally have "unat w div 2 ^ d * 2 ^ d + (2 ^ d - 1) < 2 ^ 64"
    using zero_less_power [of "2 :: nat" d] by (simp add: algebra_simps)
  then show ?thesis
    by (simp add: or_mask_eq unat_word_ariths(1) unat_and_not_mask m)
qed

subsection \<open>Byte strings\<close>

text \<open>The bytes of a string literal.\<close>

definition ascii :: "string \<Rightarrow> bytes" where
  "ascii s = map (\<lambda>c. word_of_nat (of_char c)) s"

lemma ascii_char_inject: "(word_of_nat (of_char c) :: u8) = word_of_nat (of_char d) \<longleftrightarrow> c = d"
proof
  assume e: "(word_of_nat (of_char c) :: u8) = word_of_nat (of_char d)"
  have "(of_char c :: nat) < 2 ^ 8" "(of_char d :: nat) < 2 ^ 8"
    using nat_of_char_less_256 [of c] nat_of_char_less_256 [of d] by simp_all
  moreover from e have "(of_char c :: nat) mod 2 ^ 8 = of_char d mod 2 ^ 8" by (simp add: word_of_nat_eq_iff take_bit_eq_mod)
  ultimately show "c = d" by simp
qed simp

lemma ascii_inject [simp]: "ascii s = ascii t \<longleftrightarrow> s = t"
  unfolding ascii_def using inj_mapI [of "\<lambda>c. word_of_nat (of_char c) :: u8"]
  by (metis ascii_char_inject inj_eq injI)

lemma ascii_Nil [simp]: "ascii [] = []" "ascii s = [] \<longleftrightarrow> s = []" "[] = ascii s \<longleftrightarrow> s = []"
  by (auto simp: ascii_def)

text \<open>\<^verbatim>\<open>to_le_bytes\<close> of a number of \<^term>\<open>n\<close> bytes.\<close>

definition to_le_bytes :: "nat \<Rightarrow> 'a::len word \<Rightarrow> bytes" where
  "to_le_bytes n w = map (\<lambda>i. ucast (drop_bit (8 * i) w)) [0..<n]"

lemma length_to_le_bytes [simp]: "length (to_le_bytes n w) = n"
  by (simp add: to_le_bytes_def)

lemma to_le_bytes_inject:
  fixes v w :: "'a::len word"
  assumes "LENGTH('a) \<le> 8 * n" and "to_le_bytes n v = to_le_bytes n w"
  shows "v = w"
proof (rule bit_word_eqI)
  fix k assume k: "k < LENGTH('a)"
  with assms(1) have "k div 8 < n" by linarith
  with assms(2) have "(ucast (drop_bit (8 * (k div 8)) v) :: u8) = ucast (drop_bit (8 * (k div 8)) w)"
    by (auto simp: to_le_bytes_def)
  then have "bit (ucast (drop_bit (8 * (k div 8)) v) :: u8) (k mod 8) = bit (ucast (drop_bit (8 * (k div 8)) w) :: u8) (k mod 8)"
    by simp
  then show "bit v k = bit w k" by (simp add: bit_simps)
qed

lemma to_le_bytes_u64 [simp]: "to_le_bytes 8 v = to_le_bytes 8 w \<longleftrightarrow> v = w" for v w :: u64
  using to_le_bytes_inject [of 8 v w] by auto

lemma to_le_bytes_u32 [simp]: "to_le_bytes 4 v = to_le_bytes 4 w \<longleftrightarrow> v = w" for v w :: u32
  using to_le_bytes_inject [of 4 v w] by auto

end
