(* ===== verification/Crypto_Multisig.thy ===== *)
theory Crypto_Multisig
  imports Rust_Result "HOL-Library.List_Lexorder"
begin

section \<open>Multi-signatures (\<^verbatim>\<open>crypto/multisig/src/lib.rs\<close>)\<close>

text \<open>
  Sets of signers with thresholds, nested to any depth, and the verification of a collection of
  signatures against them. The verification of one signature by one key, of a crate outside the
  repository, is an argument. Signatures are byte strings. The main result is that \<^verbatim>\<open>verify\<close> computes
  a threshold condition on the set of keys that signed, whatever the order and the repetitions of signers and signatures.
\<close>

definition MAX_SIGNATURES :: nat where
  "MAX_SIGNATURES = 10"

datatype 'p signer_set =
  SignerSet (individual_signers: "'p list") (multi_signers: "'p signer_set list") (signer_threshold: u32)

definition new_with_multi :: "'p list \<Rightarrow> 'p signer_set list \<Rightarrow> u32 \<Rightarrow> 'p signer_set" where
  "new_with_multi ks sets t = SignerSet ks sets t"

definition signer_set_new :: "'p list \<Rightarrow> u32 \<Rightarrow> 'p signer_set" where
  "signer_set_new ks t = new_with_multi ks [] t"

definition num_signers :: "'p signer_set \<Rightarrow> nat" where
  "num_signers s = length (individual_signers s) + length (multi_signers s)"

subsection \<open>The derived order\<close>

text \<open>The derived \<^verbatim>\<open>Ord\<close> of a struct and of a vector: lexicographic.\<close>

definition then_cmp :: "rust_ordering \<Rightarrow> rust_ordering \<Rightarrow> rust_ordering" where
  "then_cmp a b = (if a = Equal then b else a)"

fun list_cmp :: "('a \<Rightarrow> 'b \<Rightarrow> rust_ordering) \<Rightarrow> 'a list \<Rightarrow> 'b list \<Rightarrow> rust_ordering" where
  "list_cmp f [] [] = Equal"
| "list_cmp f [] (y # ys) = Less"
| "list_cmp f (x # xs) [] = Greater"
| "list_cmp f (x # xs) (y # ys) = then_cmp (f x y) (list_cmp f xs ys)"

lemma list_cmp_cong [fundef_cong]:
  "xs = xs' \<Longrightarrow> ys = ys' \<Longrightarrow> (\<And>x y. x \<in> set xs' \<Longrightarrow> y \<in> set ys' \<Longrightarrow> f x y = g x y) \<Longrightarrow> list_cmp f xs ys = list_cmp g xs' ys'"
  by (induction f xs ys arbitrary: xs' ys' rule: list_cmp.induct) auto

fun signer_cmp :: "'p::linorder signer_set \<Rightarrow> 'p signer_set \<Rightarrow> rust_ordering" where
  "signer_cmp (SignerSet ks ms t) (SignerSet ks' ms' t') =
     then_cmp (list_cmp cmp_lin ks ks') (then_cmp (list_cmp signer_cmp ms ms') (cmp_lin t t'))"

lemma then_cmp_simps [simp]:
  "then_cmp a b = Equal \<longleftrightarrow> a = Equal \<and> b = Equal"
  "then_cmp a b = Less \<longleftrightarrow> a = Less \<or> a = Equal \<and> b = Less"
  "reverse_ordering (then_cmp a b) = then_cmp (reverse_ordering a) (reverse_ordering b)"
  by (cases a; auto simp: then_cmp_def)+

lemma list_cmp_swap:
  "(\<And>x y. x \<in> set xs \<Longrightarrow> f y x = reverse_ordering (f x y)) \<Longrightarrow> list_cmp f ys xs = reverse_ordering (list_cmp f xs ys)"
  by (induction f xs ys rule: list_cmp.induct) auto

lemma list_cmp_Equal:
  "(\<And>x y. x \<in> set xs \<Longrightarrow> f x y = Equal \<longleftrightarrow> x = y) \<Longrightarrow> list_cmp f xs ys = Equal \<longleftrightarrow> xs = ys"
  by (induction f xs ys rule: list_cmp.induct) auto

lemma list_cmp_Less_trans:
  assumes "\<And>x y z. x \<in> set xs \<Longrightarrow> f x y = Less \<Longrightarrow> f y z = Less \<Longrightarrow> f x z = Less"
    and "\<And>x y. f x y = Equal \<longleftrightarrow> x = y"
    and "list_cmp f xs ys = Less" and "list_cmp f ys zs = Less"
  shows "list_cmp f xs zs = Less"
  using assms(1,3,4)
proof (induction xs arbitrary: ys zs)
  case Nil
  then show ?case by (cases ys; cases zs) auto
next
  case (Cons x xs)
  from Cons.prems(2,3) obtain y ys' z zs' where yz: "ys = y # ys'" "zs = z # zs'"
    by (cases ys; cases zs) auto
  have "f x y = Less \<Longrightarrow> f y z = Less \<Longrightarrow> f x z = Less" using Cons.prems(1) [of x y z] by simp
  moreover have "list_cmp f xs ys' = Less \<Longrightarrow> list_cmp f ys' zs' = Less \<Longrightarrow> list_cmp f xs zs' = Less"
    by (rule Cons.IH) (rule Cons.prems(1), simp_all)
  ultimately show ?case using Cons.prems(2,3) by (auto simp: yz assms(2))
qed

lemma signer_cmp_swap: "signer_cmp b a = reverse_ordering (signer_cmp a b)"
proof (induction a arbitrary: b)
  case (SignerSet ks ms t)
  obtain ks' ms' t' where b: "b = SignerSet ks' ms' t'" by (cases b)
  have "list_cmp signer_cmp ms' ms = reverse_ordering (list_cmp signer_cmp ms ms')"
    by (rule list_cmp_swap) (rule SignerSet)
  moreover have "list_cmp cmp_lin ks' ks = reverse_ordering (list_cmp cmp_lin ks ks')"
    by (rule list_cmp_swap) (rule cmp_lin_swap)
  ultimately show ?case using cmp_lin_swap [of t' t] by (simp add: b)
qed

lemma signer_cmp_Equal: "signer_cmp a b = Equal \<longleftrightarrow> a = b"
proof (induction a arbitrary: b)
  case (SignerSet ks ms t)
  obtain ks' ms' t' where b: "b = SignerSet ks' ms' t'" by (cases b)
  have "list_cmp signer_cmp ms ms' = Equal \<longleftrightarrow> ms = ms'"
    by (rule list_cmp_Equal) (rule SignerSet)
  moreover have "list_cmp cmp_lin ks ks' = Equal \<longleftrightarrow> ks = ks'" by (intro list_cmp_Equal) simp
  ultimately show ?case by (simp add: b)
qed

lemma signer_cmp_refl [simp]: "signer_cmp a a = Equal"
  by (simp add: signer_cmp_Equal)

lemma keys_cmp_Less_trans:
  "list_cmp cmp_lin ks ks1 = Less \<Longrightarrow> list_cmp cmp_lin ks1 ks2 = Less \<Longrightarrow> list_cmp cmp_lin ks ks2 = Less"
  for ks :: "'p::linorder list"
  by (erule (1) list_cmp_Less_trans [rotated 2]) auto

lemma signer_cmp_Less_trans: "signer_cmp a b = Less \<Longrightarrow> signer_cmp b c = Less \<Longrightarrow> signer_cmp a c = Less"
proof (induction a arbitrary: b c)
  case (SignerSet ks ms t)
  obtain ks1 ms1 t1 where b: "b = SignerSet ks1 ms1 t1" by (cases b)
  obtain ks2 ms2 t2 where c: "c = SignerSet ks2 ms2 t2" by (cases c)
  have ms: "list_cmp signer_cmp ms ms1 = Less \<Longrightarrow> list_cmp signer_cmp ms1 ms2 = Less \<Longrightarrow> list_cmp signer_cmp ms ms2 = Less"
    using SignerSet.IH by (intro list_cmp_Less_trans [of ms signer_cmp ms1 ms2] signer_cmp_Equal) blast+
  have eq: "list_cmp signer_cmp x y = Equal \<longleftrightarrow> x = y" "list_cmp cmp_lin k l = Equal \<longleftrightarrow> k = l"
    for x y :: "'a signer_set list" and k l :: "'a list"
    by (simp_all add: list_cmp_Equal signer_cmp_Equal)
  show ?case
    using SignerSet.prems ms keys_cmp_Less_trans [of ks ks1 ks2] by (auto simp: b c eq)
qed

interpretation signer_ord: rust_ord_eq UNIV "signer_cmp :: 'p::linorder signer_set \<Rightarrow> _"
proof unfold_locales
  fix a b c :: "'p signer_set"
  show "signer_cmp b a = reverse_ordering (signer_cmp a b)" by (rule signer_cmp_swap)
  show "signer_cmp a b = Equal \<Longrightarrow> a = b" by (simp add: signer_cmp_Equal)
  show "signer_cmp a b \<noteq> Greater \<Longrightarrow> signer_cmp b c \<noteq> Greater \<Longrightarrow> signer_cmp a c \<noteq> Greater"
    by (cases "signer_cmp a b"; cases "signer_cmp b c") (auto simp: signer_cmp_Equal dest: signer_cmp_Less_trans)
qed

instantiation signer_set :: (linorder) linorder
begin

definition less_eq_signer_set :: "'a signer_set \<Rightarrow> 'a signer_set \<Rightarrow> bool" where
  "less_eq_signer_set a b \<longleftrightarrow> signer_cmp a b \<noteq> Greater"

definition less_signer_set :: "'a signer_set \<Rightarrow> 'a signer_set \<Rightarrow> bool" where
  "less_signer_set a b \<longleftrightarrow> signer_cmp a b = Less"

instance
proof
  fix x y z :: "'a signer_set"
  show "x < y \<longleftrightarrow> x \<le> y \<and> \<not> y \<le> x"
    using signer_cmp_swap [of y x] by (cases "signer_cmp x y") (auto simp: less_eq_signer_set_def less_signer_set_def)
  show "x \<le> x" by (simp add: less_eq_signer_set_def signer_cmp_refl)
  show "x \<le> y \<Longrightarrow> y \<le> z \<Longrightarrow> x \<le> z"
    using signer_ord.cmp_trans [of x y z] by (simp add: less_eq_signer_set_def)
  show "x \<le> y \<Longrightarrow> y \<le> x \<Longrightarrow> x = y"
    using signer_cmp_swap [of y x] by (cases "signer_cmp x y") (auto simp: less_eq_signer_set_def signer_cmp_Equal)
  show "x \<le> y \<or> y \<le> x"
    using signer_ord.cmp_total [of x y] by (simp add: less_eq_signer_set_def)
qed

end

subsection \<open>Validity and verification\<close>

fun signer_set_is_valid :: "'p signer_set \<Rightarrow> bool" where
  "signer_set_is_valid (SignerSet ks ms t) \<longleftrightarrow>
     list_all signer_set_is_valid ms \<and> 0 < t \<and> unat t \<le> num_signers (SignerSet ks ms t)"

datatype signature_error = SignatureError

text \<open>\<^verbatim>\<open>sort\<close> followed by \<^verbatim>\<open>dedup\<close>, which removes consecutive repetitions.\<close>

definition sort_dedup :: "'a::linorder list \<Rightarrow> 'a list" where
  "sort_dedup xs = remdups_adj (sort xs)"

lemma set_sort_dedup [simp]: "set (sort_dedup xs) = set xs"
  by (simp add: sort_dedup_def)

lemma distinct_remdups_adj_sorted: "sorted xs \<Longrightarrow> distinct (remdups_adj xs)"
  for xs :: "'a::linorder list"
proof (induction xs rule: remdups_adj.induct)
  case (3 x y xs)
  then show ?case by (auto dest: order_antisym)
qed auto

lemma sort_dedup_eq: "sort_dedup xs = sorted_list_of_set (set xs)"
proof (rule sorted_distinct_set_unique)
  show "sorted (sort_dedup xs)" by (simp add: sort_dedup_def sorted_remdups_adj)
  show "distinct (sort_dedup xs)" by (simp add: sort_dedup_def distinct_remdups_adj_sorted)
qed simp_all

definition outcome_ok :: "('e, 'a) outcome \<Rightarrow> 'a option" where
  "outcome_ok r = (case r of Ok a \<Rightarrow> Some a | _ \<Rightarrow> None)"

text \<open>
  The keys and the nested sets are visited in sorted order without repetitions; a key matches if one of the signatures
  verifies, a nested set if it verifies the whole collection.
\<close>

function (sequential) verify ::
  "('p::linorder \<Rightarrow> bytes \<Rightarrow> bytes \<Rightarrow> bool) \<Rightarrow> 'p signer_set \<Rightarrow> bytes \<Rightarrow> bytes list \<Rightarrow> (signature_error, 'p list) outcome" where
  "verify ver (SignerSet ks ms t) message multi_sig =
     (if \<not> signer_set_is_valid (SignerSet ks ms t) then Err SignatureError
      else if length multi_sig > MAX_SIGNATURES then Err SignatureError
      else
        let signatures = sort_dedup multi_sig;
            matched = filter (\<lambda>k. list_ex (ver k message) signatures) (sort_dedup ks);
            nested = List.map_filter outcome_ok (map (\<lambda>s. verify ver s message multi_sig) (sort_dedup ms));
            num_matches = length matched + length nested in
        if num_matches < unat t then Err SignatureError
        else Ok (sort_dedup (matched @ concat nested)))"
  by pat_completeness auto
termination
  by (relation "measure (\<lambda>(_, s, _, _). size s)") (auto simp: less_Suc_eq_le intro: trans_le_add2 size_list_estimation')

subsection \<open>What verification decides\<close>

text \<open>
  The keys that signed, the threshold condition on a set of keys, and the keys that count towards it.
\<close>

definition signed_by :: "('p \<Rightarrow> bytes \<Rightarrow> bytes \<Rightarrow> bool) \<Rightarrow> bytes \<Rightarrow> bytes list \<Rightarrow> 'p set" where
  "signed_by ver message multi_sig = {k. \<exists>s \<in> set multi_sig. ver k message s}"

fun satisfied :: "'p set \<Rightarrow> 'p signer_set \<Rightarrow> bool" where
  "satisfied K (SignerSet ks ms t) \<longleftrightarrow>
     signer_set_is_valid (SignerSet ks ms t) \<and>
     unat t \<le> card (set ks \<inter> K) + card (set (filter (satisfied K) ms))"

fun counted :: "'p set \<Rightarrow> 'p signer_set \<Rightarrow> 'p set" where
  "counted K (SignerSet ks ms t) = set ks \<inter> K \<union> \<Union> (set (map (counted K) (filter (satisfied K) ms)))"

lemma finite_counted [simp]: "finite (counted K s)"
  by (induction s) auto

lemma counted_signed: "counted K s \<subseteq> K"
  by (induction s) auto

lemma map_filter_Ok:
  "(\<And>x. x \<in> set xs \<Longrightarrow> f x = (if P x then Ok (g x) else Err e)) \<Longrightarrow>
   List.map_filter outcome_ok (map f xs) = map g (filter P xs)"
  by (induction xs) (simp_all add: List.map_filter_simps outcome_ok_def)

lemma length_filter_sort_dedup: "length (filter P (sort_dedup xs)) = card (set (filter P xs))"
proof -
  have "distinct (filter P (sort_dedup xs))" by (simp add: sort_dedup_eq)
  then have "length (filter P (sort_dedup xs)) = card (set (filter P (sort_dedup xs)))"
    by (rule distinct_card [symmetric])
  then show ?thesis by (simp only: set_filter set_sort_dedup)
qed

lemma verify_satisfied:
  fixes ver :: "'p::linorder \<Rightarrow> bytes \<Rightarrow> bytes \<Rightarrow> bool" and message :: bytes
  assumes "length multi_sig \<le> MAX_SIGNATURES"
  defines "K \<equiv> signed_by ver message multi_sig"
  shows "verify ver s message multi_sig =
    (if satisfied K s then Ok (sorted_list_of_set (counted K s)) else Err SignatureError)"
proof (induction s)
  case (SignerSet ks ms t)
  let ?sigs = "sort_dedup multi_sig"
  let ?k = "filter (\<lambda>k. list_ex (ver k message) ?sigs) (sort_dedup ks)"
  have K: "list_ex (ver k message) ?sigs \<longleftrightarrow> k \<in> K" for k
    by (auto simp: K_def signed_by_def list_ex_iff)
  have nested: "List.map_filter outcome_ok (map (\<lambda>s. verify ver s message multi_sig) (sort_dedup ms)) =
      map (\<lambda>s. sorted_list_of_set (counted K s)) (filter (satisfied K) (sort_dedup ms))"
    by (rule map_filter_Ok) (simp add: SignerSet)
  have "set (filter (\<lambda>k. k \<in> K) ks) = set ks \<inter> K" by auto
  then have lk: "length ?k = card (set ks \<inter> K)" by (simp only: K length_filter_sort_dedup)
  let ?n = "map (\<lambda>s. sorted_list_of_set (counted K s)) (filter (satisfied K) (sort_dedup ms))"
  have "set (?k @ concat ?n) = counted K (SignerSet ks ms t)" by (auto simp: K)
  then have res: "sort_dedup (?k @ concat ?n) = sorted_list_of_set (counted K (SignerSet ks ms t))"
    by (simp only: sort_dedup_eq)
  have ln: "length ?n = card (set (filter (satisfied K) ms))"
    by (simp only: length_map length_filter_sort_dedup)
  show ?case
    using assms(1) unfolding verify.simps Let_def nested lk ln res satisfied.simps by (simp only: not_less not_le if_not_P) auto
qed

text \<open>C39. Verification against a signer set, for every set and every collection of signatures: more than
  ten signatures are refused, and otherwise the answer depends only on the set of keys for which some signature
  verifies. It is \<^verbatim>\<open>Ok\<close> exactly when, at every level that counts, the set is valid and the number of
  different own keys that signed plus the number of different nested sets that are satisfied reaches the threshold, and then it
  lists, sorted and without repetitions, the keys of the satisfied levels that signed.\<close>

theorem verify_exact:
  "verify ver s message multi_sig =
     (let K = signed_by ver message multi_sig in
      if length multi_sig \<le> MAX_SIGNATURES \<and> satisfied K s then Ok (sorted_list_of_set (counted K s))
      else Err SignatureError)"
proof (cases "length multi_sig \<le> MAX_SIGNATURES")
  case True
  then show ?thesis using verify_satisfied [OF True, of ver s message] by (simp add: Let_def)
next
  case False
  then show ?thesis by (cases s) (simp add: Let_def)
qed

end
