(* ===== verification/Tx_Membership.thy ===== *)
theory Tx_Membership
  imports Rust_Result
begin

section \<open>Membership proofs (\<^verbatim>\<open>transaction/core/src/membership_proofs\<close>)\<close>

text \<open>
  Ranges of leaf indices, the elements of a Merkle proof of membership, the check of a proof and
  the derivation of the proof for the tree at the time an output was added. The hash function
  \<^verbatim>\<open>Blake2b256\<close> and the hash of an output (\<^verbatim>\<open>TxOut::hash\<close>, a Merlin transcript) come from other
  packages; they and the codec of the ledger are the fields of \<open>txo_env\<close>. Hashes are byte
  strings; the type \<^verbatim>\<open>[u8; 32]\<close> is the predicate \<open>is_hash\<close>. The constant-time selections of the
  source are conditionals.
\<close>

record 'out txo_env =
  blake2b256 :: "bytes \<Rightarrow> bytes"
  tx_out_hash :: "'out \<Rightarrow> bytes"
  public_key :: "'out \<Rightarrow> bytes"
  encode :: "'out \<Rightarrow> bytes"
  decode :: "bytes \<Rightarrow> 'out option"

definition is_hash :: "bytes \<Rightarrow> bool" where
  "is_hash h \<longleftrightarrow> length h = 32"

subsection \<open>Ranges\<close>

record leaf_range =
  r_from :: u64
  r_to :: u64

datatype range_error = RangeError

definition range_new :: "u64 \<Rightarrow> u64 \<Rightarrow> (range_error, leaf_range) outcome" where
  "range_new from to = (if from \<le> to then Ok \<lparr>r_from = from, r_to = to\<rparr> else Err RangeError)"

definition range_len :: "leaf_range \<Rightarrow> u64" where
  "range_len r = (if r_from r \<le> r_to r then r_to r - r_from r + 1 else r_from r - r_to r + 1)"

definition range_cmp :: "leaf_range \<Rightarrow> leaf_range \<Rightarrow> rust_ordering" where
  "range_cmp a b =
     (if range_len a \<noteq> range_len b then cmp_lin (range_len a) (range_len b)
      else cmp_lin (r_from a, r_to a) (r_from b, r_to b))"

subsection \<open>Elements and proofs\<close>

record membership_element =
  me_range :: leaf_range
  me_hash :: bytes

record membership_proof =
  mp_index :: u64
  mp_highest_index :: u64
  mp_elements :: "membership_element list"

datatype membership_error =
    IncorrectLeafHash u64
  | MissingLeafHash u64
  | MembershipRangeError range_error
  | UnexpectedMembershipElement nat
  | HighestIndexMismatch
  | RootNotCoveringZero
  | TxOutSerializationError
  | NumericLimitsExceeded

datatype ranges_not_adjacent_error = RangesNotAdjacentError

definition TXOUT_MERKLE_LEAF_DOMAIN_TAG :: bytes where
  "TXOUT_MERKLE_LEAF_DOMAIN_TAG = ascii ''mc_tx_out_merkle_leaf''"

definition TXOUT_MERKLE_NODE_DOMAIN_TAG :: bytes where
  "TXOUT_MERKLE_NODE_DOMAIN_TAG = ascii ''mc_tx_out_merkle_node''"

definition TXOUT_MERKLE_NIL_DOMAIN_TAG :: bytes where
  "TXOUT_MERKLE_NIL_DOMAIN_TAG = ascii ''mc_tx_out_merkle_nil''"

definition hash_leaf :: "'out txo_env \<Rightarrow> 'out \<Rightarrow> bytes" where
  "hash_leaf E tx_out = blake2b256 E (TXOUT_MERKLE_LEAF_DOMAIN_TAG @ tx_out_hash E tx_out)"

definition hash_nodes :: "'out txo_env \<Rightarrow> bytes \<Rightarrow> bytes \<Rightarrow> bytes" where
  "hash_nodes E left right = blake2b256 E (TXOUT_MERKLE_NODE_DOMAIN_TAG @ left @ right)"

definition hash_nil :: "'out txo_env \<Rightarrow> bytes" where
  "hash_nil E = blake2b256 E TXOUT_MERKLE_NIL_DOMAIN_TAG"

definition compose_adjacent_membership_elements ::
  "'out txo_env \<Rightarrow> membership_element \<Rightarrow> membership_element \<Rightarrow>
   (ranges_not_adjacent_error, membership_element) outcome" where
  "compose_adjacent_membership_elements E a b =
     (let a_is_left = (r_to (me_range a) + 1 = r_from (me_range b));
          b_is_left = (r_to (me_range b) + 1 = r_from (me_range a)) in
      if a_is_left = b_is_left then Err RangesNotAdjacentError
      else Ok \<lparr>me_range = \<lparr>r_from = (if b_is_left then r_from (me_range b) else r_from (me_range a)),
                           r_to = (if b_is_left then r_to (me_range a) else r_to (me_range b))\<rparr>,
               me_hash = hash_nodes E (if b_is_left then me_hash b else me_hash a)
                                      (if b_is_left then me_hash a else me_hash b)\<rparr>)"

definition list_first :: "'a list \<Rightarrow> 'a option" where
  "list_first xs = (case xs of [] \<Rightarrow> None | x # _ \<Rightarrow> Some x)"

definition compute_implied_merkle_root ::
  "'out txo_env \<Rightarrow> membership_proof \<Rightarrow> (membership_error, membership_element) outcome" where
  "compute_implied_merkle_root E proof =
     (if list_ex (\<lambda>e. r_from (me_range e) > r_to (me_range e)) (mp_elements proof)
      then Err (MembershipRangeError RangeError)
      else and_then (ok_or (MissingLeafHash (mp_index proof)) (list_first (mp_elements proof)))
        (\<lambda>first. if r_from (me_range first) \<noteq> mp_index proof \<or> r_to (me_range first) \<noteq> mp_index proof
                 then Err (MissingLeafHash (mp_index proof))
                 else try_fold
                   (\<lambda>prev (idx, next). map_err (\<lambda>_. UnexpectedMembershipElement (idx + 1))
                      (compose_adjacent_membership_elements E prev next))
                   first (enumerate 0 (tl (mp_elements proof)))))"

definition is_membership_proof_valid ::
  "'out txo_env \<Rightarrow> 'out \<Rightarrow> membership_proof \<Rightarrow> bytes \<Rightarrow> (membership_error, bool) outcome" where
  "is_membership_proof_valid E tx_out proof known_root_hash =
     (if mp_index proof > mp_highest_index proof then Err HighestIndexMismatch
      else and_then (ok_or (MissingLeafHash (mp_index proof)) (list_first (mp_elements proof)))
        (\<lambda>first. if r_from (me_range first) \<noteq> mp_index proof \<or> r_to (me_range first) \<noteq> mp_index proof
                 then Err (MissingLeafHash (mp_index proof))
                 else if me_hash first \<noteq> hash_leaf E tx_out
                 then Err (IncorrectLeafHash (r_from (me_range first)))
                 else and_then (compute_implied_merkle_root E proof)
                   (\<lambda>implied_root.
                      if r_from (me_range implied_root) \<noteq> 0 then Err RootNotCoveringZero
                      else if mp_highest_index proof > r_to (me_range implied_root)
                      then Err HighestIndexMismatch
                      else Ok (me_hash implied_root = known_root_hash))))"

text \<open>The loop of \<^verbatim>\<open>derive_proof_at_index\<close>.\<close>

fun derive_elements ::
  "'out txo_env \<Rightarrow> u64 \<Rightarrow> leaf_range \<Rightarrow> nat \<Rightarrow> membership_element list \<Rightarrow>
   (membership_error, membership_element list) outcome" where
  "derive_elements E index derived_root_range element_idx [] = Ok []"
| "derive_elements E index derived_root_range element_idx (element # elements) =
     (if range_cmp (me_range element) derived_root_range = Greater
      then derive_elements E index derived_root_range (Suc element_idx) elements
      else and_then
        (if r_from (me_range element) > index then Ok (hash_nil E)
         else if r_from (me_range element) = r_to (me_range element) then Ok (me_hash element)
         else if r_to (me_range element) \<le> index then Ok (me_hash element)
         else Err (UnexpectedMembershipElement element_idx))
        (\<lambda>hash. and_then (derive_elements E index derived_root_range (Suc element_idx) elements)
          (\<lambda>derived. Ok (\<lparr>me_range = me_range element, me_hash = hash\<rparr> # derived))))"

definition derive_proof_at_index ::
  "'out txo_env \<Rightarrow> membership_proof \<Rightarrow> (membership_error, membership_proof) outcome" where
  "derive_proof_at_index E initial_proof =
     (let index = mp_index initial_proof in
      and_then (ok_or NumericLimitsExceeded (checked_next_power_of_two (index + 1)))
        (\<lambda>num_leaves_full_tree.
           and_then (map_err MembershipRangeError (range_new 0 (num_leaves_full_tree - 1)))
             (\<lambda>derived_root_range.
                and_then (derive_elements E index derived_root_range 0 (mp_elements initial_proof))
                  (\<lambda>derived_elements.
                     Ok \<lparr>mp_index = index, mp_highest_index = index, mp_elements = derived_elements\<rparr>))))"

subsection \<open>The Merkle tree over a list of outputs\<close>

text \<open>
  The reference: the hash of the \<open>k\<close>-th subtree of depth \<open>d\<close> in the full tree over the outputs,
  where a subtree without outputs has the nil hash.
\<close>

primrec merkle_hash :: "'out txo_env \<Rightarrow> 'out list \<Rightarrow> nat \<Rightarrow> nat \<Rightarrow> bytes" where
  "merkle_hash E xs 0 k = (if k < length xs then hash_leaf E (xs ! k) else hash_nil E)"
| "merkle_hash E xs (Suc d) k =
     (if k * 2 ^ Suc d < length xs
      then hash_nodes E (merkle_hash E xs d (2 * k)) (merkle_hash E xs d (2 * k + 1))
      else hash_nil E)"

definition merkle_root :: "'out txo_env \<Rightarrow> 'out list \<Rightarrow> bytes" where
  "merkle_root E xs = merkle_hash E xs (ceil_log2 (length xs)) 0"

lemma merkle_hash_nil: "length xs \<le> k * 2 ^ d \<Longrightarrow> merkle_hash E xs d k = hash_nil E"
  by (cases d) auto

text \<open>A subtree whose leaves are all taken does not change any more.\<close>

lemma merkle_hash_full:
  "(k + 1) * 2 ^ d \<le> length xs \<Longrightarrow> merkle_hash E (xs @ ys) d k = merkle_hash E xs d k"
proof (induction d arbitrary: k)
  case 0
  then show ?case by (simp add: nth_append)
next
  case (Suc d)
  have "(2 * k + 1) * 2 ^ d \<le> length xs" "(2 * k + 1 + 1) * 2 ^ d \<le> length xs"
    using Suc.prems by (auto simp: algebra_simps)
  moreover have "k * 2 ^ Suc d < length xs"
  proof -
    have "k * 2 ^ Suc d < (k + 1) * 2 ^ Suc d" by simp
    also note Suc.prems
    finally show ?thesis .
  qed
  ultimately show ?case using Suc.IH [of "2 * k"] Suc.IH [of "2 * k + 1"] by simp
qed

subsection \<open>The ranges of a tree\<close>

definition node_range :: "nat \<Rightarrow> nat \<Rightarrow> leaf_range" where
  "node_range d k = \<lparr>r_from = word_of_nat (k * 2 ^ d), r_to = word_of_nat (k * 2 ^ d + (2 ^ d - 1))\<rparr>"

text \<open>The other child of the parent.\<close>

definition sibling :: "nat \<Rightarrow> nat" where
  "sibling k = (if even k then k + 1 else k - 1)"

definition tree_element :: "'out txo_env \<Rightarrow> 'out list \<Rightarrow> nat \<Rightarrow> nat \<Rightarrow> membership_element" where
  "tree_element E xs d k = \<lparr>me_range = node_range d k, me_hash = merkle_hash E xs d k\<rparr>"

text \<open>The elements of the proof for index \<open>i\<close> in a tree of depth \<open>D\<close>.\<close>

definition path_elements :: "'out txo_env \<Rightarrow> 'out list \<Rightarrow> nat \<Rightarrow> nat \<Rightarrow> membership_element list" where
  "path_elements E xs i D =
     tree_element E xs 0 i # map (\<lambda>d. tree_element E xs d (sibling (i div 2 ^ d))) [0..<D]"

lemma unat_node_range:
  assumes "(k + 1) * 2 ^ d \<le> 2 ^ 63"
  shows "unat (r_from (node_range d k)) = k * 2 ^ d"
    and "unat (r_to (node_range d k)) = k * 2 ^ d + (2 ^ d - 1)"
    and "unat (r_to (node_range d k) + 1) = (k + 1) * 2 ^ d"
proof -
  have p: "0 < (2 :: nat) ^ d" by simp
  have b: "k * 2 ^ d + 2 ^ d \<le> 2 ^ 63" using assms by (simp add: algebra_simps)
  have "k * 2 ^ d + (2 ^ d - 1) < 2 ^ 63" using b p by linarith
  also have "(2 :: nat) ^ 63 < 2 ^ 64" by simp
  finally have "k * 2 ^ d + (2 ^ d - 1) < 2 ^ 64" .
  moreover from this have "k * 2 ^ d < 2 ^ 64" by linarith
  ultimately show f: "unat (r_from (node_range d k)) = k * 2 ^ d"
    "unat (r_to (node_range d k)) = k * 2 ^ d + (2 ^ d - 1)"
    by (simp_all only: node_range_def leaf_range.simps unat_of_nat_u64)
  have "unat (r_to (node_range d k) + 1) = (unat (r_to (node_range d k)) + 1) mod 2 ^ 64"
    by (simp add: unat_word_ariths(1))
  also have "unat (r_to (node_range d k)) + 1 = (k + 1) * 2 ^ d" using f(2) p by (simp add: algebra_simps)
  finally show "unat (r_to (node_range d k) + 1) = (k + 1) * 2 ^ d" using b by (simp add: algebra_simps)
qed

lemma node_range_wf: "(k + 1) * 2 ^ d \<le> 2 ^ 63 \<Longrightarrow> r_from (node_range d k) \<le> r_to (node_range d k)"
  by (simp only: word_le_nat_alt unat_node_range le_add1)

subsection \<open>Checking the proof of a path\<close>

lemma div_Suc_power: "i div 2 ^ Suc d = i div 2 ^ d div (2 :: nat)"
  by (simp only: power_Suc2 div_mult2_eq)

text \<open>Adjacent subtrees compose to their parent, in either order.\<close>

lemma compose_children:
  assumes "(k + 1) * 2 ^ Suc d \<le> 2 ^ 63" and "k * 2 ^ Suc d < length xs"
  shows "compose_adjacent_membership_elements E (tree_element E xs d (2 * k)) (tree_element E xs d (2 * k + 1))
      = Ok (tree_element E xs (Suc d) k)"
    and "compose_adjacent_membership_elements E (tree_element E xs d (2 * k + 1)) (tree_element E xs d (2 * k))
      = Ok (tree_element E xs (Suc d) k)"
proof -
  let ?l = "node_range d (2 * k)" and ?r = "node_range d (2 * k + 1)"
  have p: "0 < (2 :: nat) ^ d" by simp
  have l: "(2 * k + 1) * 2 ^ d \<le> 2 ^ 63" and r: "(2 * k + 1 + 1) * 2 ^ d \<le> 2 ^ 63"
    using assms(1) by (auto simp: algebra_simps)
  note L = unat_node_range [OF l] and R = unat_node_range [OF r]
  have 1: "r_to ?l + 1 = r_from ?r" unfolding u64_eq_iff using L(3) R(1) by simp
  have 2: "r_to ?r + 1 \<noteq> r_from ?l" unfolding u64_eq_iff using L(1) R(3) p by simp
  have "r_from ?l = r_from (node_range (Suc d) k)" by (simp add: node_range_def algebra_simps)
  moreover have "(2 * k + 1) * 2 ^ d + (2 ^ d - 1) = k * 2 ^ Suc d + (2 ^ Suc d - (1 :: nat))"
    using p by (cases "(2 :: nat) ^ d") (simp_all add: algebra_simps)
  then have "r_to ?r = r_to (node_range (Suc d) k)" by (simp only: node_range_def leaf_range.simps)
  ultimately have e: "\<lparr>r_from = r_from ?l, r_to = r_to ?r\<rparr> = node_range (Suc d) k" by simp
  show "compose_adjacent_membership_elements E (tree_element E xs d (2 * k)) (tree_element E xs d (2 * k + 1))
      = Ok (tree_element E xs (Suc d) k)"
    "compose_adjacent_membership_elements E (tree_element E xs d (2 * k + 1)) (tree_element E xs d (2 * k))
      = Ok (tree_element E xs (Suc d) k)"
    using 1 2 e assms(2) by (simp_all add: compose_adjacent_membership_elements_def tree_element_def Let_def)
qed

lemma compose_sibling:
  assumes "(i div 2 ^ Suc d + 1) * 2 ^ Suc d \<le> 2 ^ 63" and "i < length xs"
  shows "compose_adjacent_membership_elements E (tree_element E xs d (i div 2 ^ d))
      (tree_element E xs d (sibling (i div 2 ^ d))) = Ok (tree_element E xs (Suc d) (i div 2 ^ Suc d))"
proof -
  let ?k = "i div 2 ^ Suc d"
  have h: "?k = i div 2 ^ d div 2" by (rule div_Suc_power)
  have "?k * 2 ^ Suc d \<le> i" by (rule div_times_less_eq_dividend)
  with assms(2) have n: "?k * 2 ^ Suc d < length xs" by linarith
  note c = compose_children [OF assms(1) n, of E]
  show ?thesis
  proof (cases "even (i div 2 ^ d)")
    case True
    then have "i div 2 ^ d = 2 * ?k" using h by auto
    with c(1) True show ?thesis by (simp add: sibling_def)
  next
    case False
    then have "i div 2 ^ d = 2 * ?k + 1" using h by (metis odd_two_times_div_two_succ)
    with c(2) False show ?thesis by (simp add: sibling_def)
  qed
qed

lemma path_block_bound:
  assumes "i < 2 ^ D" and "d \<le> D" and "D \<le> 63"
  shows "(i div 2 ^ d + 1) * 2 ^ d \<le> (2 :: nat) ^ 63"
proof -
  have D: "(2 :: nat) ^ D = 2 ^ (D - d) * 2 ^ d" using assms(2) by (simp flip: power_add)
  with assms(1) have "i div 2 ^ d < 2 ^ (D - d)" by (simp add: less_mult_imp_div_less)
  then have "(i div 2 ^ d + 1) * 2 ^ d \<le> 2 ^ (D - d) * 2 ^ d" by (intro mult_right_mono) auto
  also have "\<dots> \<le> 2 ^ 63" unfolding D [symmetric] using assms(3) by (intro power_increasing) auto
  finally show ?thesis .
qed

lemma sibling_le: "sibling m + 1 \<le> (m div 2 + 1) * 2"
  by (auto simp: sibling_def elim!: oddE)

lemma sibling_block_bound:
  assumes "i < 2 ^ D" and "d < D" and "D \<le> 63"
  shows "(sibling (i div 2 ^ d) + 1) * 2 ^ d \<le> (2 :: nat) ^ 63"
proof -
  have b: "(i div 2 ^ Suc d + 1) * 2 ^ Suc d \<le> (2 :: nat) ^ 63"
    using assms by (intro path_block_bound [of i D]) auto
  have "sibling (i div 2 ^ d) + 1 \<le> (i div 2 ^ Suc d + 1) * 2"
    unfolding div_Suc_power by (rule sibling_le)
  then have "(sibling (i div 2 ^ d) + 1) * 2 ^ d \<le> (i div 2 ^ Suc d + 1) * 2 * 2 ^ d"
    by (rule mult_right_mono) simp
  with b show ?thesis by (simp add: mult.assoc)
qed

lemma implied_root_path:
  assumes "i < length xs" and "i < 2 ^ D" and "D \<le> 63"
  shows "compute_implied_merkle_root E
      \<lparr>mp_index = word_of_nat i, mp_highest_index = h, mp_elements = path_elements E xs i D\<rparr>
    = Ok (tree_element E xs D 0)"
proof -
  let ?f = "\<lambda>prev (idx, next). map_err (\<lambda>_. UnexpectedMembershipElement (idx + 1))
      (compose_adjacent_membership_elements E prev next)"
  let ?es = "map (\<lambda>d. tree_element E xs d (sibling (i div 2 ^ d))) [0..<D]"
  have "\<exists>t. try_fold ?f (tree_element E xs 0 i) (enumerate 0 ?es) = Ok t \<and>
      t = tree_element E xs (length (enumerate 0 ?es)) (i div 2 ^ length (enumerate 0 ?es))"
  proof (rule try_fold_inv)
    fix d t
    assume d: "d < length (enumerate 0 ?es)" and t: "t = tree_element E xs d (i div 2 ^ d)"
    then have n: "enumerate 0 ?es ! d = (d, tree_element E xs d (sibling (i div 2 ^ d)))"
      by (simp add: nth_enumerate_eq)
    have "(i div 2 ^ Suc d + 1) * 2 ^ Suc d \<le> 2 ^ 63"
      using d assms by (intro path_block_bound [of i D]) auto
    from compose_sibling [OF this assms(1), of E] t n
    show "\<exists>u. ?f t (enumerate 0 ?es ! d) = Ok u \<and> u = tree_element E xs (Suc d) (i div 2 ^ Suc d)"
      by simp
  qed simp
  then have fold: "try_fold ?f (tree_element E xs 0 i) (enumerate 0 ?es) = Ok (tree_element E xs D 0)"
    using assms(2) by simp
  have wf: "\<not> r_to (node_range d (sibling (i div 2 ^ d))) < r_from (node_range d (sibling (i div 2 ^ d)))"
    if "d < D" for d
    using node_range_wf [OF sibling_block_bound [OF assms(2) that assms(3)]] by simp
  have leaf: "node_range 0 i = \<lparr>r_from = word_of_nat i, r_to = word_of_nat i\<rparr>" by (simp add: node_range_def)
  have "\<not> list_ex (\<lambda>e. r_to (me_range e) < r_from (me_range e)) (path_elements E xs i D)"
    using wf leaf by (auto simp: path_elements_def list_ex_iff tree_element_def)
  with fold show ?thesis
    by (simp add: compute_implied_merkle_root_def path_elements_def list_first_def)
       (simp add: tree_element_def leaf)
qed

lemma path_proof_valid:
  assumes "i < length xs" and "length xs \<le> 2 ^ D" and "D \<le> 63" and "i \<le> h" and "h < 2 ^ D"
  shows "is_membership_proof_valid E (xs ! i)
      \<lparr>mp_index = word_of_nat i, mp_highest_index = word_of_nat h, mp_elements = path_elements E xs i D\<rparr>
      (merkle_hash E xs D 0) = Ok True"
proof -
  have i: "i < 2 ^ D" using assms(1,2) by linarith
  have D: "(2 :: nat) ^ D \<le> 2 ^ 63" using assms(3) by (intro power_increasing) auto
  then have le: "unat (word_of_nat i :: u64) = i" "unat (word_of_nat h :: u64) = h"
    using i assms(5) by (simp_all add: unat_of_nat_u64)
  have root: "unat (r_from (node_range D 0)) = 0" "unat (r_to (node_range D 0)) = 2 ^ D - 1"
    using unat_node_range(1,2) [of 0 D] D by simp_all
  have "r_from (node_range D 0) = 0" by (simp add: node_range_def)
  moreover have "\<not> (r_to (node_range D 0) < word_of_nat h)"
    using root(2) le(2) assms(5) by (simp add: word_less_nat_alt)
  moreover have "\<not> (word_of_nat h < (word_of_nat i :: u64))"
    using le assms(4) by (simp add: word_less_nat_alt)
  moreover have "list_first (path_elements E xs i D) = Some (tree_element E xs 0 i)"
    by (simp add: path_elements_def list_first_def)
  moreover have "node_range 0 i = \<lparr>r_from = word_of_nat i, r_to = word_of_nat i\<rparr>" by (simp add: node_range_def)
  ultimately show ?thesis
    using implied_root_path [OF assms(1) i assms(3), of E] assms(1)
    by (simp add: is_membership_proof_valid_def tree_element_def)
qed

subsection \<open>Rolling a proof back\<close>

lemma range_len_node:
  assumes "(k + 1) * 2 ^ d \<le> 2 ^ 63"
  shows "unat (range_len (node_range d k)) = 2 ^ d"
proof -
  note u = unat_node_range [OF assms]
  have "range_len (node_range d k) = r_to (node_range d k) + 1 - r_from (node_range d k)"
    using node_range_wf [OF assms] by (simp add: range_len_def)
  moreover have "r_from (node_range d k) \<le> r_to (node_range d k) + 1"
    by (simp add: word_le_nat_alt u)
  ultimately have "unat (range_len (node_range d k)) = (k + 1) * 2 ^ d - k * 2 ^ d"
    by (simp only: unat_sub u)
  then show ?thesis by simp
qed

lemma range_cmp_node:
  assumes "(k + 1) * 2 ^ d \<le> 2 ^ 63" and "2 ^ D \<le> (2 :: nat) ^ 63"
  shows "range_cmp (node_range d k) (node_range D 0) = Greater \<longleftrightarrow> D < d \<or> d = D \<and> 0 < k"
proof -
  have D: "(0 + 1) * 2 ^ D \<le> (2 :: nat) ^ 63" using assms(2) by simp
  note l = range_len_node [OF assms(1)] range_len_node [OF D]
  note u = unat_node_range [OF assms(1)] unat_node_range [OF D]
  show ?thesis
  proof (cases "d = D")
    case True
    with l have "range_len (node_range d k) = range_len (node_range D 0)" by (simp add: u64_eq_iff)
    moreover have "r_from (node_range D 0) < r_from (node_range D k)" if "0 < k"
      using u that True by (simp add: word_less_nat_alt)
    ultimately show ?thesis using True by (cases "k = 0") (auto simp: range_cmp_def less_prod_def)
  next
    case False
    then have "range_len (node_range d k) \<noteq> range_len (node_range D 0)" using l by (auto simp: u64_eq_iff)
    with False l show ?thesis by (auto simp: range_cmp_def word_less_nat_alt power_strict_increasing_iff)
  qed
qed

text \<open>What the loop does with one element of a path: it keeps the levels of the smaller tree.\<close>

lemma derive_element_hash:
  assumes "i < length xs" and "k \<noteq> i div 2 ^ d" and "(k + 1) * 2 ^ d \<le> 2 ^ 63" and "i < 2 ^ 63"
  shows "(if r_from (node_range d k) > word_of_nat i then Ok (hash_nil E)
     else if r_from (node_range d k) = r_to (node_range d k) then Ok (merkle_hash E xs d k)
     else if r_to (node_range d k) \<le> word_of_nat i then Ok (merkle_hash E xs d k)
     else Err e) = Ok (merkle_hash E (take (i + 1) xs) d k)"
proof -
  note u = unat_node_range [OF assms(3)]
  have i: "unat (word_of_nat i :: u64) = i" using assms(4) by (simp add: unat_of_nat_u64)
  show ?thesis
  proof (cases "i < k * 2 ^ d")
    case True
    then have "length (take (i + 1) xs) \<le> k * 2 ^ d" by simp
    from merkle_hash_nil [OF this, of E] True u i show ?thesis by (simp add: word_less_nat_alt)
  next
    case False
    then have "k \<le> i div 2 ^ d" by (simp add: less_eq_div_iff_mult_less_eq)
    with assms(2) have "k + 1 \<le> i div 2 ^ d" by simp
    then have le: "(k + 1) * 2 ^ d \<le> i" by (simp add: less_eq_div_iff_mult_less_eq)
    then have "(k + 1) * 2 ^ d \<le> length (take (i + 1) xs)" using assms(1) by simp
    from merkle_hash_full [OF this, of E "drop (i + 1) xs"]
    have h: "merkle_hash E xs d k = merkle_hash E (take (i + 1) xs) d k" by simp
    have "unat (r_to (node_range d k)) \<le> i" using u(2) le zero_less_power [of "2 :: nat" d]
      by (simp add: algebra_simps)
    with False u(1) i h show ?thesis by (simp add: word_less_nat_alt word_le_nat_alt)
  qed
qed

lemma sibling_neq: "sibling m \<noteq> m"
  by (auto simp: sibling_def elim!: oddE)

lemma derive_elements_path:
  assumes "i < length xs" and "i < 2 ^ D" and "D \<le> 63" and "D' = ceil_log2 (i + 1)" and "d0 \<le> D"
  shows "derive_elements E (word_of_nat i) (node_range D' 0) n
      (map (\<lambda>d. tree_element E xs d (sibling (i div 2 ^ d))) [d0..<D])
    = Ok (map (\<lambda>d. tree_element E (take (i + 1) xs) d (sibling (i div 2 ^ d))) [d0..<D'])"
  using assms(5)
proof (induction "D - d0" arbitrary: d0 n)
  case 0
  have "D' \<le> D" using assms(2,4) by (simp add: ceil_log2_le)
  with 0 show ?case by simp
next
  case (Suc m)
  then have d0: "d0 < D" and m: "m = D - Suc d0" "Suc d0 \<le> D" by auto
  note IH = Suc.hyps(1) [OF m, of "Suc n"]
  have DD: "D' \<le> D" using assms(2,4) by (simp add: ceil_log2_le)
  then have pD: "(2 :: nat) ^ D' \<le> 2 ^ 63" using assms(3) by (intro power_increasing) auto
  note b = sibling_block_bound [OF assms(2) d0 assms(3)]
  have "(2 :: nat) ^ D \<le> 2 ^ 63" using assms(3) by (intro power_increasing) auto
  with assms(2) have i63: "i < 2 ^ 63" by linarith
  have i: "i < 2 ^ D'" using ceil_log2_bounds(1) [of "i + 1"] assms(4) by simp
  have split: "[d0..<D] = d0 # [Suc d0..<D]" using d0 by (simp add: upt_conv_Cons)
  show ?case
  proof (cases "d0 < D'")
    case True
    then have "range_cmp (node_range d0 (sibling (i div 2 ^ d0))) (node_range D' 0) \<noteq> Greater"
      using range_cmp_node [OF b pD] by simp
    with IH True split derive_element_hash [OF assms(1) sibling_neq b i63, of E "UnexpectedMembershipElement n"]
    show ?thesis by (simp add: tree_element_def upt_conv_Cons [of d0 D'] split del: if_split cong: if_cong)
  next
    case False
    have "range_cmp (node_range d0 (sibling (i div 2 ^ d0))) (node_range D' 0) = Greater"
    proof (cases "d0 = D'")
      case True
      with i have "i div 2 ^ d0 = 0" by simp
      with True show ?thesis using range_cmp_node [OF b pD] by (simp add: sibling_def)
    next
      case False
      with \<open>\<not> d0 < D'\<close> show ?thesis using range_cmp_node [OF b pD] by simp
    qed
    with IH False split show ?thesis by (simp add: tree_element_def)
  qed
qed

lemma derive_path:
  assumes "i < length xs" and "i < 2 ^ D" and "D \<le> 63"
  shows "derive_proof_at_index E
      \<lparr>mp_index = word_of_nat i, mp_highest_index = h, mp_elements = path_elements E xs i D\<rparr>
    = Ok \<lparr>mp_index = word_of_nat i, mp_highest_index = word_of_nat i,
          mp_elements = path_elements E (take (i + 1) xs) i (ceil_log2 (i + 1))\<rparr>"
proof -
  let ?D = "ceil_log2 (i + 1)"
  have D: "(2 :: nat) ^ D \<le> 2 ^ 63" using assms(3) by (intro power_increasing) auto
  have u: "unat (word_of_nat i :: u64) = i" "unat (word_of_nat i + 1 :: u64) = i + 1"
    using assms(2) D unat_of_nat_u64 [of i] unat_of_nat_u64 [of "i + 1"] by (auto simp: add.commute)
  have "unat (word_of_nat i + 1 :: u64) \<le> 2 ^ 63" using u(2) assms(2) D by linarith
  note p = checked_next_power_of_two_Some [OF this, unfolded u(2)]
  have DD: "?D \<le> D" using assms(2) by (simp add: ceil_log2_le)
  then have pD: "(2 :: nat) ^ ?D \<le> 2 ^ 63" using assms(3) by (intro power_increasing) auto
  have r: "range_new 0 (2 ^ ?D - 1) = Ok (node_range ?D 0)"
    by (simp add: range_new_def node_range_def of_nat_diff word_le_nat_alt)
  have leaf: "node_range 0 i = \<lparr>r_from = word_of_nat i, r_to = word_of_nat i\<rparr>" by (simp add: node_range_def)
  have b0: "(i + 1) * 2 ^ 0 \<le> 2 ^ 63" using assms(2) D by simp
  have "range_cmp (node_range 0 i) (node_range ?D 0) \<noteq> Greater"
  proof (cases "?D = 0")
    case True
    with ceil_log2_bounds(1) [of "i + 1"] have "i = 0" by simp
    with True show ?thesis using range_cmp_node [OF b0 pD] by simp
  qed (use range_cmp_node [OF b0 pD] in simp)
  moreover have "merkle_hash E xs 0 i = merkle_hash E (take (i + 1) xs) 0 i" using assms(1) by simp
  ultimately show ?thesis
    using derive_elements_path [OF assms refl, of 0 E 1] p(1) r leaf assms(1)
    by (simp add: derive_proof_at_index_def path_elements_def tree_element_def Let_def)
qed

subsection \<open>Soundness\<close>

text \<open>
  The strings that are hashed to build a subtree, and those that are hashed to check a proof. A
  proof that the check accepts and that is not in the tree exhibits two different strings among
  them with the same hash.
\<close>

primrec tree_preimages :: "'out txo_env \<Rightarrow> 'out list \<Rightarrow> nat \<Rightarrow> nat \<Rightarrow> bytes set" where
  "tree_preimages E xs 0 k =
     (if k < length xs then {TXOUT_MERKLE_LEAF_DOMAIN_TAG @ tx_out_hash E (xs ! k)}
      else {TXOUT_MERKLE_NIL_DOMAIN_TAG})"
| "tree_preimages E xs (Suc d) k =
     (if k * 2 ^ Suc d < length xs
      then insert (TXOUT_MERKLE_NODE_DOMAIN_TAG @ merkle_hash E xs d (2 * k) @ merkle_hash E xs d (2 * k + 1))
             (tree_preimages E xs d (2 * k) \<union> tree_preimages E xs d (2 * k + 1))
      else {TXOUT_MERKLE_NIL_DOMAIN_TAG})"

fun fold_preimages :: "'out txo_env \<Rightarrow> membership_element \<Rightarrow> membership_element list \<Rightarrow> bytes set" where
  "fold_preimages E prev [] = {}"
| "fold_preimages E prev (next # es) =
     (case compose_adjacent_membership_elements E prev next of
        Ok e \<Rightarrow> insert
          (TXOUT_MERKLE_NODE_DOMAIN_TAG @
           (if r_to (me_range next) + 1 = r_from (me_range prev) then me_hash next @ me_hash prev
            else me_hash prev @ me_hash next))
          (fold_preimages E e es)
      | _ \<Rightarrow> {})"

definition proof_preimages :: "'out txo_env \<Rightarrow> 'out \<Rightarrow> membership_proof \<Rightarrow> bytes set" where
  "proof_preimages E tx_out proof =
     insert (TXOUT_MERKLE_LEAF_DOMAIN_TAG @ tx_out_hash E tx_out)
       (case mp_elements proof of [] \<Rightarrow> {} | e # es \<Rightarrow> fold_preimages E e es)"

lemmas domain_tags = TXOUT_MERKLE_LEAF_DOMAIN_TAG_def TXOUT_MERKLE_NODE_DOMAIN_TAG_def
  TXOUT_MERKLE_NIL_DOMAIN_TAG_def ascii_def

lemma domain_tags_disjoint:
  "TXOUT_MERKLE_NODE_DOMAIN_TAG @ x \<noteq> TXOUT_MERKLE_LEAF_DOMAIN_TAG @ y"
  "TXOUT_MERKLE_NODE_DOMAIN_TAG @ x \<noteq> TXOUT_MERKLE_NIL_DOMAIN_TAG"
  "TXOUT_MERKLE_LEAF_DOMAIN_TAG @ x \<noteq> TXOUT_MERKLE_NIL_DOMAIN_TAG"
  by (simp_all add: domain_tags)

definition blake_ok :: "'out txo_env \<Rightarrow> bool" where
  "blake_ok E \<longleftrightarrow> (\<forall>x. is_hash (blake2b256 E x))"

lemma merkle_hash_is_hash: "blake_ok E \<Longrightarrow> is_hash (merkle_hash E xs d k)"
  by (cases d) (simp_all add: blake_ok_def hash_leaf_def hash_nodes_def hash_nil_def)

lemma tree_preimages_head:
  "\<exists>x \<in> tree_preimages E xs d k. merkle_hash E xs d k = blake2b256 E x \<and>
     (x = TXOUT_MERKLE_NIL_DOMAIN_TAG \<or>
      d = 0 \<and> k < length xs \<and> x = TXOUT_MERKLE_LEAF_DOMAIN_TAG @ tx_out_hash E (xs ! k) \<or>
      (\<exists>d'. d = Suc d' \<and> k * 2 ^ d < length xs \<and>
         x = TXOUT_MERKLE_NODE_DOMAIN_TAG @ merkle_hash E xs d' (2 * k) @ merkle_hash E xs d' (2 * k + 1)))"
  by (cases d) (auto simp: hash_leaf_def hash_nodes_def hash_nil_def)

lemma tree_preimages_children:
  "k * 2 ^ Suc d < length xs \<Longrightarrow>
   tree_preimages E xs d (2 * k) \<union> tree_preimages E xs d (2 * k + 1) \<subseteq> tree_preimages E xs (Suc d) k"
  by auto

text \<open>A node string that hashes to the hash of a subtree is the string of that subtree.\<close>

lemma node_preimage:
  assumes "blake2b256 E (TXOUT_MERKLE_NODE_DOMAIN_TAG @ l @ r) = merkle_hash E xs d k"
    and "inj_on (blake2b256 E) S" and "tree_preimages E xs d k \<subseteq> S"
    and "TXOUT_MERKLE_NODE_DOMAIN_TAG @ l @ r \<in> S" and "blake_ok E" and "is_hash l"
  shows "\<exists>d'. d = Suc d' \<and> k * 2 ^ d < length xs \<and> l = merkle_hash E xs d' (2 * k) \<and> r = merkle_hash E xs d' (2 * k + 1)"
proof -
  from tree_preimages_head [of E xs d k] obtain x where x: "x \<in> tree_preimages E xs d k"
    "merkle_hash E xs d k = blake2b256 E x" and
    c: "x = TXOUT_MERKLE_NIL_DOMAIN_TAG \<or>
      d = 0 \<and> k < length xs \<and> x = TXOUT_MERKLE_LEAF_DOMAIN_TAG @ tx_out_hash E (xs ! k) \<or>
      (\<exists>d'. d = Suc d' \<and> k * 2 ^ d < length xs \<and>
         x = TXOUT_MERKLE_NODE_DOMAIN_TAG @ merkle_hash E xs d' (2 * k) @ merkle_hash E xs d' (2 * k + 1))"
    by blast
  have "TXOUT_MERKLE_NODE_DOMAIN_TAG @ l @ r = x"
    using assms(1-4) x by (auto dest: inj_onD)
  with c domain_tags_disjoint obtain d' where d': "d = Suc d'" "k * 2 ^ d < length xs"
    and e: "l @ r = merkle_hash E xs d' (2 * k) @ merkle_hash E xs d' (2 * k + 1)" by auto
  have "length l = length (merkle_hash E xs d' (2 * k))"
    using merkle_hash_is_hash [OF assms(5)] assms(6) by (simp add: is_hash_def)
  with e d' show ?thesis by (simp add: append_eq_append_conv)
qed

text \<open>Every element the check passes through is a subtree of the tree.\<close>

lemma fold_subtree:
  assumes "try_fold (\<lambda>prev (idx, next). map_err (g idx) (compose_adjacent_membership_elements E prev next)) e
      (enumerate n es) = Ok root"
    and "me_hash root = merkle_hash E xs d k"
    and "inj_on (blake2b256 E) S" and "tree_preimages E xs d k \<subseteq> S" and "fold_preimages E e es \<subseteq> S"
    and "blake_ok E" and "is_hash (me_hash e)" and "list_all (\<lambda>e. is_hash (me_hash e)) es"
  shows "\<exists>d' k'. me_hash e = merkle_hash E xs d' k' \<and> tree_preimages E xs d' k' \<subseteq> S"
  using assms
proof (induction es arbitrary: e n)
  case Nil
  then show ?case by auto
next
  case (Cons e2 es)
  from Cons.prems(1) obtain c where c: "compose_adjacent_membership_elements E e e2 = Ok c"
    and f: "try_fold (\<lambda>prev (idx, next). map_err (g idx) (compose_adjacent_membership_elements E prev next)) c
      (enumerate (Suc n) es) = Ok root"
    by (auto simp: map_err_eq_Ok elim!: outcome_elims)
  let ?left = "r_to (me_range e2) + 1 = r_from (me_range e)"
  let ?l = "if ?left then me_hash e2 else me_hash e" and ?r = "if ?left then me_hash e else me_hash e2"
  have h: "me_hash c = blake2b256 E (TXOUT_MERKLE_NODE_DOMAIN_TAG @ ?l @ ?r)"
    using c by (auto simp: compose_adjacent_membership_elements_def Let_def hash_nodes_def split: if_split_asm)
  have S: "TXOUT_MERKLE_NODE_DOMAIN_TAG @ ?l @ ?r \<in> S" "fold_preimages E c es \<subseteq> S"
    using Cons.prems(5) c by (auto split: if_split_asm)
  have "is_hash (me_hash c)" using h Cons.prems(6) by (simp add: blake_ok_def)
  with Cons.IH [OF f Cons.prems(2-4) S(2) Cons.prems(6)] Cons.prems(8)
  obtain d' k' where k': "me_hash c = merkle_hash E xs d' k'" "tree_preimages E xs d' k' \<subseteq> S" by auto
  have "is_hash ?l" using Cons.prems(7,8) by simp
  from node_preimage [OF _ Cons.prems(3) k'(2) S(1) Cons.prems(6) this] h k'(1)
  obtain d2 where d2: "d' = Suc d2" "k' * 2 ^ d' < length xs"
    and lr: "?l = merkle_hash E xs d2 (2 * k')" "?r = merkle_hash E xs d2 (2 * k' + 1)" by auto
  have "tree_preimages E xs d2 (2 * k') \<subseteq> S" "tree_preimages E xs d2 (2 * k' + 1) \<subseteq> S"
    using tree_preimages_children [of k' d2 xs E] d2 k'(2) by auto
  with lr show ?case by (cases ?left) auto
qed

lemma proof_sound:
  assumes "is_membership_proof_valid E tx_out proof (merkle_hash E xs d k) = Ok True"
    and "inj_on (blake2b256 E) S" and "tree_preimages E xs d k \<union> proof_preimages E tx_out proof \<subseteq> S"
    and "blake_ok E" and "list_all (\<lambda>e. is_hash (me_hash e)) (mp_elements proof)"
  shows "\<exists>x \<in> set xs. tx_out_hash E x = tx_out_hash E tx_out"
proof -
  obtain e es where e: "mp_elements proof = e # es"
    using assms(1)
    by (cases "mp_elements proof") (auto simp: is_membership_proof_valid_def list_first_def split: if_split_asm)
  from assms(1) e obtain root where leaf: "me_hash e = hash_leaf E tx_out"
    and root: "compute_implied_merkle_root E proof = Ok root" "me_hash root = merkle_hash E xs d k"
    by (auto simp: is_membership_proof_valid_def list_first_def elim!: outcome_elims split: if_split_asm)
  from root(1) e have "try_fold
      (\<lambda>prev (idx, next). map_err (\<lambda>_. UnexpectedMembershipElement (idx + 1))
         (compose_adjacent_membership_elements E prev next)) e (enumerate 0 es) = Ok root"
    by (auto simp: compute_implied_merkle_root_def list_first_def split: if_split_asm)
  from fold_subtree [where g = "\<lambda>idx _. UnexpectedMembershipElement (idx + 1)", OF this root(2) assms(2)]
    assms(3-5) e
  obtain d' k' where h: "me_hash e = merkle_hash E xs d' k'" "tree_preimages E xs d' k' \<subseteq> S"
    by (auto simp: proof_preimages_def)
  from tree_preimages_head [of E xs d' k'] obtain x where x: "x \<in> tree_preimages E xs d' k'"
    "merkle_hash E xs d' k' = blake2b256 E x" and
    c: "x = TXOUT_MERKLE_NIL_DOMAIN_TAG \<or>
      d' = 0 \<and> k' < length xs \<and> x = TXOUT_MERKLE_LEAF_DOMAIN_TAG @ tx_out_hash E (xs ! k') \<or>
      (\<exists>d2. d' = Suc d2 \<and> k' * 2 ^ d' < length xs \<and>
         x = TXOUT_MERKLE_NODE_DOMAIN_TAG @ merkle_hash E xs d2 (2 * k') @ merkle_hash E xs d2 (2 * k' + 1))"
    by blast
  have "TXOUT_MERKLE_LEAF_DOMAIN_TAG @ tx_out_hash E tx_out = x"
    using leaf h x assms(2,3) by (auto simp: hash_leaf_def proof_preimages_def dest: inj_onD)
  with c domain_tags_disjoint(3) domain_tags_disjoint(1) [symmetric] have "k' < length xs" "tx_out_hash E (xs ! k') = tx_out_hash E tx_out" by auto
  then show ?thesis by (auto intro: nth_mem)
qed

end
