(* ===== verification/Util_U64_Ratio.thy ===== *)
theory Util_U64_Ratio
  imports Complex_Main Rust_Result
begin

section \<open>Ratios of 64-bit numbers (\<^verbatim>\<open>util/u64-ratio/src/lib.rs\<close>)\<close>

text \<open>
  The ratio of two \<^verbatim>\<open>u64\<close> numbers kept in \<^verbatim>\<open>u128\<close>, its comparison by cross multiplication and the two
  roundings of its product with a number. The theorem says that no intermediate result wraps, so that all
  of them agree with the rational numbers.
\<close>

type_synonym u128 = "128 word"

record u64_ratio =
  ratio_num :: u128
  ratio_denom :: u128

definition u64_ratio_new :: "u64 \<Rightarrow> u64 \<Rightarrow> u64_ratio option" where
  "u64_ratio_new num denom = (if denom = 0 then None else Some \<lparr>ratio_num = ucast num, ratio_denom = ucast denom\<rparr>)"

text \<open>\<^verbatim>\<open>u64::try_from(u128).ok()\<close>.\<close>

definition u64_try_from :: "u128 \<Rightarrow> u64 option" where
  "u64_try_from w = (if w \<le> 2 ^ 64 - 1 then Some (ucast w) else None)"

definition checked_mul_round_down :: "u64_ratio \<Rightarrow> u64 \<Rightarrow> u64 option" where
  "checked_mul_round_down r val = u64_try_from ((ucast val * ratio_num r) div ratio_denom r)"

definition checked_mul_round_up :: "u64_ratio \<Rightarrow> u64 \<Rightarrow> u64 option" where
  "checked_mul_round_up r val =
     u64_try_from ((ucast val * ratio_num r + (ratio_denom r - 1)) div ratio_denom r)"

definition ratio_eq :: "u64_ratio \<Rightarrow> u64_ratio \<Rightarrow> bool" where
  "ratio_eq r s \<longleftrightarrow> ratio_num r * ratio_denom s = ratio_num s * ratio_denom r"

definition ratio_cmp :: "u64_ratio \<Rightarrow> u64_ratio \<Rightarrow> rust_ordering" where
  "ratio_cmp r s = cmp_lin (ratio_num r * ratio_denom s) (ratio_num s * ratio_denom r)"

subsection \<open>Agreement with the rational numbers\<close>

definition ratio_val :: "u64_ratio \<Rightarrow> rat" where
  "ratio_val r = of_nat (unat (ratio_num r)) / of_nat (unat (ratio_denom r))"

lemma unat_ucast_u64 [simp]: "unat (ucast a :: u128) = unat (a :: u64)"
  using u64_unat_less [of a] by (simp add: unsigned_ucast_eq take_bit_nat_eq_self_iff)

lemma u64_le: "unat (a :: u64) \<le> 2 ^ 64 - 1"
  using u64_unat_less [of a] by simp

lemma u64_mult_bound: "unat (a :: u64) * unat (b :: u64) \<le> (2 ^ 64 - 1) * (2 ^ 64 - 1)"
  by (intro mult_le_mono u64_le)

lemma u64_mult_exact: "unat (ucast a * ucast b :: u128) = unat (a :: u64) * unat (b :: u64)"
  using u64_mult_bound [of a b] by (subst unat_mult_lem [THEN iffD1]) (simp_all add: unat_mult_lem)

lemma u64_try_from_exact:
  "u64_try_from w = (if unat w < 2 ^ 64 then Some (word_of_nat (unat w)) else None)"
proof -
  have "w \<le> 2 ^ 64 - 1 \<longleftrightarrow> unat w < 2 ^ 64" by (simp add: word_le_nat_alt less_Suc_eq_le [symmetric])
  moreover have "ucast w = (word_of_nat (unat w) :: u64)" by simp
  ultimately show ?thesis by (simp add: u64_try_from_def)
qed

lemma round_up_exact:
  assumes "unat (d :: u64) \<noteq> 0"
  shows "unat ((ucast v * ucast n + (ucast d - 1)) div ucast d :: u128) = (unat (v :: u64) * unat (n :: u64) + (unat d - 1)) div unat d"
proof -
  have d: "unat (ucast d - 1 :: u128) = unat d - 1"
    using assms by (subst unat_sub) (simp_all add: word_le_nat_alt)
  have "unat v * unat n + (unat d - 1) < 2 ^ 128"
    using u64_mult_bound [of v n] u64_le [of d] by simp
  then have "unat (ucast v * ucast n + (ucast d - 1) :: u128) = unat v * unat n + (unat d - 1)"
    using d by (simp add: unat_add_lem [THEN iffD1] u64_mult_exact)
  then show ?thesis by (simp add: unat_div)
qed

lemma ceiling_nat_div:
  assumes "0 < (d :: nat)"
  shows "\<lceil>of_nat x / of_nat d :: rat\<rceil> = int ((x + (d - 1)) div d)"
proof (rule ceiling_unique)
  let ?z = "(x + (d - 1)) div d"
  have "(x + (d - 1)) mod d < d" using assms by simp
  then have "x \<le> ?z * d" "?z * d < x + d" using assms div_mult_mod_eq [of "x + (d - 1)" d] by linarith+
  then have "of_nat x \<le> (of_nat (?z * d) :: rat)" "(of_nat (?z * d) :: rat) < of_nat (x + d)"
    by (simp_all only: of_nat_le_iff of_nat_less_iff)
  then show "of_int (int ?z) - 1 < (of_nat x / of_nat d :: rat)" "(of_nat x / of_nat d :: rat) \<le> of_int (int ?z)"
    using assms by (simp_all add: field_simps)
qed

lemma floor_nat_div: "\<lfloor>of_nat x / of_nat d :: rat\<rfloor> = int (x div d)"
  by (simp add: floor_divide_of_nat_eq)

text \<open>\<^verbatim>\<open>Some\<close> of a natural number if it fits in 64 bits.\<close>

definition fits_u64 :: "int \<Rightarrow> u64 option" where
  "fits_u64 x = (if x < 2 ^ 64 then Some (word_of_int x) else None)"

lemma ratio_less_iff:
  assumes "0 < (b :: nat)" and "0 < d"
  shows "(of_nat a / of_nat b :: rat) < of_nat c / of_nat d \<longleftrightarrow> a * d < c * b"
    and "(of_nat a / of_nat b :: rat) = of_nat c / of_nat d \<longleftrightarrow> a * d = c * b"
proof -
  have "(of_nat a / of_nat b :: rat) < of_nat c / of_nat d \<longleftrightarrow> (of_nat (a * d) :: rat) < of_nat (c * b)"
    using assms by (simp add: field_simps)
  then show "(of_nat a / of_nat b :: rat) < of_nat c / of_nat d \<longleftrightarrow> a * d < c * b"
    by (simp only: of_nat_less_iff)
  have "(of_nat a / of_nat b :: rat) = of_nat c / of_nat d \<longleftrightarrow> (of_nat (a * d) :: rat) = of_nat (c * b)"
    using assms by (simp add: field_simps)
  then show "(of_nat a / of_nat b :: rat) = of_nat c / of_nat d \<longleftrightarrow> a * d = c * b"
    by (simp only: of_nat_eq_iff)
qed

lemma ratio_new_Some:
  "u64_ratio_new n d = Some r \<longleftrightarrow> d \<noteq> 0 \<and> r = \<lparr>ratio_num = ucast n, ratio_denom = ucast d\<rparr>"
  by (auto simp: u64_ratio_new_def)

lemma ratio_cmp_val:
  assumes "u64_ratio_new a b = Some r" and "u64_ratio_new c d = Some s"
  shows "ratio_cmp r s = cmp_lin (ratio_val r) (ratio_val s)" and "ratio_eq r s \<longleftrightarrow> ratio_val r = ratio_val s"
proof -
  have p: "0 < unat b" "0 < unat d" using assms by (auto simp: ratio_new_Some unat_gt_0)
  note u = u64_mult_exact [of a d] u64_mult_exact [of c b]
  show "ratio_cmp r s = cmp_lin (ratio_val r) (ratio_val s)"
    using assms u ratio_less_iff [OF p, of "unat a" "unat c"]
    by (auto simp: ratio_cmp_def ratio_val_def cmp_lin_def ratio_new_Some word_less_nat_alt word_unat_eq_iff)
  show "ratio_eq r s \<longleftrightarrow> ratio_val r = ratio_val s"
    using assms u ratio_less_iff [OF p, of "unat a" "unat c"]
    by (auto simp: ratio_eq_def ratio_val_def ratio_new_Some word_unat_eq_iff)
qed

lemma checked_mul_val:
  assumes "u64_ratio_new n d = Some r"
  shows "checked_mul_round_down r v = fits_u64 \<lfloor>of_nat (unat v) * ratio_val r\<rfloor>"
    and "checked_mul_round_up r v = fits_u64 \<lceil>of_nat (unat v) * ratio_val r\<rceil>"
proof -
  have d: "0 < unat d" using assms by (auto simp: ratio_new_Some unat_gt_0)
  have prod: "of_nat (unat v) * ratio_val r = of_nat (unat v * unat n) / (of_nat (unat d) :: rat)"
    using assms by (simp add: ratio_val_def ratio_new_Some)
  have fits: "(if k < 2 ^ 64 then Some (word_of_nat k) else None) = fits_u64 (int k)" for k :: nat
  proof -
    have "int k < 2 ^ 64 \<longleftrightarrow> k < 2 ^ 64" by simp
    then show ?thesis by (simp add: fits_u64_def)
  qed
  have r: "ratio_num r = ucast n" "ratio_denom r = ucast d" using assms by (auto simp: ratio_new_Some)
  have down: "unat ((ucast v * ucast n) div ucast d :: u128) = unat v * unat n div unat d"
    by (simp add: unat_div u64_mult_exact)
  show "checked_mul_round_down r v = fits_u64 \<lfloor>of_nat (unat v) * ratio_val r\<rfloor>"
    by (simp only: checked_mul_round_down_def r u64_try_from_exact down fits prod floor_nat_div)
  have up: "unat ((ucast v * ucast n + (ucast d - 1)) div ucast d :: u128) = (unat v * unat n + (unat d - 1)) div unat d"
    using d by (intro round_up_exact) simp
  show "checked_mul_round_up r v = fits_u64 \<lceil>of_nat (unat v) * ratio_val r\<rceil>"
    by (simp only: checked_mul_round_up_def r u64_try_from_exact up fits prod ceiling_nat_div [OF d])
qed

lemma fits_u64_le:
  assumes "x \<le> int (unat (v :: u64))"
  shows "fits_u64 x \<noteq> None"
proof -
  have "int (unat v) < int (2 ^ 64)" by (simp only: of_nat_less_iff u64_unat_less)
  then have "x < 2 ^ 64" using assms by simp
  then show ?thesis by (simp add: fits_u64_def)
qed

lemma ratio_le_one:
  assumes "0 < (d :: nat)" and "n \<le> d"
  shows "\<lfloor>of_nat v * (of_nat n / of_nat d :: rat)\<rfloor> \<le> int v" "\<lceil>of_nat v * (of_nat n / of_nat d :: rat)\<rceil> \<le> int v"
proof -
  have "(of_nat n / of_nat d :: rat) \<le> 1" using assms by simp
  then have "of_nat v * (of_nat n / of_nat d :: rat) \<le> of_nat v * 1" by (intro mult_left_mono) auto
  then show "\<lfloor>of_nat v * (of_nat n / of_nat d :: rat)\<rfloor> \<le> int v" "\<lceil>of_nat v * (of_nat n / of_nat d :: rat)\<rceil> \<le> int v"
    by (simp_all add: floor_le_iff ceiling_le_iff)
qed

text \<open>C40. For all \<^verbatim>\<open>u64\<close> values no product or sum of the \<^verbatim>\<open>u128\<close> computations wraps: the comparison and the
  equality of two ratios are those of the rational numbers, the rounded products are the floor and the
  ceiling of the exact product, or \<^verbatim>\<open>None\<close> if that needs more than 64 bits, which cannot happen for a
  ratio of at most one.\<close>

theorem ratio_exact:
  assumes "u64_ratio_new n d = Some r" and "u64_ratio_new n' d' = Some s"
  shows "ratio_val r = of_nat (unat n) / of_nat (unat d) \<and>
    ratio_cmp r s = cmp_lin (ratio_val r) (ratio_val s) \<and> ratio_eq r s = (ratio_val r = ratio_val s) \<and>
    checked_mul_round_down r v = fits_u64 \<lfloor>of_nat (unat v) * ratio_val r\<rfloor> \<and>
    checked_mul_round_up r v = fits_u64 \<lceil>of_nat (unat v) * ratio_val r\<rceil> \<and>
    (n \<le> d \<longrightarrow> checked_mul_round_down r v \<noteq> None \<and> checked_mul_round_up r v \<noteq> None)"
proof -
  have r: "ratio_val r = of_nat (unat n) / of_nat (unat d)" and d: "0 < unat d"
    using assms(1) by (auto simp: ratio_val_def ratio_new_Some unat_gt_0)
  have "checked_mul_round_down r v \<noteq> None \<and> checked_mul_round_up r v \<noteq> None" if "n \<le> d"
    unfolding checked_mul_val [OF assms(1)] r
    using ratio_le_one [OF d, of "unat n" "unat v"] that fits_u64_le by (simp only: word_le_nat_alt) blast
  with r ratio_cmp_val [OF assms] checked_mul_val [OF assms(1)] show ?thesis by blast
qed

theorem ratio_exact_witness:
  "\<exists>r s. u64_ratio_new (- 1) (- 1) = Some r \<and> u64_ratio_new (- 2) (- 1) = Some s \<and>
     ratio_cmp r s = cmp_lin (ratio_val r) (ratio_val s) \<and> checked_mul_round_up r (- 1) \<noteq> None"
proof -
  obtain r s where "u64_ratio_new (- 1) (- 1) = Some r" "u64_ratio_new (- 2) (- 1) = Some s"
    by (simp add: u64_ratio_new_def)
  with ratio_exact [OF this, of "- 1"] show ?thesis by blast
qed

end
