(* ===== verification/Tx_Rules.thy ===== *)
theory Tx_Rules
  imports Tx_Membership Util_U64_Ratio
begin

section \<open>Transactions and the rules on their inputs\<close>

text \<open>
  The block versions (\<^verbatim>\<open>transaction/types/src/block_version.rs\<close>), the data of a transaction
  (\<^verbatim>\<open>transaction/core/src/tx.rs\<close>, \<^verbatim>\<open>revealed_tx_out.rs\<close> and \<^verbatim>\<open>input_rules.rs\<close>) and the check of the rules that the
  signer of an input attaches to it. Keys, commitments, memos and hints are byte strings. Recovering an
  amount from its shared secret, which computes on curve points, is an argument.
\<close>

subsection \<open>Block versions\<close>

definition BLOCK_VERSION_MAX :: u32 where
  "BLOCK_VERSION_MAX = 4"

datatype block_version_error = UnsupportedBlockVersion u32 u32

definition block_version_try_from :: "u32 \<Rightarrow> (block_version_error, u32) outcome" where
  "block_version_try_from src =
     (if src \<le> BLOCK_VERSION_MAX then Ok src else Err (UnsupportedBlockVersion src BLOCK_VERSION_MAX))"

definition e_memo_feature_is_supported :: "u32 \<Rightarrow> bool" where
  "e_memo_feature_is_supported v \<longleftrightarrow> v \<ge> 1"

definition masked_token_id_feature_is_supported :: "u32 \<Rightarrow> bool" where
  "masked_token_id_feature_is_supported v \<longleftrightarrow> v \<ge> 2"

definition validate_transaction_outputs_are_sorted :: "u32 \<Rightarrow> bool" where
  "validate_transaction_outputs_are_sorted v \<longleftrightarrow> v \<ge> 3"

definition mint_transactions_are_supported :: "u32 \<Rightarrow> bool" where
  "mint_transactions_are_supported v \<longleftrightarrow> v \<ge> 2"

definition minting_to_fog_addresses_is_supported :: "u32 \<Rightarrow> bool" where
  "minting_to_fog_addresses_is_supported v \<longleftrightarrow> v \<ge> 3"

definition signed_input_rules_are_supported :: "u32 \<Rightarrow> bool" where
  "signed_input_rules_are_supported v \<longleftrightarrow> v \<ge> 3"

definition require_block_metadata :: "u32 \<Rightarrow> bool" where
  "require_block_metadata v \<longleftrightarrow> v \<ge> 3"

definition nested_multisigs_are_supported :: "u32 \<Rightarrow> bool" where
  "nested_multisigs_are_supported v \<longleftrightarrow> v \<ge> 3"

subsection \<open>Outputs, inputs and transactions\<close>

record amount =
  amount_value :: u64
  amount_token_id :: u64

datatype amount_error =
    InconsistentCommitment
  | InvalidMaskedTokenId
  | AmountMissingMaskedAmount
  | TokenIdNotSupportedAtBlockVersion
  | AmountVersionTooOldForAmountSharedSecret

record masked_amount_fields =
  ma_commitment :: bytes
  ma_masked_value :: u64
  ma_masked_token_id :: bytes

datatype masked_amount = MaskedAmountV1 masked_amount_fields | MaskedAmountV2 masked_amount_fields

fun masked_token_id :: "masked_amount \<Rightarrow> bytes" where
  "masked_token_id (MaskedAmountV1 m) = ma_masked_token_id m"
| "masked_token_id (MaskedAmountV2 m) = ma_masked_token_id m"

fun commitment :: "masked_amount \<Rightarrow> bytes" where
  "commitment (MaskedAmountV1 m) = ma_commitment m"
| "commitment (MaskedAmountV2 m) = ma_commitment m"

text \<open>Recovery of the amount of a version 2 masked amount from its shared secret, with its blinding.\<close>

type_synonym reveal = "masked_amount_fields \<Rightarrow> bytes \<Rightarrow> (amount_error, amount \<times> bytes) outcome"

fun get_value_from_amount_shared_secret ::
  "reveal \<Rightarrow> masked_amount \<Rightarrow> bytes \<Rightarrow> (amount_error, amount \<times> bytes) outcome" where
  "get_value_from_amount_shared_secret rv (MaskedAmountV1 m) ss = Err AmountVersionTooOldForAmountSharedSecret"
| "get_value_from_amount_shared_secret rv (MaskedAmountV2 m) ss = rv m ss"

record tx_out =
  out_masked_amount :: "masked_amount option"
  out_target_key :: bytes
  out_public_key :: bytes
  out_e_fog_hint :: bytes
  out_e_memo :: "bytes option"

datatype tx_out_conversion_error = ConversionUnknownMaskedAmountVersion

definition get_masked_amount :: "tx_out \<Rightarrow> (tx_out_conversion_error, masked_amount) outcome" where
  "get_masked_amount out = ok_or ConversionUnknownMaskedAmountVersion (out_masked_amount out)"

definition eq_ignoring_amount :: "tx_out \<Rightarrow> tx_out \<Rightarrow> bool" where
  "eq_ignoring_amount a b \<longleftrightarrow> a\<lparr>out_masked_amount := None\<rparr> = b\<lparr>out_masked_amount := None\<rparr>"

datatype revealed_tx_out_error =
    InvalidAmountSharedSecret
  | TxOutConversion tx_out_conversion_error
  | RevealedAmount amount_error

record revealed_tx_out =
  rev_tx_out :: tx_out
  rev_amount_shared_secret :: bytes

definition try_reveal_amount :: "reveal \<Rightarrow> tx_out \<Rightarrow> bytes \<Rightarrow> (revealed_tx_out_error, amount \<times> bytes) outcome" where
  "try_reveal_amount rv out ss =
     and_then (ensure (length ss = 32) InvalidAmountSharedSecret) (\<lambda>_.
     and_then (map_err TxOutConversion (get_masked_amount out)) (\<lambda>m.
     map_err RevealedAmount (get_value_from_amount_shared_secret rv m ss)))"

definition reveal_amount :: "reveal \<Rightarrow> revealed_tx_out \<Rightarrow> (revealed_tx_out_error, amount \<times> bytes) outcome" where
  "reveal_amount rv r = try_reveal_amount rv (rev_tx_out r) (rev_amount_shared_secret r)"

record input_rules =
  ir_required_outputs :: "tx_out list"
  ir_max_tombstone_block :: u64
  ir_partial_fill_outputs :: "revealed_tx_out list"
  ir_partial_fill_change :: "revealed_tx_out option"
  ir_min_partial_fill_value :: u64

record tx_in =
  in_ring :: "tx_out list"
  in_proofs :: "membership_proof list"
  in_input_rules :: "input_rules option"

record tx_prefix =
  px_inputs :: "tx_in list"
  px_outputs :: "tx_out list"
  px_fee :: u64
  px_tombstone_block :: u64
  px_fee_token_id :: u64

record 'sig tx =
  tx_prefix_of :: tx_prefix
  tx_signature :: 'sig
  tx_fee_map_digest :: bytes

definition output_public_keys :: "'sig tx \<Rightarrow> bytes list" where
  "output_public_keys tx = map out_public_key (px_outputs (tx_prefix_of tx))"

definition get_membership_proof_highest_indices :: "tx_prefix \<Rightarrow> u64 list" where
  "get_membership_proof_highest_indices px = concat (map (\<lambda>i. map mp_highest_index (in_proofs i)) (px_inputs px))"

definition output_commitments :: "tx_prefix \<Rightarrow> (tx_out_conversion_error, bytes list) outcome" where
  "output_commitments px =
     try_map (\<lambda>out. and_then (get_masked_amount out) (\<lambda>ma. Ok (commitment ma))) (px_outputs px)"
subsection \<open>Input rules\<close>

datatype input_rule_error =
    MissingRequiredOutput
  | MaxTombstoneBlockExceeded
  | PartialFillOutputsNotExpected
  | MinPartialFillValueNotExpected
  | MissingFractionalChangeOutput
  | MissingFractionalOutput
  | FractionalOutputTokenIdMismatch
  | ZeroPartialFillChange
  | MinPartialFillValueExceedsPartialFillChange
  | FractionalOutputAmountDoesNotRespectFillFraction
  | FractionalChangeOutputAmountExceedsLimit
  | RevealedTxOutRule revealed_tx_out_error

text \<open>The body of the loop over the partial fill outputs.\<close>

definition verify_partial_fill_output ::
  "reveal \<Rightarrow> tx_out list \<Rightarrow> u64_ratio \<Rightarrow> revealed_tx_out \<Rightarrow> (input_rule_error, unit) outcome" where
  "verify_partial_fill_output rv outputs fill_fraction partial_fill_output =
     and_then (map_err RevealedTxOutRule (reveal_amount rv partial_fill_output)) (\<lambda>(partial_fill_output_amount, _).
     and_then (ok_or MissingFractionalOutput
         (find (eq_ignoring_amount (rev_tx_out partial_fill_output)) outputs)) (\<lambda>fractional_output.
     and_then (map_err RevealedTxOutRule
         (try_reveal_amount rv fractional_output (rev_amount_shared_secret partial_fill_output)))
       (\<lambda>(fractional_output_amount, _).
     if amount_token_id fractional_output_amount \<noteq> amount_token_id partial_fill_output_amount
     then Err FractionalOutputTokenIdMismatch
     else and_then (ok_or FractionalOutputAmountDoesNotRespectFillFraction
         (u64_ratio_new (amount_value fractional_output_amount) (amount_value partial_fill_output_amount)))
       (\<lambda>this_output_fraction.
     if ratio_cmp this_output_fraction fill_fraction = Less
     then Err FractionalOutputAmountDoesNotRespectFillFraction
     else Ok ()))))"

definition verify_partial_fill_rules :: "reveal \<Rightarrow> input_rules \<Rightarrow> tx_prefix \<Rightarrow> (input_rule_error, unit) outcome" where
  "verify_partial_fill_rules rv rules px =
     (case ir_partial_fill_change rules of
        Some partial_fill_change \<Rightarrow>
          and_then (map_err RevealedTxOutRule (reveal_amount rv partial_fill_change)) (\<lambda>(partial_fill_change_amount, _).
          if amount_value partial_fill_change_amount < ir_min_partial_fill_value rules
          then Err MinPartialFillValueExceedsPartialFillChange
          else if amount_value partial_fill_change_amount = 0 then Err ZeroPartialFillChange
          else and_then (ok_or MissingFractionalChangeOutput
              (find (eq_ignoring_amount (rev_tx_out partial_fill_change)) (px_outputs px))) (\<lambda>fractional_change.
          and_then (map_err RevealedTxOutRule
              (try_reveal_amount rv fractional_change (rev_amount_shared_secret partial_fill_change)))
            (\<lambda>(fractional_change_amount, _).
          if amount_token_id fractional_change_amount \<noteq> amount_token_id partial_fill_change_amount
          then Err FractionalOutputTokenIdMismatch
          else if amount_value fractional_change_amount
              > amount_value partial_fill_change_amount - ir_min_partial_fill_value rules
          then Err FractionalChangeOutputAmountExceedsLimit
          else and_then (ok_or ZeroPartialFillChange
              (u64_ratio_new (amount_value partial_fill_change_amount - amount_value fractional_change_amount)
                 (amount_value partial_fill_change_amount))) (\<lambda>fill_fraction.
          try_each (verify_partial_fill_output rv (px_outputs px) fill_fraction) (ir_partial_fill_outputs rules)))))
      | None \<Rightarrow>
          if ir_partial_fill_outputs rules \<noteq> [] then Err PartialFillOutputsNotExpected
          else if ir_min_partial_fill_value rules \<noteq> 0 then Err MinPartialFillValueNotExpected
          else Ok ())"

definition verify_input_rules :: "reveal \<Rightarrow> input_rules \<Rightarrow> tx_prefix \<Rightarrow> (input_rule_error, unit) outcome" where
  "verify_input_rules rv rules px =
     (if ir_max_tombstone_block rules \<noteq> 0 \<and> px_tombstone_block px > ir_max_tombstone_block rules
      then Err MaxTombstoneBlockExceeded
      else and_then (try_each (\<lambda>required_output. if required_output \<notin> set (px_outputs px) then Err MissingRequiredOutput
          else Ok ()) (ir_required_outputs rules)) (\<lambda>_.
        verify_partial_fill_rules rv rules px))"

subsection \<open>What the rules promise to the signer\<close>

text \<open>
  In natural numbers: the first output of the transaction that agrees with \<^term>\<open>r\<close> up to its amount, with the
  token of \<^term>\<open>r\<close>; \<open>a\<close> is the full value of \<^term>\<open>r\<close> and \<open>b\<close> the value of that output.
\<close>

definition filled :: "reveal \<Rightarrow> tx_out list \<Rightarrow> revealed_tx_out \<Rightarrow> nat \<Rightarrow> nat \<Rightarrow> bool" where
  "filled rv outputs r a b \<longleftrightarrow>
     (\<exists>full out part s t. reveal_amount rv r = Ok (full, s) \<and> find (eq_ignoring_amount (rev_tx_out r)) outputs = Some out \<and>
        try_reveal_amount rv out (rev_amount_shared_secret r) = Ok (part, t) \<and>
        amount_token_id part = amount_token_id full \<and> a = unat (amount_value full) \<and> b = unat (amount_value part))"

text \<open>
  The change output returns at most the offered value less the minimum, and each partial fill
  output pays at least the fraction of its value that was taken from the offer.
\<close>

definition fill_respected :: "reveal \<Rightarrow> input_rules \<Rightarrow> tx_out list \<Rightarrow> bool" where
  "fill_respected rv rules outputs \<longleftrightarrow>
     (case ir_partial_fill_change rules of
        None \<Rightarrow> ir_partial_fill_outputs rules = [] \<and> ir_min_partial_fill_value rules = 0
      | Some c \<Rightarrow> \<exists>offered returned. filled rv outputs c offered returned \<and> 0 < offered \<and>
          returned + unat (ir_min_partial_fill_value rules) \<le> offered \<and>
          list_all (\<lambda>r. \<exists>wanted paid. filled rv outputs r wanted paid \<and> 0 < wanted \<and>
              wanted * (offered - returned) \<le> paid * offered) (ir_partial_fill_outputs rules))"

definition rules_respected :: "reveal \<Rightarrow> input_rules \<Rightarrow> tx_prefix \<Rightarrow> bool" where
  "rules_respected rv rules px \<longleftrightarrow>
     (ir_max_tombstone_block rules = 0 \<or> px_tombstone_block px \<le> ir_max_tombstone_block rules) \<and>
     set (ir_required_outputs rules) \<subseteq> set (px_outputs px) \<and> fill_respected rv rules (px_outputs px)"

lemma ratio_not_Less:
  assumes "u64_ratio_new p w = Some r" and "u64_ratio_new t f = Some s"
  shows "ratio_cmp r s \<noteq> Less \<longleftrightarrow> unat w * unat t \<le> unat p * unat f"
proof -
  note u = u64_mult_exact [of p f] u64_mult_exact [of t w]
  have "ratio_cmp r s \<noteq> Less \<longleftrightarrow> \<not> (ucast p * ucast f :: u128) < ucast t * ucast w"
    using assms by (simp add: ratio_cmp_def ratio_new_Some)
  also have "\<dots> \<longleftrightarrow> unat t * unat w \<le> unat p * unat f" unfolding word_less_nat_alt u by linarith
  finally show ?thesis by (simp add: mult.commute)
qed

lemma verify_partial_fill_output_Ok:
  assumes "u64_ratio_new t f = Some s"
  shows "verify_partial_fill_output rv outputs s r = Ok () \<longleftrightarrow>
    (\<exists>wanted paid. filled rv outputs r wanted paid \<and> 0 < wanted \<and> wanted * unat t \<le> paid * unat f)"
    (is "?v = Ok () \<longleftrightarrow> ?P")
proof
  assume "?v = Ok ()"
  then obtain full s1 out part s2 q where
      "reveal_amount rv r = Ok (full, s1)" "find (eq_ignoring_amount (rev_tx_out r)) outputs = Some out"
      "try_reveal_amount rv out (rev_amount_shared_secret r) = Ok (part, s2)" "amount_token_id part = amount_token_id full"
      and q: "u64_ratio_new (amount_value part) (amount_value full) = Some q" "ratio_cmp q s \<noteq> Less"
    by (auto simp: verify_partial_fill_output_def outcome_simps split: if_splits)
  moreover from q have "0 < unat (amount_value full)" by (simp add: ratio_new_Some unat_gt_0)
  ultimately show ?P using ratio_not_Less [OF q(1) assms] unfolding filled_def by blast
next
  assume ?P
  then obtain full s1 out part s2 where
      "reveal_amount rv r = Ok (full, s1)" "find (eq_ignoring_amount (rev_tx_out r)) outputs = Some out"
      "try_reveal_amount rv out (rev_amount_shared_secret r) = Ok (part, s2)" "amount_token_id part = amount_token_id full"
      and w: "0 < unat (amount_value full)"
      and le: "unat (amount_value full) * unat t \<le> unat (amount_value part) * unat f"
    unfolding filled_def by blast
  moreover from w obtain q where q: "u64_ratio_new (amount_value part) (amount_value full) = Some q"
    by (auto simp: u64_ratio_new_def unat_gt_0)
  moreover have "ratio_cmp q s \<noteq> Less" using ratio_not_Less [OF q assms] le by simp
  ultimately show "?v = Ok ()" by (simp add: verify_partial_fill_output_def)
qed

text \<open>The guards on the change output, in words and in natural numbers.\<close>

lemma change_guards:
  fixes c m r :: u64
  shows "\<not> c < m \<and> c \<noteq> 0 \<and> \<not> r > c - m \<longleftrightarrow> 0 < unat c \<and> unat r + unat m \<le> unat c"
proof (cases "m \<le> c")
  case True
  then have "unat (c - m) = unat c - unat m" "unat m \<le> unat c" by (simp_all add: unat_sub word_le_nat_alt)
  with True show ?thesis by (auto simp: word_less_nat_alt unat_gt_0 not_less)
next
  case False
  then show ?thesis by (auto simp: not_le word_less_nat_alt)
qed

lemma verify_partial_fill_rules_Ok:
  "verify_partial_fill_rules rv rules px = Ok () \<longleftrightarrow> fill_respected rv rules (px_outputs px)"
proof (cases "ir_partial_fill_change rules")
  case None
  then show ?thesis by (simp add: verify_partial_fill_rules_def fill_respected_def)
next
  case (Some c)
  let ?outs = "px_outputs px" and ?m = "ir_min_partial_fill_value rules"
  let ?fills = "\<lambda>a b. list_all (\<lambda>p. \<exists>wanted paid. filled rv ?outs p wanted paid \<and> 0 < wanted \<and>
      wanted * (a - b) \<le> paid * a) (ir_partial_fill_outputs rules)"
  have each: "(\<exists>s. u64_ratio_new (v - w) v = Some s \<and>
      try_each (verify_partial_fill_output rv ?outs s) (ir_partial_fill_outputs rules) = Ok ()) \<longleftrightarrow> ?fills (unat v) (unat w)"
    if pos: "0 < unat v" and le: "unat w \<le> unat v" for v w
  proof -
    obtain s where s: "u64_ratio_new (v - w) v = Some s" using pos by (auto simp: u64_ratio_new_def unat_gt_0)
    have "unat (v - w) = unat v - unat w" using le by (simp add: unat_sub word_le_nat_alt)
    then show ?thesis using s by (simp add: try_each_Ok verify_partial_fill_output_Ok [OF s])
  qed
  have "verify_partial_fill_rules rv rules px = Ok () \<longleftrightarrow>
    (\<exists>full s1 out part s2. reveal_amount rv c = Ok (full, s1) \<and> find (eq_ignoring_amount (rev_tx_out c)) ?outs = Some out \<and>
       try_reveal_amount rv out (rev_amount_shared_secret c) = Ok (part, s2) \<and> amount_token_id part = amount_token_id full \<and>
       (\<not> amount_value full < ?m \<and> amount_value full \<noteq> 0 \<and> \<not> amount_value part > amount_value full - ?m) \<and>
       (\<exists>s. u64_ratio_new (amount_value full - amount_value part) (amount_value full) = Some s \<and>
         try_each (verify_partial_fill_output rv ?outs s) (ir_partial_fill_outputs rules) = Ok ()))"
    by (fastforce simp: verify_partial_fill_rules_def Some outcome_simps split: if_splits)
  also have "\<dots> \<longleftrightarrow>
    (\<exists>full s1 out part s2. reveal_amount rv c = Ok (full, s1) \<and> find (eq_ignoring_amount (rev_tx_out c)) ?outs = Some out \<and>
       try_reveal_amount rv out (rev_amount_shared_secret c) = Ok (part, s2) \<and> amount_token_id part = amount_token_id full \<and>
       0 < unat (amount_value full) \<and> unat (amount_value part) + unat ?m \<le> unat (amount_value full) \<and>
       ?fills (unat (amount_value full)) (unat (amount_value part)))"
    unfolding change_guards using each by (meson add_leD1)
  also have "\<dots> \<longleftrightarrow> fill_respected rv rules ?outs"
    unfolding fill_respected_def Some filled_def [of rv ?outs c] option.case by blast
  finally show ?thesis .
qed

lemma verify_input_rules_respected:
  "verify_input_rules rv rules px = Ok () \<longleftrightarrow> rules_respected rv rules px"
proof -
  have "try_each (\<lambda>x. if x \<notin> set (px_outputs px) then Err MissingRequiredOutput else Ok ()) rs = Ok () \<longleftrightarrow>
      set rs \<subseteq> set (px_outputs px)" for rs
    by (auto simp: try_each_Ok list_all_iff)
  then show ?thesis
    by (auto simp: verify_input_rules_def rules_respected_def outcome_simps verify_partial_fill_rules_Ok not_less
        split: if_splits)
qed

text \<open>C38. The check of the rules on an input accepts a transaction exactly when the rules hold in
  natural numbers: the tombstone limit, the required outputs, and, for a partially filled
  offer, that the change is within the offer less the minimum fill and that every partial fill output
  pays at least the fraction of its value that was taken. No subtraction or product wraps.\<close>

theorem verify_input_rules_exact:
  "verify_input_rules rv rules px = Ok () \<longleftrightarrow> rules_respected rv rules px"
  by (rule verify_input_rules_respected)

end
