(* ===== verification/Tx_Validation.thy ===== *)
theory Tx_Validation
  imports Tx_Rules "HOL-Library.List_Lexorder"
begin

section \<open>Validation of transactions (\<^verbatim>\<open>transaction/core/src/validation/validate.rs\<close>)\<close>

text \<open>
  Every check of \<^verbatim>\<open>validate\<close> in its order, with the errors of \<^verbatim>\<open>validation/error.rs\<close>. The verification of the
  ring signatures and range proofs, the digest of an input and the key images of a signature are fields of the record of
  external functions. Keys are compared as byte strings. The checks are characterized one by one.
\<close>

datatype 'se transaction_validation_error =
    InputsProofsLengthMismatch
  | NoInputs
  | TooManyInputs
  | InsufficientInputSignatures
  | InvalidInputSignature
  | InvalidTransactionSignature 'se
  | InvalidRangeProof
  | InsufficientRingSize
  | TombstoneBlockExceeded
  | TombstoneBlockTooFar
  | TxNoOutputs
  | TooManyOutputs
  | ExcessiveRingSize
  | DuplicateRingElements
  | UnsortedRingElements
  | UnequalRingSizes
  | UnsortedInputs
  | UnsortedKeyImages
  | ContainsSpentKeyImage
  | DuplicateKeyImages
  | TxDuplicateOutputPublicKey
  | ContainsExistingOutputPublicKey
  | MissingTxOutMembershipProof
  | InvalidTxOutMembershipProof
  | InvalidRistrettoPublicKey
  | InvalidLedgerContext
  | TxLedgerError string
  | LedgerTxOutIndexOutOfBounds u64
  | MembershipProofValidationError
  | TxFeeError
  | TxKeyError
  | MissingMemo
  | MemosNotAllowed
  | TokenNotYetConfigured
  | MissingMaskedTokenId
  | MaskedTokenIdNotAllowed
  | UnsortedOutputs
  | InputRulesNotAllowed
  | InputRule input_rule_error
  | UnknownMaskedAmountVersion

type_synonym 'se tx_result = "('se transaction_validation_error, unit) outcome"

definition from_conversion_error :: "tx_out_conversion_error \<Rightarrow> 'se transaction_validation_error" where
  "from_conversion_error e = (case e of ConversionUnknownMaskedAmountVersion \<Rightarrow> UnknownMaskedAmountVersion)"

definition RING_SIZE :: nat where "RING_SIZE = 11"

definition MAX_INPUTS :: u64 where "MAX_INPUTS = 16"

definition MAX_OUTPUTS :: u64 where "MAX_OUTPUTS = 16"

definition MAX_TOMBSTONE_BLOCKS :: u64 where "MAX_TOMBSTONE_BLOCKS = 20160"

definition TOKEN_ID_NUM_BYTES :: nat where "TOKEN_ID_NUM_BYTES = 8"

subsection \<open>What the signature check sees\<close>

record reduced_tx_out =
  red_public_key :: bytes
  red_target_key :: bytes
  red_commitment :: bytes

record signed_input_ring =
  ring_members :: "reduced_tx_out list"
  ring_signed_digest :: "bytes option"

record ('sig, 'se) tx_env =
  te_txo :: "tx_out txo_env"
  te_reveal :: reveal
  te_key_images :: "'sig \<Rightarrow> bytes list"
  te_digest_in :: "tx_in \<Rightarrow> bytes"
  te_rct_verify :: "'sig \<Rightarrow> u32 \<Rightarrow> tx_prefix \<Rightarrow> signed_input_ring list \<Rightarrow> bytes list \<Rightarrow> amount \<Rightarrow> ('se, unit) outcome"

definition key_images :: "('sig, 'se) tx_env \<Rightarrow> 'sig tx \<Rightarrow> bytes list" where
  "key_images E tx = te_key_images E (tx_signature tx)"

definition reduce_tx_out :: "tx_out \<Rightarrow> (tx_out_conversion_error, reduced_tx_out) outcome" where
  "reduce_tx_out out = and_then (get_masked_amount out) (\<lambda>ma.
     Ok \<lparr>red_public_key = out_public_key out, red_target_key = out_target_key out, red_commitment = commitment ma\<rparr>)"

definition signed_digest :: "('sig, 'se) tx_env \<Rightarrow> tx_in \<Rightarrow> bytes option" where
  "signed_digest E i = (if in_input_rules i \<noteq> None then Some (te_digest_in E (i\<lparr>in_proofs := []\<rparr>)) else None)"

definition get_input_rings ::
  "('sig, 'se) tx_env \<Rightarrow> tx_prefix \<Rightarrow> (tx_out_conversion_error, signed_input_ring list) outcome" where
  "get_input_rings E px =
     try_map (\<lambda>i. and_then (try_map reduce_tx_out (in_ring i)) (\<lambda>ms.
       Ok \<lparr>ring_members = ms, ring_signed_digest = signed_digest E i\<rparr>)) (px_inputs px)"

subsection \<open>The checks\<close>

definition check_sorted :: "'a list \<Rightarrow> ('a \<Rightarrow> 'a \<Rightarrow> bool) \<Rightarrow> 'e \<Rightarrow> ('e, unit) outcome" where
  "check_sorted values ordered err =
     (if \<not> list_all (\<lambda>(a, b). ordered a b) (zip values (tl values)) then Err err else Ok ())"

text \<open>\<^verbatim>\<open>HashSet::insert\<close> is false for an element that is already there.\<close>

definition insert_new :: "'e \<Rightarrow> 'a set \<Rightarrow> 'a \<Rightarrow> ('e, 'a set) outcome" where
  "insert_new err uniques x = (if x \<in> uniques then Err err else Ok (insert x uniques))"

definition check_unique :: "'a list \<Rightarrow> 'e \<Rightarrow> ('e, unit) outcome" where
  "check_unique values err = and_then (try_fold (insert_new err) {} values) (\<lambda>_. Ok ())"

definition validate_number_of_inputs :: "tx_prefix \<Rightarrow> u64 \<Rightarrow> 'se tx_result" where
  "validate_number_of_inputs px maximum_allowed_inputs =
     (let num_inputs = length (px_inputs px) in
      if num_inputs = 0 then Err NoInputs
      else if num_inputs > unat maximum_allowed_inputs then Err TooManyInputs
      else Ok ())"

definition validate_number_of_outputs :: "tx_prefix \<Rightarrow> u64 \<Rightarrow> 'se tx_result" where
  "validate_number_of_outputs px maximum_allowed_outputs =
     (let num_outputs = length (px_outputs px) in
      if num_outputs = 0 then Err TxNoOutputs
      else if num_outputs > unat maximum_allowed_outputs then Err TooManyOutputs
      else Ok ())"

definition validate_ring_sizes :: "tx_prefix \<Rightarrow> nat \<Rightarrow> 'se tx_result" where
  "validate_ring_sizes px ring_size =
     try_each (\<lambda>i. if length (in_ring i) \<noteq> ring_size
       then Err (if length (in_ring i) > ring_size then ExcessiveRingSize else InsufficientRingSize)
       else Ok ()) (px_inputs px)"

definition validate_ring_elements_are_unique :: "tx_prefix \<Rightarrow> 'se tx_result" where
  "validate_ring_elements_are_unique px =
     and_then (try_fold (\<lambda>seen i.
         if in_input_rules i \<noteq> None
         then and_then (check_unique (in_ring i) DuplicateRingElements) (\<lambda>_. Ok seen)
         else try_fold (insert_new DuplicateRingElements) seen (in_ring i))
       {} (px_inputs px)) (\<lambda>_. Ok ())"

definition validate_ring_elements_are_sorted :: "tx_prefix \<Rightarrow> 'se tx_result" where
  "validate_ring_elements_are_sorted px =
     try_each (\<lambda>i. check_sorted (in_ring i) (\<lambda>a b. out_public_key a < out_public_key b) UnsortedRingElements) (px_inputs px)"

definition validate_inputs_are_sorted :: "tx_prefix \<Rightarrow> 'se tx_result" where
  "validate_inputs_are_sorted px =
     check_sorted (px_inputs px)
       (\<lambda>a b. in_ring a \<noteq> [] \<and> in_ring b \<noteq> [] \<and> out_public_key (hd (in_ring a)) < out_public_key (hd (in_ring b)))
       UnsortedInputs"

definition validate_outputs_are_sorted :: "tx_prefix \<Rightarrow> 'se tx_result" where
  "validate_outputs_are_sorted px =
     check_sorted (px_outputs px) (\<lambda>a b. out_public_key a < out_public_key b) UnsortedOutputs"

definition validate_key_images_are_unique :: "('sig, 'se) tx_env \<Rightarrow> 'sig tx \<Rightarrow> 'se tx_result" where
  "validate_key_images_are_unique E tx = check_unique (key_images E tx) DuplicateKeyImages"

definition validate_outputs_public_keys_are_unique :: "'sig tx \<Rightarrow> 'se tx_result" where
  "validate_outputs_public_keys_are_unique tx = check_unique (output_public_keys tx) TxDuplicateOutputPublicKey"

definition validate_that_no_memo_exists :: "tx_out \<Rightarrow> 'se tx_result" where
  "validate_that_no_memo_exists out = (if out_e_memo out \<noteq> None then Err MemosNotAllowed else Ok ())"

definition validate_memo_exists :: "tx_out \<Rightarrow> 'se tx_result" where
  "validate_memo_exists out = (if out_e_memo out = None then Err MissingMemo else Ok ())"

definition validate_that_no_masked_token_id_exists :: "tx_out \<Rightarrow> 'se tx_result" where
  "validate_that_no_masked_token_id_exists out =
     and_then (map_err from_conversion_error (get_masked_amount out)) (\<lambda>ma.
       if masked_token_id ma \<noteq> [] then Err MaskedTokenIdNotAllowed else Ok ())"

definition validate_masked_token_id_exists :: "tx_out \<Rightarrow> 'se tx_result" where
  "validate_masked_token_id_exists out =
     and_then (map_err from_conversion_error (get_masked_amount out)) (\<lambda>ma.
       if length (masked_token_id ma) \<noteq> TOKEN_ID_NUM_BYTES then Err MissingMaskedTokenId else Ok ())"

definition validate_tx_out :: "u32 \<Rightarrow> tx_out \<Rightarrow> 'se tx_result" where
  "validate_tx_out block_version out =
     and_then (if e_memo_feature_is_supported block_version then validate_memo_exists out
               else validate_that_no_memo_exists out) (\<lambda>_.
     and_then (if masked_token_id_feature_is_supported block_version then validate_masked_token_id_exists out
               else validate_that_no_masked_token_id_exists out) (\<lambda>_.
     Ok ()))"

definition validate_signature :: "('sig, 'se) tx_env \<Rightarrow> u32 \<Rightarrow> 'sig tx \<Rightarrow> 'se tx_result" where
  "validate_signature E block_version tx =
     and_then (map_err from_conversion_error (get_input_rings E (tx_prefix_of tx))) (\<lambda>rings.
     and_then (map_err from_conversion_error (output_commitments (tx_prefix_of tx))) (\<lambda>commitments.
     map_err InvalidTransactionSignature
       (te_rct_verify E (tx_signature tx) block_version (tx_prefix_of tx) rings commitments
          \<lparr>amount_value = px_fee (tx_prefix_of tx), amount_token_id = px_fee_token_id (tx_prefix_of tx)\<rparr>)))"

definition validate_transaction_fee :: "'sig tx \<Rightarrow> u64 \<Rightarrow> 'se tx_result" where
  "validate_transaction_fee tx minimum_fee = (if px_fee (tx_prefix_of tx) < minimum_fee then Err TxFeeError else Ok ())"

definition validate_tombstone :: "u64 \<Rightarrow> u64 \<Rightarrow> 'se tx_result" where
  "validate_tombstone current_block_index tombstone_block_index =
     (if current_block_index \<ge> tombstone_block_index then Err TombstoneBlockExceeded
      else let limit = current_block_index + MAX_TOMBSTONE_BLOCKS in
        if tombstone_block_index > limit then Err TombstoneBlockTooFar else Ok ())"

definition validate_all_input_rules :: "('sig, 'se) tx_env \<Rightarrow> u32 \<Rightarrow> 'sig tx \<Rightarrow> 'se tx_result" where
  "validate_all_input_rules E block_version tx =
     try_each (\<lambda>i. case in_input_rules i of
         Some rules \<Rightarrow> map_err InputRule (verify_input_rules (te_reveal E) rules (tx_prefix_of tx))
       | None \<Rightarrow> Ok ()) (px_inputs (tx_prefix_of tx))"

definition validate_that_no_input_rules_exist :: "'sig tx \<Rightarrow> 'se tx_result" where
  "validate_that_no_input_rules_exist tx =
     try_each (\<lambda>i. if in_input_rules i \<noteq> None then Err InputRulesNotAllowed else Ok ()) (px_inputs (tx_prefix_of tx))"
text \<open>The check of one ring element against the proof of the author and the root proof of the ledger server.\<close>

definition validate_membership_proof ::
  "tx_out txo_env \<Rightarrow> (tx_out \<times> membership_proof) \<times> membership_proof \<Rightarrow> 'se tx_result" where
  "validate_membership_proof E p = (case p of ((out, membership_proof), root_proof) \<Rightarrow>
     and_then (map_err (\<lambda>_. InvalidLedgerContext) (derive_proof_at_index E root_proof)) (\<lambda>derived_proof.
     and_then (map_err (\<lambda>_. InvalidLedgerContext) (compute_implied_merkle_root E derived_proof)) (\<lambda>root_element.
     and_then (map_err (\<lambda>_. MembershipProofValidationError)
         (is_membership_proof_valid E out membership_proof (me_hash root_element))) (\<lambda>is_valid.
     if \<not> is_valid then Err InvalidTxOutMembershipProof else Ok ()))))"

definition ring_elements :: "tx_prefix \<Rightarrow> (tx_out \<times> membership_proof) list" where
  "ring_elements px = concat (map (\<lambda>i. zip (in_ring i) (in_proofs i)) (px_inputs px))"

definition validate_membership_proofs ::
  "tx_out txo_env \<Rightarrow> tx_prefix \<Rightarrow> membership_proof list \<Rightarrow> 'se tx_result" where
  "validate_membership_proofs E px root_proofs =
     and_then (try_each (\<lambda>i. if length (in_ring i) \<noteq> length (in_proofs i) then Err MissingTxOutMembershipProof
         else Ok ()) (px_inputs px)) (\<lambda>_.
     if length (ring_elements px) \<noteq> length root_proofs then Err InvalidLedgerContext
     else and_then (try_each (\<lambda>p. if list_ex (\<lambda>e. r_from (me_range e) > r_to (me_range e)) (mp_elements p)
         then Err MembershipProofValidationError else Ok ()) root_proofs) (\<lambda>_.
     try_each (validate_membership_proof E) (zip (ring_elements px) root_proofs)))"

text \<open>Of the message for an unknown block version the model keeps the fixed part.\<close>

definition validate_tx ::
  "('sig, 'se) tx_env \<Rightarrow> 'sig tx \<Rightarrow> u64 \<Rightarrow> u32 \<Rightarrow> membership_proof list \<Rightarrow> u64 \<Rightarrow> 'se tx_result" where
  "validate_tx E tx current_block_index block_version root_proofs minimum_fee =
     (let px = tx_prefix_of tx in
      if BLOCK_VERSION_MAX < block_version then Err (TxLedgerError ''Invalid block version'')
      else
        and_then (validate_number_of_inputs px MAX_INPUTS) (\<lambda>_.
        and_then (validate_number_of_outputs px MAX_OUTPUTS) (\<lambda>_.
        and_then (validate_ring_sizes px RING_SIZE) (\<lambda>_.
        and_then (validate_ring_elements_are_unique px) (\<lambda>_.
        and_then (validate_ring_elements_are_sorted px) (\<lambda>_.
        and_then (validate_inputs_are_sorted px) (\<lambda>_.
        and_then (validate_membership_proofs (te_txo E) px root_proofs) (\<lambda>_.
        and_then (validate_signature E block_version tx) (\<lambda>_.
        and_then (validate_transaction_fee tx minimum_fee) (\<lambda>_.
        and_then (validate_key_images_are_unique E tx) (\<lambda>_.
        and_then (validate_outputs_public_keys_are_unique tx) (\<lambda>_.
        and_then (validate_tombstone current_block_index (px_tombstone_block px)) (\<lambda>_.
        and_then (try_each (validate_tx_out block_version) (px_outputs px)) (\<lambda>_.
        and_then (if validate_transaction_outputs_are_sorted block_version then validate_outputs_are_sorted px
                  else Ok ()) (\<lambda>_.
        if signed_input_rules_are_supported block_version then validate_all_input_rules E block_version tx
        else validate_that_no_input_rules_exist tx)))))))))))))))"

subsection \<open>The checks one by one\<close>

lemma zip_tl_successively: "list_all (\<lambda>(a, b). P a b) (zip xs (tl xs)) \<longleftrightarrow> successively P xs"
  by (induction xs rule: induct_list012) auto

lemma check_sorted_Ok:
  assumes "transp P"
  shows "check_sorted xs P e = Ok () \<longleftrightarrow> sorted_wrt P xs"
  using assms by (simp add: check_sorted_def zip_tl_successively successively_conv_sorted_wrt)

lemma check_sorted_by_key:
  "check_sorted xs (\<lambda>a b. (f a :: 'k::linorder) < f b) e = Ok () \<longleftrightarrow> sorted_wrt (<) (map f xs)"
proof -
  have "transp (\<lambda>a b. f a < f b)" by (auto intro!: transpI)
  then show ?thesis by (simp add: check_sorted_Ok sorted_wrt_map)
qed

lemma try_fold_insert_new:
  "try_fold (insert_new e) S xs = Ok T \<longleftrightarrow> distinct xs \<and> S \<inter> set xs = {} \<and> T = S \<union> set xs"
  by (induction xs arbitrary: S) (auto simp: insert_new_def)

lemma check_unique_Ok: "check_unique xs e = Ok () \<longleftrightarrow> distinct xs"
  by (simp add: check_unique_def outcome_simps try_fold_insert_new)

lemma ring_elements_unique_fold:
  "try_fold (\<lambda>seen i. if in_input_rules i \<noteq> None
      then and_then (check_unique (in_ring i) DuplicateRingElements) (\<lambda>_. Ok seen)
      else try_fold (insert_new DuplicateRingElements) seen (in_ring i)) S is = Ok T \<longleftrightarrow>
   list_all (\<lambda>i. distinct (in_ring i)) (filter (\<lambda>i. in_input_rules i \<noteq> None) is) \<and>
   (let free = concat (map in_ring (filter (\<lambda>i. in_input_rules i = None) is)) in
    distinct free \<and> S \<inter> set free = {} \<and> T = S \<union> set free)"
  by (induction "is" arbitrary: S) (auto simp: outcome_simps check_unique_Ok try_fold_insert_new Let_def)

lemma ring_elements_unique_Ok:
  "validate_ring_elements_are_unique px = Ok () \<longleftrightarrow>
   list_all (\<lambda>i. distinct (in_ring i)) (filter (\<lambda>i. in_input_rules i \<noteq> None) (px_inputs px)) \<and>
   distinct (concat (map in_ring (filter (\<lambda>i. in_input_rules i = None) (px_inputs px))))"
  unfolding validate_ring_elements_are_unique_def and_then_eq_Ok ring_elements_unique_fold by (simp add: Let_def)

lemma ring_sizes_Ok: "validate_ring_sizes px n = Ok () \<longleftrightarrow> list_all (\<lambda>i. length (in_ring i) = n) (px_inputs px)"
  by (auto simp: validate_ring_sizes_def try_each_Ok list_all_iff)

lemma inputs_sorted_Ok:
  assumes "list_all (\<lambda>i. in_ring i \<noteq> []) (px_inputs px)"
  shows "validate_inputs_are_sorted px = Ok () \<longleftrightarrow>
    sorted_wrt (<) (map (\<lambda>i. out_public_key (hd (in_ring i))) (px_inputs px))"
proof -
  let ?P = "\<lambda>a b. in_ring a \<noteq> [] \<and> in_ring b \<noteq> [] \<and> out_public_key (hd (in_ring a)) < out_public_key (hd (in_ring b))"
  have "transp ?P" by (auto intro!: transpI)
  then have "validate_inputs_are_sorted px = Ok () \<longleftrightarrow> sorted_wrt ?P (px_inputs px)"
    unfolding validate_inputs_are_sorted_def by (rule check_sorted_Ok)
  also have "\<dots> \<longleftrightarrow> sorted_wrt (\<lambda>a b. out_public_key (hd (in_ring a)) < out_public_key (hd (in_ring b))) (px_inputs px)"
    using assms by (induction "px_inputs px" arbitrary: px rule: list.induct) (auto simp: list_all_iff sorted_wrt_iff_nth_less)
  finally show ?thesis by (simp add: sorted_wrt_map)
qed

text \<open>The limit on the tombstone block, also where the sum of the code wraps.\<close>

lemma tombstone_Ok:
  "validate_tombstone cur tomb = Ok () \<longleftrightarrow>
   unat cur < unat tomb \<and> unat tomb \<le> unat cur + 20160 \<and> unat cur + 20160 < 2 ^ 64"
proof (cases "unat cur + 20160 < 2 ^ 64")
  case True
  then have "unat (cur + MAX_TOMBSTONE_BLOCKS) = unat cur + 20160"
    by (simp add: MAX_TOMBSTONE_BLOCKS_def unat_add_lem [THEN iffD1])
  with True show ?thesis by (auto simp: validate_tombstone_def Let_def word_le_nat_alt word_less_nat_alt)
next
  case False
  have "unat (cur + MAX_TOMBSTONE_BLOCKS) = (unat cur + 20160) mod 2 ^ 64"
    by (simp add: MAX_TOMBSTONE_BLOCKS_def unat_word_ariths)
  also have "\<dots> \<le> unat cur + 20160 - 2 ^ 64"
    using False le_mod_geq [of "2 ^ 64" "unat cur + 20160"] by (simp only: not_less mod_less_eq_dividend)
  finally have "cur + MAX_TOMBSTONE_BLOCKS \<le> cur" by (simp add: word_le_nat_alt)
  with False show ?thesis by (auto simp: validate_tombstone_def Let_def not_less)
qed

subsection \<open>Valid transactions\<close>

definition inputs_valid :: "tx_prefix \<Rightarrow> bool" where
  "inputs_valid px \<longleftrightarrow>
     1 \<le> length (px_inputs px) \<and> length (px_inputs px) \<le> 16 \<and>
     list_all (\<lambda>i. length (in_ring i) = 11 \<and> sorted_wrt (<) (map out_public_key (in_ring i))) (px_inputs px) \<and>
     list_all (\<lambda>i. distinct (in_ring i)) (filter (\<lambda>i. in_input_rules i \<noteq> None) (px_inputs px)) \<and>
     distinct (concat (map in_ring (filter (\<lambda>i. in_input_rules i = None) (px_inputs px)))) \<and>
     sorted_wrt (<) (map (\<lambda>i. out_public_key (hd (in_ring i))) (px_inputs px))"

definition output_valid :: "u32 \<Rightarrow> tx_out \<Rightarrow> bool" where
  "output_valid v out \<longleftrightarrow> (out_e_memo out \<noteq> None \<longleftrightarrow> v \<ge> 1) \<and>
     (\<exists>ma. out_masked_amount out = Some ma \<and> length (masked_token_id ma) = (if v \<ge> 2 then 8 else 0))"

definition outputs_valid :: "u32 \<Rightarrow> tx_prefix \<Rightarrow> bool" where
  "outputs_valid v px \<longleftrightarrow>
     1 \<le> length (px_outputs px) \<and> length (px_outputs px) \<le> 16 \<and> distinct (map out_public_key (px_outputs px)) \<and>
     list_all (output_valid v) (px_outputs px) \<and> (v \<ge> 3 \<longrightarrow> sorted_wrt (<) (map out_public_key (px_outputs px)))"

definition input_rules_valid :: "reveal \<Rightarrow> u32 \<Rightarrow> tx_prefix \<Rightarrow> bool" where
  "input_rules_valid rv v px \<longleftrightarrow>
     list_all (\<lambda>i. case in_input_rules i of None \<Rightarrow> True | Some rules \<Rightarrow> v \<ge> 3 \<and> rules_respected rv rules px) (px_inputs px)"

definition tombstone_valid :: "u64 \<Rightarrow> tx_prefix \<Rightarrow> bool" where
  "tombstone_valid cur px \<longleftrightarrow> unat cur < unat (px_tombstone_block px) \<and>
     unat (px_tombstone_block px) \<le> unat cur + 20160 \<and> unat cur + 20160 < 2 ^ 64"

lemma validate_tx_out_Ok: "validate_tx_out v out = Ok () \<longleftrightarrow> output_valid v out"
  by (auto simp: validate_tx_out_def output_valid_def outcome_simps e_memo_feature_is_supported_def
      masked_token_id_feature_is_supported_def validate_memo_exists_def validate_that_no_memo_exists_def
      validate_masked_token_id_exists_def validate_that_no_masked_token_id_exists_def get_masked_amount_def
      TOKEN_ID_NUM_BYTES_def split: if_splits)

lemma input_rules_Ok:
  "(if signed_input_rules_are_supported v then validate_all_input_rules E v tx else validate_that_no_input_rules_exist tx)
    = Ok () \<longleftrightarrow> input_rules_valid (te_reveal E) v (tx_prefix_of tx)"
  by (auto simp: signed_input_rules_are_supported_def validate_all_input_rules_def validate_that_no_input_rules_exist_def
      input_rules_valid_def try_each_Ok list_all_iff outcome_simps verify_input_rules_respected split: option.splits)

lemma number_of_inputs_Ok:
  "validate_number_of_inputs px MAX_INPUTS = Ok () \<longleftrightarrow> 1 \<le> length (px_inputs px) \<and> length (px_inputs px) \<le> 16"
  by (auto simp: validate_number_of_inputs_def MAX_INPUTS_def Let_def Suc_le_eq)

lemma number_of_outputs_Ok:
  "validate_number_of_outputs px MAX_OUTPUTS = Ok () \<longleftrightarrow> 1 \<le> length (px_outputs px) \<and> length (px_outputs px) \<le> 16"
  by (auto simp: validate_number_of_outputs_def MAX_OUTPUTS_def Let_def Suc_le_eq)

lemma ring_elements_sorted_Ok:
  "validate_ring_elements_are_sorted px = Ok () \<longleftrightarrow>
   list_all (\<lambda>i. sorted_wrt (<) (map out_public_key (in_ring i))) (px_inputs px)"
  by (simp add: validate_ring_elements_are_sorted_def try_each_Ok check_sorted_by_key)

lemma output_keys_unique_Ok:
  "validate_outputs_public_keys_are_unique tx = Ok () \<longleftrightarrow> distinct (map out_public_key (px_outputs (tx_prefix_of tx)))"
  by (simp add: validate_outputs_public_keys_are_unique_def output_public_keys_def check_unique_Ok)

lemma outputs_sorted_Ok:
  "(if validate_transaction_outputs_are_sorted v then validate_outputs_are_sorted px else Ok ()) = Ok () \<longleftrightarrow>
   (v \<ge> 3 \<longrightarrow> sorted_wrt (<) (map out_public_key (px_outputs px)))"
  by (simp add: validate_transaction_outputs_are_sorted_def validate_outputs_are_sorted_def check_sorted_by_key)

lemma key_images_unique_Ok: "validate_key_images_are_unique E tx = Ok () \<longleftrightarrow> distinct (key_images E tx)"
  by (simp add: validate_key_images_are_unique_def check_unique_Ok)

lemma fee_Ok: "validate_transaction_fee tx minimum_fee = Ok () \<longleftrightarrow> minimum_fee \<le> px_fee (tx_prefix_of tx)"
  by (auto simp: validate_transaction_fee_def)

lemma outputs_structure_Ok:
  "try_each (validate_tx_out v) outs = Ok () \<longleftrightarrow> list_all (output_valid v) outs"
  by (simp add: try_each_Ok validate_tx_out_Ok)

lemmas checks_Ok = number_of_inputs_Ok number_of_outputs_Ok ring_sizes_Ok ring_elements_unique_Ok ring_elements_sorted_Ok
  fee_Ok key_images_unique_Ok output_keys_unique_Ok tombstone_Ok outputs_structure_Ok outputs_sorted_Ok input_rules_Ok

lemma then_Ok: "and_then x (\<lambda>_ :: unit. y) = Ok z \<longleftrightarrow> x = Ok () \<and> y = Ok z"
  by (cases x) auto

lemma guard_Ok: "(if b then Err e else x) = Ok y \<longleftrightarrow> \<not> b \<and> x = Ok y"
  by simp

lemma rings_not_empty: "list_all (\<lambda>i. length (in_ring i) = RING_SIZE) is \<Longrightarrow> list_all (\<lambda>i. in_ring i \<noteq> []) is"
  by (auto simp: list_all_iff RING_SIZE_def)

text \<open>C35. \<^verbatim>\<open>validate\<close> accepts a transaction exactly when its block version is known, it has 1 to 16 inputs, each with a
  ring of 11 elements that is strictly sorted by public key, the rings without input rules share no
  element and the inputs are strictly sorted; it has 1 to 16 outputs with different public keys, a memo and
  a masked token id as the block version asks for, sorted from version 3 on; the rules of
  the inputs are respected, and there are none before version 3; the fee reaches the minimum, the
  key images are different, the tombstone block is after the current block and at most 20160 later, with the sum
  within 64 bits; and the membership proofs and the signature pass their checks.\<close>

theorem validate_tx_exact:
  "validate_tx E tx cur v root_proofs minimum_fee = Ok () \<longleftrightarrow>
     v \<le> BLOCK_VERSION_MAX \<and> inputs_valid (tx_prefix_of tx) \<and> outputs_valid v (tx_prefix_of tx) \<and>
     input_rules_valid (te_reveal E) v (tx_prefix_of tx) \<and> minimum_fee \<le> px_fee (tx_prefix_of tx) \<and>
     distinct (key_images E tx) \<and> tombstone_valid cur (tx_prefix_of tx) \<and>
     (validate_membership_proofs (te_txo E) (tx_prefix_of tx) root_proofs :: 'se tx_result) = Ok () \<and>
     validate_signature E v tx = Ok ()"
  for E :: "('sig, 'se) tx_env"
proof -
  let ?px = "tx_prefix_of tx"
  have sorted: "(validate_inputs_are_sorted ?px :: 'se tx_result) = Ok () \<longleftrightarrow>
      sorted_wrt (<) (map (\<lambda>i. out_public_key (hd (in_ring i))) (px_inputs ?px))"
    if "list_all (\<lambda>i. length (in_ring i) = RING_SIZE) (px_inputs ?px)"
    by (rule inputs_sorted_Ok [OF rings_not_empty [OF that]])
  have "validate_tx E tx cur v root_proofs minimum_fee = Ok () \<longleftrightarrow>
     \<not> BLOCK_VERSION_MAX < v \<and> (1 \<le> length (px_inputs ?px) \<and> length (px_inputs ?px) \<le> 16) \<and>
     (1 \<le> length (px_outputs ?px) \<and> length (px_outputs ?px) \<le> 16) \<and>
     list_all (\<lambda>i. length (in_ring i) = RING_SIZE) (px_inputs ?px) \<and>
     (list_all (\<lambda>i. distinct (in_ring i)) (filter (\<lambda>i. in_input_rules i \<noteq> None) (px_inputs ?px)) \<and>
      distinct (concat (map in_ring (filter (\<lambda>i. in_input_rules i = None) (px_inputs ?px))))) \<and>
     list_all (\<lambda>i. sorted_wrt (<) (map out_public_key (in_ring i))) (px_inputs ?px) \<and>
     (validate_inputs_are_sorted ?px :: 'se tx_result) = Ok () \<and>
     (validate_membership_proofs (te_txo E) ?px root_proofs :: 'se tx_result) = Ok () \<and> validate_signature E v tx = Ok () \<and>
     minimum_fee \<le> px_fee ?px \<and> distinct (key_images E tx) \<and> distinct (map out_public_key (px_outputs ?px)) \<and>
     (unat cur < unat (px_tombstone_block ?px) \<and> unat (px_tombstone_block ?px) \<le> unat cur + 20160 \<and>
      unat cur + 20160 < 2 ^ 64) \<and> list_all (output_valid v) (px_outputs ?px) \<and>
     (v \<ge> 3 \<longrightarrow> sorted_wrt (<) (map out_public_key (px_outputs ?px))) \<and> input_rules_valid (te_reveal E) v ?px"
    unfolding validate_tx_def Let_def
    by (simp only: guard_Ok then_Ok checks_Ok)
  then show ?thesis
    using sorted
    unfolding inputs_valid_def outputs_valid_def tombstone_valid_def RING_SIZE_def not_less
    by (auto simp: list_all_iff)
qed

end
