(* ===== verification/Mint_Validation.thy ===== *)
theory Mint_Validation
  imports Crypto_Multisig Tx_Validation
begin

section \<open>Minting transactions (\<^verbatim>\<open>transaction/core/src/mint\<close>)\<close>

text \<open>
  The transactions that configure minting and that mint, and their validation. The digests of their contents and the
  verification of one signature are fields of the record of external functions.
\<close>

subsection \<open>Transactions\<close>

record 'p mint_config =
  mc_token_id :: u64
  mc_signer_set :: "'p signer_set"
  mc_mint_limit :: u64

record 'p mint_config_tx_prefix =
  mcp_token_id :: u64
  mcp_configs :: "'p mint_config list"
  mcp_nonce :: bytes
  mcp_tombstone_block :: u64
  mcp_total_mint_limit :: u64

record 'p mint_config_tx =
  mct_prefix :: "'p mint_config_tx_prefix"
  mct_signature :: "bytes list"

record 'p validated_mint_config_tx =
  vm_mint_config_tx :: "'p mint_config_tx"
  vm_signer_set :: "'p signer_set"

record mint_tx_prefix =
  mtp_token_id :: u64
  mtp_amount :: u64
  mtp_view_public_key :: bytes
  mtp_spend_public_key :: bytes
  mtp_nonce :: bytes
  mtp_tombstone_block :: u64
  mtp_e_fog_hint :: "bytes option"

record mint_tx =
  mt_prefix :: mint_tx_prefix
  mt_signature :: "bytes list"

record 'p mint_env =
  mx_verify :: "'p \<Rightarrow> bytes \<Rightarrow> bytes \<Rightarrow> bool"
  mx_hash_config :: "'p mint_config_tx_prefix \<Rightarrow> bytes"
  mx_hash_tx :: "mint_tx_prefix \<Rightarrow> bytes"

definition NONCE_LENGTH :: nat where "NONCE_LENGTH = 64"

subsection \<open>Validation\<close>

datatype mint_validation_error =
    MintInvalidBlockVersion u32
  | MintInvalidTokenId u64
  | InvalidNonceLength nat
  | InvalidSignerSet
  | MintInvalidSignature
  | MintTombstoneBlockExceeded
  | MintTombstoneBlockTooFar
  | MintUnknown
  | AmountExceedsMintLimit
  | NoGovernors u64
  | NonceAlreadyUsed
  | NoMatchingMintConfig
  | MintingToFogNotSupported

type_synonym mint_result = "(mint_validation_error, unit) outcome"

definition mint_validate_tombstone :: "u64 \<Rightarrow> u64 \<Rightarrow> mint_result" where
  "mint_validate_tombstone current_block_index tombstone_block_index =
     map_err (\<lambda>err :: unit transaction_validation_error. case err of
         TombstoneBlockExceeded \<Rightarrow> MintTombstoneBlockExceeded
       | TombstoneBlockTooFar \<Rightarrow> MintTombstoneBlockTooFar
       | _ \<Rightarrow> MintUnknown)
       (validate_tombstone current_block_index tombstone_block_index)"

definition validate_block_version :: "u32 \<Rightarrow> mint_result" where
  "validate_block_version block_version =
     (if \<not> mint_transactions_are_supported block_version \<or> BLOCK_VERSION_MAX < block_version
      then Err (MintInvalidBlockVersion block_version) else Ok ())"

definition validate_token_id :: "u64 \<Rightarrow> mint_result" where
  "validate_token_id token_id = (if token_id = 0 then Err (MintInvalidTokenId token_id) else Ok ())"

definition validate_nonce :: "bytes \<Rightarrow> mint_result" where
  "validate_nonce nonce = (if length nonce \<noteq> NONCE_LENGTH then Err (InvalidNonceLength (length nonce)) else Ok ())"

definition validate_configs :: "u64 \<Rightarrow> 'p mint_config list \<Rightarrow> u32 \<Rightarrow> mint_result" where
  "validate_configs token_id configs block_version =
     try_each (\<lambda>config.
       if mc_token_id config \<noteq> token_id then Err (MintInvalidTokenId (mc_token_id config))
       else if \<not> signer_set_is_valid (mc_signer_set config) then Err InvalidSignerSet
       else if \<not> nested_multisigs_are_supported block_version \<and> multi_signers (mc_signer_set config) \<noteq> []
       then Err InvalidSignerSet
       else Ok ()) configs"

definition validate_config_signature :: "'p::linorder mint_env \<Rightarrow> 'p mint_config_tx \<Rightarrow> 'p signer_set \<Rightarrow> mint_result" where
  "validate_config_signature M tx governors =
     and_then (map_err (\<lambda>_. MintInvalidSignature)
       (verify (mx_verify M) governors (mx_hash_config M (mct_prefix tx)) (mct_signature tx))) (\<lambda>_. Ok ())"

definition validate_mint_config_tx ::
  "'p::linorder mint_env \<Rightarrow> 'p mint_config_tx \<Rightarrow> u64 option \<Rightarrow> u32 \<Rightarrow> 'p signer_set \<Rightarrow> mint_result" where
  "validate_mint_config_tx M tx current_block_index block_version governors =
     and_then (validate_block_version block_version) (\<lambda>_.
     let token_id = mcp_token_id (mct_prefix tx) in
     and_then (validate_token_id token_id) (\<lambda>_.
     and_then (validate_configs token_id (mcp_configs (mct_prefix tx)) block_version) (\<lambda>_.
     and_then (validate_nonce (mcp_nonce (mct_prefix tx))) (\<lambda>_.
     and_then (case current_block_index of
         Some i \<Rightarrow> mint_validate_tombstone i (mcp_tombstone_block (mct_prefix tx)) | None \<Rightarrow> Ok ()) (\<lambda>_.
     validate_config_signature M tx governors)))))"

definition validate_mint_signature :: "'p::linorder mint_env \<Rightarrow> mint_tx \<Rightarrow> 'p signer_set \<Rightarrow> mint_result" where
  "validate_mint_signature M tx signer_set =
     and_then (map_err (\<lambda>_. MintInvalidSignature)
       (verify (mx_verify M) signer_set (mx_hash_tx M (mt_prefix tx)) (mt_signature tx))) (\<lambda>_. Ok ())"

definition validate_against_mint_config :: "'p::linorder mint_env \<Rightarrow> mint_tx \<Rightarrow> 'p mint_config \<Rightarrow> mint_result" where
  "validate_against_mint_config M tx mint_config =
     (if mtp_token_id (mt_prefix tx) \<noteq> mc_token_id mint_config
      then Err (MintInvalidTokenId (mtp_token_id (mt_prefix tx)))
      else if mtp_amount (mt_prefix tx) > mc_mint_limit mint_config then Err AmountExceedsMintLimit
      else and_then (validate_mint_signature M tx (mc_signer_set mint_config)) (\<lambda>_. Ok ()))"

definition validate_e_fog_hint :: "u32 \<Rightarrow> mint_tx \<Rightarrow> mint_result" where
  "validate_e_fog_hint block_version tx =
     (if mtp_e_fog_hint (mt_prefix tx) \<noteq> None \<and> \<not> minting_to_fog_addresses_is_supported block_version
      then Err MintingToFogNotSupported else Ok ())"

definition validate_mint_tx :: "'p::linorder mint_env \<Rightarrow> mint_tx \<Rightarrow> u64 \<Rightarrow> u32 \<Rightarrow> 'p mint_config \<Rightarrow> mint_result" where
  "validate_mint_tx M tx current_block_index block_version mint_config =
     and_then (validate_block_version block_version) (\<lambda>_.
     and_then (validate_token_id (mtp_token_id (mt_prefix tx))) (\<lambda>_.
     and_then (validate_nonce (mtp_nonce (mt_prefix tx))) (\<lambda>_.
     and_then (mint_validate_tombstone current_block_index (mtp_tombstone_block (mt_prefix tx))) (\<lambda>_.
     and_then (validate_against_mint_config M tx mint_config) (\<lambda>_.
     validate_e_fog_hint block_version tx)))))"

subsection \<open>What is accepted\<close>

lemma mint_tombstone_Ok:
  "mint_validate_tombstone cur tomb = Ok () \<longleftrightarrow>
   unat cur < unat tomb \<and> unat tomb \<le> unat cur + 20160 \<and> unat cur + 20160 < 2 ^ 64"
  by (simp add: mint_validate_tombstone_def map_err_eq_Ok tombstone_Ok)

lemma verify_Ok_iff:
  "(\<exists>ks. verify ver s message sigs = Ok ks) \<longleftrightarrow> length sigs \<le> MAX_SIGNATURES \<and> satisfied (signed_by ver message sigs) s"
proof (cases "length sigs \<le> MAX_SIGNATURES")
  case True
  then show ?thesis by (simp add: verify_satisfied [OF True])
next
  case False
  then show ?thesis by (cases s) simp
qed

text \<open>The signatures authorize the transaction: the threshold condition of the signer set holds for the keys that signed.\<close>

definition authorized :: "('p \<Rightarrow> bytes \<Rightarrow> bytes \<Rightarrow> bool) \<Rightarrow> 'p signer_set \<Rightarrow> bytes \<Rightarrow> bytes list \<Rightarrow> bool" where
  "authorized ver s message sigs \<longleftrightarrow> length sigs \<le> MAX_SIGNATURES \<and> satisfied (signed_by ver message sigs) s"

lemma validate_mint_signature_Ok:
  "validate_mint_signature M tx s = Ok () \<longleftrightarrow> authorized (mx_verify M) s (mx_hash_tx M (mt_prefix tx)) (mt_signature tx)"
  using verify_Ok_iff [of "mx_verify M" s "mx_hash_tx M (mt_prefix tx)" "mt_signature tx"]
  by (auto simp: validate_mint_signature_def authorized_def outcome_simps)

lemma validate_mint_tx_Ok:
  "validate_mint_tx M tx cur v c = Ok () \<longleftrightarrow>
     2 \<le> v \<and> v \<le> BLOCK_VERSION_MAX \<and> mtp_token_id (mt_prefix tx) \<noteq> 0 \<and> length (mtp_nonce (mt_prefix tx)) = 64 \<and>
     (unat cur < unat (mtp_tombstone_block (mt_prefix tx)) \<and> unat (mtp_tombstone_block (mt_prefix tx)) \<le> unat cur + 20160 \<and>
      unat cur + 20160 < 2 ^ 64) \<and>
     mtp_token_id (mt_prefix tx) = mc_token_id c \<and> mtp_amount (mt_prefix tx) \<le> mc_mint_limit c \<and>
     authorized (mx_verify M) (mc_signer_set c) (mx_hash_tx M (mt_prefix tx)) (mt_signature tx) \<and>
     (mtp_e_fog_hint (mt_prefix tx) = None \<or> 3 \<le> v)"
  by (auto simp: validate_mint_tx_def then_Ok validate_block_version_def mint_transactions_are_supported_def
      validate_token_id_def validate_nonce_def NONCE_LENGTH_def mint_tombstone_Ok validate_against_mint_config_def
      validate_mint_signature_Ok validate_e_fog_hint_def minting_to_fog_addresses_is_supported_def not_le not_less)
end
