(* ===== verification/Ledger_TxOut_Store.thy ===== *)
theory Ledger_TxOut_Store
  imports Tx_Membership
begin

section \<open>The store of outputs (\<^verbatim>\<open>ledger/db/src/tx_out_store.rs\<close>)\<close>

text \<open>
  The append-only store of transaction outputs with its Merkle tree. An LMDB database is a
  partial map from key bytes to value bytes; a call that fails returns the error and no state,
  since the callers abandon the transaction. Failures of the disk are not modelled.
\<close>

type_synonym database = "bytes \<rightharpoonup> bytes"

text \<open>
  The errors of \<^verbatim>\<open>ledger/db/src/error.rs\<close>, without those of the metadata store that versions the file.
  Of the errors of LMDB itself the code depends on these three.
\<close>

datatype lmdb_error = LmdbNotFound | LmdbBadRslot | KeyExist

datatype ledger_error =
    NotFound
  | Serialization
  | Deserialization
  | NoTransactions
  | InvalidBlockVersion u32
  | NoKeyImages
  | InvalidBlockIndex u64
  | KeyImageAlreadySpent
  | DuplicateOutputPublicKey
  | InvalidBlockContents
  | InvalidBlockID bytes
  | InvalidParentBlockID bytes
  | NoOutputs
  | TooFewOutputs
  | BadRslot
  | CapacityExceeded
  | TxOutIndexOutOfBounds u64
  | Lmdb lmdb_error
  | LedgerRange
  | InvalidMintConfig string
  | MintLimitExceeded u64 u64 u64
  | TotalMintedAmountCannotDecrease u64 u64
  | DuplicateMintTx
  | DuplicateMintConfigTx
  | BlockMetadataRequired
  | MissingMaskedAmount

definition from_lmdb :: "lmdb_error \<Rightarrow> ledger_error" where
  "from_lmdb e = (case e of LmdbNotFound \<Rightarrow> NotFound | LmdbBadRslot \<Rightarrow> BadRslot | KeyExist \<Rightarrow> Lmdb KeyExist)"

type_synonym 'a ledger = "(ledger_error, 'a) outcome"

subsection \<open>Keys and values\<close>

definition u64_to_key_bytes :: "u64 \<Rightarrow> bytes" where
  "u64_to_key_bytes value = map (\<lambda>i. ucast (drop_bit (8 * (7 - i)) value)) [0..<8]"

definition from_be_bytes :: "bytes \<Rightarrow> u64" where
  "from_be_bytes bs = foldl (\<lambda>acc b. push_bit 8 acc OR ucast b) 0 bs"

definition key_bytes_to_u64 :: "bytes \<Rightarrow> u64 run" where
  "key_bytes_to_u64 bs = do { rust_assert (length bs = 8); Some (from_be_bytes bs) }"

definition range_to_key_bytes :: "leaf_range \<Rightarrow> bytes" where
  "range_to_key_bytes r = u64_to_key_bytes (r_from r) @ u64_to_key_bytes (r_to r)"

definition lm_get :: "database \<Rightarrow> bytes \<Rightarrow> bytes ledger" where
  "lm_get db k = ok_or (from_lmdb LmdbNotFound) (db k)"

text \<open>\<^verbatim>\<open>put\<close> with \<^verbatim>\<open>WriteFlags::empty()\<close> and with \<^verbatim>\<open>WriteFlags::NO_OVERWRITE\<close>.\<close>

definition lm_put :: "database \<Rightarrow> bytes \<Rightarrow> bytes \<Rightarrow> database" where
  "lm_put db k v = db(k \<mapsto> v)"

definition lm_put_new :: "database \<Rightarrow> bytes \<Rightarrow> bytes \<Rightarrow> database ledger" where
  "lm_put_new db k v = (if db k \<noteq> None then Err (from_lmdb KeyExist) else Ok (db(k \<mapsto> v)))"

lemma from_lmdb_simps [simp]: "from_lmdb LmdbNotFound = NotFound" "from_lmdb KeyExist = Lmdb KeyExist"
  by (simp_all add: from_lmdb_def)

lemma length_u64_to_key_bytes [simp]: "length (u64_to_key_bytes v) = 8"
  by (simp add: u64_to_key_bytes_def)

lemma foldl_be_bytes:
  "foldl (\<lambda>acc b. push_bit 8 acc OR ucast b) acc (map (\<lambda>i. ucast (drop_bit (8 * (n - Suc i)) v) :: u8) [0..<n])
   = push_bit (8 * n) acc OR take_bit (8 * n) (v :: u64)"
proof (induction n arbitrary: acc)
  case (Suc n)
  let ?b = "ucast (drop_bit (8 * n) v) :: u8"
  have "map (\<lambda>i. ucast (drop_bit (8 * (Suc n - Suc i)) v) :: u8) [0..<Suc n] =
      ?b # map (\<lambda>i. ucast (drop_bit (8 * (n - Suc i)) v)) [0..<n]"
    by (subst upt_conv_Cons) (auto simp: map_Suc_upt [symmetric] simp del: upt_Suc)
  then have "foldl (\<lambda>acc b. push_bit 8 acc OR ucast b) acc
      (map (\<lambda>i. ucast (drop_bit (8 * (Suc n - Suc i)) v) :: u8) [0..<Suc n])
    = push_bit (8 * n) (push_bit 8 acc OR ucast ?b) OR take_bit (8 * n) v"
    using Suc.IH [of "push_bit 8 acc OR ucast ?b"] by simp
  also have "\<dots> = push_bit (8 * Suc n) acc OR take_bit (8 * Suc n) v"
  proof (rule bit_eqI)
    fix k assume "possible_bit TYPE(u64) k"
    then have k: "k < 64" by simp
    have b: "bit (ucast ?b :: u64) j \<longleftrightarrow> j < 8 \<and> bit v (8 * n + j)" for j by (auto simp: bit_simps)
    consider "k < 8 * n" | "8 * n \<le> k" "k < 8 * Suc n" | "8 * Suc n \<le> k" by linarith
    then show "bit (push_bit (8 * n) (push_bit 8 acc OR ucast ?b) OR take_bit (8 * n) v) k =
      bit (push_bit (8 * Suc n) acc OR take_bit (8 * Suc n) v) k"
      using k by cases (auto simp: bit_or_iff bit_push_bit_iff bit_take_bit_iff b diff_diff_add add.commute)
  qed
  finally show ?case .
qed simp

lemma from_be_bytes_key: "from_be_bytes (u64_to_key_bytes v) = v"
proof -
  have "u64_to_key_bytes v = map (\<lambda>i. ucast (drop_bit (8 * (8 - Suc i)) v)) [0..<8]"
    by (simp add: u64_to_key_bytes_def)
  with foldl_be_bytes [of 0 8 v] show ?thesis
    by (simp add: from_be_bytes_def take_bit_word_eq_self)
qed

lemma key_bytes_to_u64_key [simp]: "key_bytes_to_u64 (u64_to_key_bytes v) = Some v"
  by (simp add: key_bytes_to_u64_def from_be_bytes_key)

lemma u64_to_key_bytes_inject [simp]: "u64_to_key_bytes a = u64_to_key_bytes b \<longleftrightarrow> a = b"
  by (metis from_be_bytes_key)

lemma range_to_key_bytes_inject [simp]: "range_to_key_bytes r = range_to_key_bytes s \<longleftrightarrow> r = s"
  by (cases r; cases s) (simp add: range_to_key_bytes_def)

subsection \<open>The store\<close>

record tx_out_store =
  counts :: database
  tx_out_by_index :: database
  tx_out_index_by_hash :: database
  tx_out_index_by_public_key :: database
  merkle_hashes :: database

definition NUM_TX_OUTS_KEY :: bytes where
  "NUM_TX_OUTS_KEY = ascii ''num_tx_outs''"

definition tx_out_store_create :: tx_out_store where
  "tx_out_store_create =
     \<lparr>counts = lm_put Map.empty NUM_TX_OUTS_KEY (u64_to_key_bytes 0), tx_out_by_index = Map.empty,
      tx_out_index_by_hash = Map.empty, tx_out_index_by_public_key = Map.empty, merkle_hashes = Map.empty\<rparr>"

definition num_tx_outs :: "tx_out_store \<Rightarrow> u64 ledger" where
  "num_tx_outs s = and_then (lm_get (counts s) NUM_TX_OUTS_KEY) (\<lambda>bs. of_run (key_bytes_to_u64 bs))"

definition get_tx_out_index_by_hash :: "tx_out_store \<Rightarrow> bytes \<Rightarrow> u64 ledger" where
  "get_tx_out_index_by_hash s hash =
     and_then (lm_get (tx_out_index_by_hash s) hash) (\<lambda>bs. of_run (key_bytes_to_u64 bs))"

definition get_tx_out_index_by_public_key :: "tx_out_store \<Rightarrow> bytes \<Rightarrow> u64 ledger" where
  "get_tx_out_index_by_public_key s tx_out_public_key =
     and_then (lm_get (tx_out_index_by_public_key s) tx_out_public_key) (\<lambda>bs. of_run (key_bytes_to_u64 bs))"

definition get_tx_out_by_index :: "'out txo_env \<Rightarrow> tx_out_store \<Rightarrow> u64 \<Rightarrow> 'out ledger" where
  "get_tx_out_by_index E s index =
     and_then (lm_get (tx_out_by_index s) (u64_to_key_bytes index)) (\<lambda>bs. ok_or Deserialization (decode E bs))"

definition write_merkle_hash :: "leaf_range \<Rightarrow> bytes \<Rightarrow> tx_out_store \<Rightarrow> tx_out_store" where
  "write_merkle_hash r hash s = s\<lparr>merkle_hashes := lm_put (merkle_hashes s) (range_to_key_bytes r) hash\<rparr>"

definition get_merkle_hash :: "tx_out_store \<Rightarrow> leaf_range \<Rightarrow> bytes ledger" where
  "get_merkle_hash s r =
     and_then (lm_get (merkle_hashes s) (range_to_key_bytes r))
       (\<lambda>bs. if length bs = 32 then Ok bs else Err Deserialization)"

text \<open>\<^verbatim>\<open>Range::new(..)?\<close> in the ledger, where the error becomes \<^verbatim>\<open>Error::Range\<close>.\<close>

definition ledger_range :: "u64 \<Rightarrow> u64 \<Rightarrow> leaf_range ledger" where
  "ledger_range from to = map_err (\<lambda>_. LedgerRange) (range_new from to)"

definition get_root_merkle_hash :: "'out txo_env \<Rightarrow> tx_out_store \<Rightarrow> bytes ledger" where
  "get_root_merkle_hash E s =
     and_then (num_tx_outs s) (\<lambda>num.
       if num = 0 then Ok (hash_nil E)
       else case checked_next_power_of_two num of
         Some num_leaves_full_tree \<Rightarrow>
           and_then (ledger_range 0 (num_leaves_full_tree - 1)) (\<lambda>r. get_merkle_hash s r)
       | None \<Rightarrow> Err CapacityExceeded)"

definition containing_range :: "u64 \<Rightarrow> nat \<Rightarrow> u64 \<times> u64" where
  "containing_range index depth =
     (let m = push_bit depth 1 - 1 in (index AND NOT m, index OR m))"

definition containing_ranges :: "u64 \<Rightarrow> u64 \<Rightarrow> (u64 \<times> u64) list ledger" where
  "containing_ranges index num_leaves =
     (if index \<ge> num_leaves then Err (TxOutIndexOutOfBounds index)
      else case checked_next_power_of_two num_leaves of
        Some num_leaves_full_tree \<Rightarrow>
          let depth = 64 - leading_zeros num_leaves_full_tree - 1 in
          Ok (map (containing_range index) [0..<depth + 1])
      | None \<Rightarrow> Err CapacityExceeded)"

text \<open>The body of the loop of \<^verbatim>\<open>update_merkle_hashes\<close>.\<close>

definition update_merkle_node ::
  "'out txo_env \<Rightarrow> u64 \<Rightarrow> u64 \<Rightarrow> tx_out_store \<Rightarrow> u64 \<times> u64 \<Rightarrow> tx_out_store ledger" where
  "update_merkle_node E index num s r = (case r of (low, high) \<Rightarrow>
     if low = high then
       and_then (get_tx_out_by_index E s index) (\<lambda>tx_out.
       and_then (ledger_range low low) (\<lambda>r.
       Ok (write_merkle_hash r (hash_leaf E tx_out) s)))
     else
       (let mid = (low + high) div 2 in
        and_then (and_then (ledger_range low mid) (get_merkle_hash s)) (\<lambda>left_child_hash.
        and_then (if mid + 1 \<ge> num then Ok (hash_nil E)
                  else and_then (ledger_range (mid + 1) high) (get_merkle_hash s)) (\<lambda>right_child_hash.
        and_then (ledger_range low high) (\<lambda>r.
        Ok (write_merkle_hash r (hash_nodes E left_child_hash right_child_hash) s))))))"

definition update_merkle_hashes :: "'out txo_env \<Rightarrow> u64 \<Rightarrow> tx_out_store \<Rightarrow> tx_out_store ledger" where
  "update_merkle_hashes E index s =
     and_then (num_tx_outs s) (\<lambda>num.
       if index \<ge> num then Err (TxOutIndexOutOfBounds index)
       else and_then (containing_ranges index num) (\<lambda>ranges.
         try_fold (update_merkle_node E index num) s ranges))"

definition tx_out_store_push :: "'out txo_env \<Rightarrow> tx_out_store \<Rightarrow> 'out \<Rightarrow> (u64 \<times> tx_out_store) ledger" where
  "tx_out_store_push E s tx_out =
     and_then (num_tx_outs s) (\<lambda>num.
       let index = num;
           s = s\<lparr>counts := lm_put (counts s) NUM_TX_OUTS_KEY (u64_to_key_bytes (num + 1))\<rparr> in
       and_then (lm_put_new (tx_out_index_by_hash s) (tx_out_hash E tx_out) (u64_to_key_bytes index)) (\<lambda>by_hash.
       and_then (lm_put_new (tx_out_index_by_public_key s) (public_key E tx_out) (u64_to_key_bytes index)) (\<lambda>by_key.
       and_then (lm_put_new (tx_out_by_index s) (u64_to_key_bytes index) (encode E tx_out)) (\<lambda>by_index.
       and_then (update_merkle_hashes E index
           (s\<lparr>tx_out_index_by_hash := by_hash, tx_out_index_by_public_key := by_key, tx_out_by_index := by_index\<rparr>))
         (\<lambda>s. Ok (index, s))))))"

text \<open>The ranges of the elements of a proof: the leaf, then the half of each range without the index.\<close>

definition ranges_for_proof :: "u64 \<Rightarrow> (u64 \<times> u64) list \<Rightarrow> (u64 \<times> u64) list" where
  "ranges_for_proof index ranges =
     (index, index) #
     map (\<lambda>(low, high). let mid = (low + high) div 2 in
            if index \<le> mid then (mid + 1, high) else (low, mid)) (drop 1 ranges)"

definition proof_element :: "'out txo_env \<Rightarrow> tx_out_store \<Rightarrow> u64 \<Rightarrow> u64 \<times> u64 \<Rightarrow> membership_element ledger" where
  "proof_element E s num r = (case r of (low, high) \<Rightarrow>
     and_then (ledger_range low high) (\<lambda>r.
     and_then (if low \<ge> num then Ok (hash_nil E) else get_merkle_hash s r) (\<lambda>hash.
     Ok \<lparr>me_range = r, me_hash = hash\<rparr>)))"

definition get_merkle_proof_of_membership ::
  "'out txo_env \<Rightarrow> tx_out_store \<Rightarrow> u64 \<Rightarrow> membership_proof ledger" where
  "get_merkle_proof_of_membership E s index =
     and_then (num_tx_outs s) (\<lambda>num.
       if index \<ge> num then Err (TxOutIndexOutOfBounds index)
       else and_then (containing_ranges index num) (\<lambda>ranges.
         and_then (try_map (proof_element E s num) (ranges_for_proof index ranges)) (\<lambda>elements.
           Ok \<lparr>mp_index = index, mp_highest_index = num - 1, mp_elements = elements\<rparr>)))"

subsection \<open>What the store represents\<close>

text \<open>The index of the outputs by a key: the big-endian position of the output with that key.\<close>

definition index_map :: "('out \<Rightarrow> bytes) \<Rightarrow> 'out list \<Rightarrow> database" where
  "index_map f xs = map_of (zip (map f xs) (map (\<lambda>i. u64_to_key_bytes (word_of_nat i)) [0..<length xs]))"

text \<open>The hashes of all subtrees that contain outputs, up to the depth of the tree.\<close>

definition merkle_rep :: "'out txo_env \<Rightarrow> 'out list \<Rightarrow> database \<Rightarrow> bool" where
  "merkle_rep E xs db \<longleftrightarrow>
     (\<forall>d k. d \<le> ceil_log2 (length xs) \<longrightarrow> k * 2 ^ d < length xs \<longrightarrow>
        db (range_to_key_bytes (node_range d k)) = Some (merkle_hash E xs d k))"

definition store_rep :: "'out txo_env \<Rightarrow> 'out list \<Rightarrow> tx_out_store \<Rightarrow> bool" where
  "store_rep E xs s \<longleftrightarrow>
     length xs \<le> 2 ^ 63 \<and> distinct (map (tx_out_hash E) xs) \<and> distinct (map (public_key E) xs) \<and>
     counts s NUM_TX_OUTS_KEY = Some (u64_to_key_bytes (word_of_nat (length xs))) \<and>
     (\<forall>i. tx_out_by_index s (u64_to_key_bytes i) =
        (if unat i < length xs then Some (encode E (xs ! unat i)) else None)) \<and>
     tx_out_index_by_hash s = index_map (tx_out_hash E) xs \<and>
     tx_out_index_by_public_key s = index_map (public_key E) xs \<and>
     merkle_rep E xs (merkle_hashes s)"

text \<open>The documented behaviour of the codec and of the hash function.\<close>

definition env_ok :: "'out txo_env \<Rightarrow> bool" where
  "env_ok E \<longleftrightarrow> blake_ok E \<and> (\<forall>x. decode E (encode E x) = Some x)"

lemma store_rep_create: "store_rep E [] tx_out_store_create"
  by (simp add: store_rep_def tx_out_store_create_def lm_put_def index_map_def merkle_rep_def)

lemma index_map_eq_None: "index_map f xs k = None \<longleftrightarrow> k \<notin> set (map f xs)"
  unfolding index_map_def by (subst map_of_zip_is_None) simp_all

lemma index_map_append:
  assumes "f x \<notin> set (map f xs)"
  shows "index_map f (xs @ [x]) = (index_map f xs)(f x \<mapsto> u64_to_key_bytes (word_of_nat (length xs)))"
proof -
  have "f x \<notin> dom (index_map f xs)" using assms index_map_eq_None [of f xs "f x"] by auto
  from map_add_upd_left [OF this, of Map.empty] show ?thesis by (simp add: index_map_def)
qed

lemma index_map_lookup:
  assumes "distinct (map f xs)" and "i < length xs"
  shows "index_map f xs (f (xs ! i)) = Some (u64_to_key_bytes (word_of_nat i))"
  using assms by (auto simp: index_map_def intro!: map_of_is_SomeI simp: set_zip intro: exI [of _ i])

lemma store_rep_num:
  assumes "store_rep E xs s"
  shows "num_tx_outs s = Ok (word_of_nat (length xs))" "unat (word_of_nat (length xs) :: u64) = length xs"
proof -
  have "length xs < 2 ^ 64" using assms by (simp add: store_rep_def)
  then show "unat (word_of_nat (length xs) :: u64) = length xs" by (rule unat_of_nat_u64)
  show "num_tx_outs s = Ok (word_of_nat (length xs))"
    using assms by (simp add: store_rep_def num_tx_outs_def lm_get_def)
qed

lemma ledger_range_node:
  "(k + 1) * 2 ^ d \<le> 2 ^ 63 \<Longrightarrow>
   ledger_range (r_from (node_range d k)) (r_to (node_range d k)) = Ok (node_range d k)"
  using node_range_wf [of k d] by (simp add: ledger_range_def range_new_def)

lemma containing_range_node:
  assumes "d < 64" and "i < 2 ^ 63"
  shows "containing_range (word_of_nat i) d =
    (r_from (node_range d (i div 2 ^ d)), r_to (node_range d (i div 2 ^ d)))"
proof -
  have m: "push_bit d 1 - 1 = (mask d :: u64)" by (simp add: mask_eq_exp_minus_1 push_bit_eq_mult)
  have i: "unat (word_of_nat i :: u64) = i" using assms(2) by (simp add: unat_of_nat_u64)
  have b: "(i div 2 ^ d + 1) * 2 ^ d \<le> 2 ^ 63"
    using assms by (intro path_block_bound [of i 63]) auto
  note u = unat_node_range [OF b]
  have "word_of_nat i AND NOT (mask d) = r_from (node_range d (i div 2 ^ d))"
    unfolding u64_eq_iff by (simp only: unat_and_not_mask i u)
  moreover have "word_of_nat i OR mask d = r_to (node_range d (i div 2 ^ d))"
    unfolding u64_eq_iff by (simp only: unat_or_mask [OF assms(1)] i u)
  ultimately show ?thesis by (simp only: containing_range_def Let_def m)
qed

lemma containing_ranges_node:
  assumes "i < n" and "n \<le> 2 ^ 63"
  shows "containing_ranges (word_of_nat i) (word_of_nat n) =
    Ok (map (\<lambda>d. (r_from (node_range d (i div 2 ^ d)), r_to (node_range d (i div 2 ^ d)))) [0..<Suc (ceil_log2 n)])"
    and "ceil_log2 n \<le> 63"
proof -
  show D: "ceil_log2 n \<le> 63" using ceil_log2_le [OF assms(2)] .
  have n: "unat (word_of_nat n :: u64) = n" "unat (word_of_nat i :: u64) = i"
    using assms by (simp_all add: unat_of_nat_u64)
  have "unat (word_of_nat n :: u64) \<le> 2 ^ 63" using n(1) assms(2) by simp
  note p = checked_next_power_of_two_Some [OF this, unfolded n(1)]
  have "map (containing_range (word_of_nat i)) [0..<Suc (ceil_log2 n)] =
    map (\<lambda>d. (r_from (node_range d (i div 2 ^ d)), r_to (node_range d (i div 2 ^ d)))) [0..<Suc (ceil_log2 n)]"
    using D assms by (intro map_cong) (auto intro!: containing_range_node)
  moreover have "64 - leading_zeros (2 ^ ceil_log2 n) - 1 = ceil_log2 n"
    using leading_zeros_power [OF p(2)] D by simp
  ultimately show "containing_ranges (word_of_nat i) (word_of_nat n) =
    Ok (map (\<lambda>d. (r_from (node_range d (i div 2 ^ d)), r_to (node_range d (i div 2 ^ d)))) [0..<Suc (ceil_log2 n)])"
    using p(1) assms n by (simp add: containing_ranges_def word_le_nat_alt Let_def)
qed

text \<open>The middle of an inner range.\<close>

lemma node_range_mid:
  assumes "(k + 1) * 2 ^ Suc d \<le> 2 ^ 63"
  shows "(r_from (node_range (Suc d) k) + r_to (node_range (Suc d) k)) div 2 = r_to (node_range d (2 * k))"
    and "r_to (node_range d (2 * k)) + 1 = r_from (node_range d (2 * k + 1))"
    and "r_from (node_range (Suc d) k) = r_from (node_range d (2 * k))"
    and "r_to (node_range (Suc d) k) = r_to (node_range d (2 * k + 1))"
    and "r_from (node_range (Suc d) k) \<noteq> r_to (node_range (Suc d) k)"
proof -
  have p: "0 < (2 :: nat) ^ d" by simp
  have l: "(2 * k + 1) * 2 ^ d \<le> 2 ^ 63" and r: "(2 * k + 1 + 1) * 2 ^ d \<le> 2 ^ 63"
    using assms by (auto simp: algebra_simps)
  note u = unat_node_range [OF assms] and L = unat_node_range [OF l] and R = unat_node_range [OF r]
  show "r_to (node_range d (2 * k)) + 1 = r_from (node_range d (2 * k + 1))"
    unfolding u64_eq_iff using L(3) R(1) by simp
  show "r_from (node_range (Suc d) k) = r_from (node_range d (2 * k))"
    unfolding u64_eq_iff using L(1) u(1) by simp
  have s: "k * 2 ^ Suc d + (2 ^ Suc d - 1) = (2 * k + 1) * 2 ^ d + (2 ^ d - (1 :: nat))"
    using p by (cases "(2 :: nat) ^ d") (simp_all add: algebra_simps)
  then show "r_to (node_range (Suc d) k) = r_to (node_range d (2 * k + 1))"
    unfolding u64_eq_iff using R(2) u(2) by simp
  have p2: "2 \<le> (2 :: nat) ^ Suc d" using p by simp
  show "r_from (node_range (Suc d) k) \<noteq> r_to (node_range (Suc d) k)"
    unfolding u64_eq_iff u using p2 by linarith
  define m where "m = k * 2 ^ Suc d"
  define q where "q = (2 :: nat) ^ d"
  have q: "2 ^ Suc d = 2 * q" "0 < q" by (simp_all add: q_def)
  have b: "m + 2 * q \<le> 2 ^ 63" using assms by (simp add: m_def q_def algebra_simps)
  have "unat (r_from (node_range (Suc d) k) + r_to (node_range (Suc d) k)) = (m + (m + (2 * q - 1))) mod 2 ^ 64"
    by (simp only: unat_word_ariths(1) u m_def q) simp
  also have "\<dots> = m + (m + (2 * q - 1))"
  proof (rule mod_less)
    have "m + (m + (2 * q - 1)) < 2 * (m + 2 * q)" using q(2) by simp
    also have "\<dots> \<le> 2 * 2 ^ 63" using b by (rule mult_left_mono) simp
    also have "\<dots> = 2 ^ 64" by simp
    finally show "m + (m + (2 * q - 1)) < 2 ^ 64" .
  qed
  also have "\<dots> = 2 * (m + (q - 1)) + 1" using q(2) by simp
  finally have "unat ((r_from (node_range (Suc d) k) + r_to (node_range (Suc d) k)) div 2) = m + (q - 1)"
    by (simp add: unat_div)
  then show "(r_from (node_range (Suc d) k) + r_to (node_range (Suc d) k)) div 2 = r_to (node_range d (2 * k))"
    unfolding u64_eq_iff L(2) by (simp add: m_def q_def)
qed

lemma node_range_inject:
  assumes "(k + 1) * 2 ^ d \<le> 2 ^ 63" and "(k' + 1) * 2 ^ d' \<le> 2 ^ 63"
  shows "node_range d k = node_range d' k' \<longleftrightarrow> d = d' \<and> k = k'"
proof
  assume e: "node_range d k = node_range d' k'"
  then have "(2 :: nat) ^ d = 2 ^ d'"
    using range_len_node [OF assms(1)] range_len_node [OF assms(2)] by metis
  then have d: "d = d'" by (simp add: power_inject_exp)
  have "k * 2 ^ d = k' * 2 ^ d'"
    using e unat_node_range(1) [OF assms(1)] unat_node_range(1) [OF assms(2)] by metis
  with d show "d = d' \<and> k = k'" by simp
qed simp

lemma node_block_bound:
  assumes "k * 2 ^ d < n" and "d \<le> ceil_log2 n" and "n \<le> 2 ^ 63"
  shows "(k + 1) * 2 ^ d \<le> (2 :: nat) ^ 63"
proof -
  have D: "(2 :: nat) ^ ceil_log2 n = 2 ^ (ceil_log2 n - d) * 2 ^ d" using assms(2) by (simp flip: power_add)
  have "k * 2 ^ d < 2 ^ ceil_log2 n" using assms(1) ceil_log2_bounds(1) [of n] by linarith
  then have "k < 2 ^ (ceil_log2 n - d)" unfolding D by simp
  then have "(k + 1) * 2 ^ d \<le> 2 ^ ceil_log2 n" unfolding D by (intro mult_right_mono) auto
  also have "\<dots> \<le> 2 ^ 63" using ceil_log2_le [OF assms(3)] by (intro power_increasing) auto
  finally show ?thesis .
qed

lemma get_merkle_hash_rep:
  assumes "merkle_hashes s (range_to_key_bytes (node_range d k)) = Some (merkle_hash E xs d k)" and "blake_ok E"
  shows "get_merkle_hash s (node_range d k) = Ok (merkle_hash E xs d k)"
  using assms merkle_hash_is_hash [OF assms(2), of xs d k] by (simp add: get_merkle_hash_def lm_get_def is_hash_def)

subsection \<open>Appending an output\<close>

text \<open>
  The loop of \<^verbatim>\<open>update_merkle_hashes\<close> for the output appended at index \<open>n\<close> works from the leaf to
  the root. Before level \<open>d\<close> every subtree of the new tree has its hash, except those from
  level \<open>d\<close> on that contain the new leaf.
\<close>

definition levels_done :: "'out txo_env \<Rightarrow> 'out list \<Rightarrow> nat \<Rightarrow> nat \<Rightarrow> database \<Rightarrow> bool" where
  "levels_done E xs n d db \<longleftrightarrow>
     (\<forall>d' k'. d' < d \<or> k' \<noteq> n div 2 ^ d' \<longrightarrow> d' \<le> ceil_log2 (length xs) \<longrightarrow> k' * 2 ^ d' < length xs \<longrightarrow>
        db (range_to_key_bytes (node_range d' k')) = Some (merkle_hash E xs d' k'))"

lemma levels_doneD:
  "levels_done E xs n d db \<Longrightarrow> d' < d \<or> k' \<noteq> n div 2 ^ d' \<Longrightarrow> d' \<le> ceil_log2 (length xs) \<Longrightarrow>
   k' * 2 ^ d' < length xs \<Longrightarrow> db (range_to_key_bytes (node_range d' k')) = Some (merkle_hash E xs d' k')"
  unfolding levels_done_def by blast

lemma levels_done_start:
  assumes "merkle_rep E xs db"
  shows "levels_done E (xs @ [x]) (length xs) 0 db"
  unfolding levels_done_def
proof (intro allI impI)
  fix d' k'
  assume k': "d' < 0 \<or> k' \<noteq> length xs div 2 ^ d'" and "k' * 2 ^ d' < length (xs @ [x])"
  then have "k' \<le> length xs div 2 ^ d'" by (simp add: less_eq_div_iff_mult_less_eq)
  with k' have "k' + 1 \<le> length xs div 2 ^ d'" by simp
  then have full: "(k' + 1) * 2 ^ d' \<le> length xs" by (simp add: less_eq_div_iff_mult_less_eq)
  moreover have "1 * 2 ^ d' \<le> (k' + 1) * 2 ^ d'" by (rule mult_right_mono) auto
  ultimately have "2 ^ d' \<le> (2 :: nat) ^ ceil_log2 (length xs)"
    using ceil_log2_bounds(1) [of "length xs"] by linarith
  then have "d' \<le> ceil_log2 (length xs)" by simp
  moreover have "k' * 2 ^ d' < length xs"
  proof -
    have "k' * 2 ^ d' < (k' + 1) * 2 ^ d'" by simp
    also note full
    finally show ?thesis .
  qed
  ultimately show "db (range_to_key_bytes (node_range d' k')) = Some (merkle_hash E (xs @ [x]) d' k')"
    using assms merkle_hash_full [OF full, of E "[x]"] by (simp add: merkle_rep_def)
qed

lemma levels_done_write:
  assumes "levels_done E xs n d db" and "n < length xs" and "length xs \<le> 2 ^ 63" and "d \<le> ceil_log2 (length xs)"
  shows "levels_done E xs n (Suc d)
    (db(range_to_key_bytes (node_range d (n div 2 ^ d)) \<mapsto> merkle_hash E xs d (n div 2 ^ d)))"
  unfolding levels_done_def
proof (intro allI impI)
  fix d' k'
  assume c: "d' < Suc d \<or> k' \<noteq> n div 2 ^ d'" and d': "d' \<le> ceil_log2 (length xs)" and k': "k' * 2 ^ d' < length xs"
  have "n div 2 ^ d * 2 ^ d \<le> n" by (rule div_times_less_eq_dividend)
  then have n: "n div 2 ^ d * 2 ^ d < length xs" using assms(2) by linarith
  note inj = node_range_inject [OF node_block_bound [OF k' d' assms(3)] node_block_bound [OF n assms(4,3)]]
  show "(db(range_to_key_bytes (node_range d (n div 2 ^ d)) \<mapsto> merkle_hash E xs d (n div 2 ^ d)))
    (range_to_key_bytes (node_range d' k')) = Some (merkle_hash E xs d' k')"
  proof (cases "d' = d \<and> k' = n div 2 ^ d")
    case False
    with c have "d' < d \<or> k' \<noteq> n div 2 ^ d'" by (metis less_SucE)
    from levels_doneD [OF assms(1) this d' k'] False inj show ?thesis by simp
  qed simp
qed

lemma update_merkle_node_level:
  assumes E: "env_ok E" and lv: "levels_done E xs n d (merkle_hashes s)"
    and n: "n < length xs" "length xs = Suc n" and len: "length xs \<le> 2 ^ 63" and d: "d \<le> ceil_log2 (length xs)"
    and leaf: "tx_out_by_index s (u64_to_key_bytes (word_of_nat n)) = Some (encode E (xs ! n))"
  shows "update_merkle_node E (word_of_nat n) (word_of_nat (length xs)) s
      (r_from (node_range d (n div 2 ^ d)), r_to (node_range d (n div 2 ^ d)))
    = Ok (write_merkle_hash (node_range d (n div 2 ^ d)) (merkle_hash E xs d (n div 2 ^ d)) s)"
proof (cases d)
  case 0
  have r: "r_from (node_range 0 n) = r_to (node_range 0 n)" by (simp add: node_range_def)
  have "ledger_range (r_from (node_range 0 n)) (r_from (node_range 0 n)) = Ok (node_range 0 n)"
    using ledger_range_node [of n 0] n len r by simp
  with 0 r leaf E n show ?thesis
    by (simp add: update_merkle_node_def get_tx_out_by_index_def lm_get_def env_ok_def)
next
  case (Suc e)
  let ?k = "n div 2 ^ Suc e"
  have le: "?k * 2 ^ Suc e \<le> n" by (rule div_times_less_eq_dividend)
  then have k: "?k * 2 ^ Suc e < length xs" using n by linarith
  have b: "(?k + 1) * 2 ^ Suc e \<le> 2 ^ 63"
    using node_block_bound [OF k _ len] d Suc by simp
  note m = node_range_mid [OF b]
  have bl: "(2 * ?k + 1) * 2 ^ e \<le> 2 ^ 63" and br: "(2 * ?k + 1 + 1) * 2 ^ e \<le> 2 ^ 63"
    using b by (auto simp: algebra_simps)
  have "merkle_hashes s (range_to_key_bytes (node_range e (2 * ?k))) = Some (merkle_hash E xs e (2 * ?k))"
    using levels_doneD [OF lv, of e "2 * ?k"] Suc d k by (simp add: mult.assoc mult.left_commute)
  with E have left: "get_merkle_hash s (node_range e (2 * ?k)) = Ok (merkle_hash E xs e (2 * ?k))"
    by (intro get_merkle_hash_rep) (auto simp: env_ok_def)
  have right: "(if word_of_nat (length xs) \<le> r_from (node_range e (2 * ?k + 1)) then Ok (hash_nil E)
      else and_then (ledger_range (r_from (node_range e (2 * ?k + 1))) (r_to (node_range e (2 * ?k + 1))))
        (get_merkle_hash s)) = Ok (merkle_hash E xs e (2 * ?k + 1))"
  proof (cases "length xs \<le> (2 * ?k + 1) * 2 ^ e")
    case True
    then have "word_of_nat (length xs) \<le> r_from (node_range e (2 * ?k + 1))"
      using unat_node_range(1) [OF br] len by (simp add: word_le_nat_alt unat_of_nat_u64)
    with merkle_hash_nil [OF True, of E] show ?thesis by simp
  next
    case False
    then have "\<not> word_of_nat (length xs) \<le> r_from (node_range e (2 * ?k + 1))"
      using unat_node_range(1) [OF br] len by (simp add: word_le_nat_alt unat_of_nat_u64)
    moreover have "merkle_hashes s (range_to_key_bytes (node_range e (2 * ?k + 1))) = Some (merkle_hash E xs e (2 * ?k + 1))"
      using levels_doneD [OF lv, of e "2 * ?k + 1"] Suc d False by simp
    then have "get_merkle_hash s (node_range e (2 * ?k + 1)) = Ok (merkle_hash E xs e (2 * ?k + 1))"
      using E by (intro get_merkle_hash_rep) (auto simp: env_ok_def)
    ultimately show ?thesis using ledger_range_node [OF br] by simp
  qed
  have "update_merkle_node E (word_of_nat n) (word_of_nat (length xs)) s
      (r_from (node_range (Suc e) ?k), r_to (node_range (Suc e) ?k)) =
    and_then (and_then (ledger_range (r_from (node_range e (2 * ?k))) (r_to (node_range e (2 * ?k)))) (get_merkle_hash s))
      (\<lambda>l. and_then (Ok (merkle_hash E xs e (2 * ?k + 1)))
      (\<lambda>r. and_then (ledger_range (r_from (node_range (Suc e) ?k)) (r_to (node_range (Suc e) ?k)))
      (\<lambda>rg. Ok (write_merkle_hash rg (hash_nodes E l r) s))))"
    unfolding update_merkle_node_def Let_def prod.case m(1,2) right [symmetric]
    using m(3,4,5) by simp
  also have "\<dots> = Ok (write_merkle_hash (node_range (Suc e) ?k) (merkle_hash E xs (Suc e) ?k) s)"
    using ledger_range_node [OF bl] ledger_range_node [OF b] left k by simp
  finally show ?thesis using Suc by simp
qed

lemma update_merkle_hashes_rep:
  assumes E: "env_ok E" and rep: "merkle_rep E xs (merkle_hashes s)" and len: "length (xs @ [x]) \<le> 2 ^ 63"
    and num: "counts s NUM_TX_OUTS_KEY = Some (u64_to_key_bytes (word_of_nat (length (xs @ [x]))))"
    and leaf: "tx_out_by_index s (u64_to_key_bytes (word_of_nat (length xs))) = Some (encode E x)"
  shows "\<exists>db. update_merkle_hashes E (word_of_nat (length xs)) s = Ok (s\<lparr>merkle_hashes := db\<rparr>) \<and>
    merkle_rep E (xs @ [x]) db"
proof -
  let ?ys = "xs @ [x]" and ?n = "length xs"
  let ?R = "\<lambda>d. (r_from (node_range d (?n div 2 ^ d)), r_to (node_range d (?n div 2 ^ d)))"
  let ?I = "\<lambda>d t. \<exists>db. t = s\<lparr>merkle_hashes := db\<rparr> \<and> levels_done E ?ys ?n d db"
  have n: "num_tx_outs s = Ok (word_of_nat (length ?ys))"
    using num by (simp add: num_tx_outs_def lm_get_def)
  have lt: "\<not> (word_of_nat ?n :: u64) \<ge> word_of_nat (length ?ys)"
    using len unat_of_nat_u64 [of ?n] unat_of_nat_u64 [of "Suc ?n"] by (simp add: word_le_nat_alt)
  note c = containing_ranges_node [of ?n "length ?ys", OF _ len]
  have "\<exists>t. try_fold (update_merkle_node E (word_of_nat ?n) (word_of_nat (length ?ys))) s
      (map ?R [0..<Suc (ceil_log2 (length ?ys))]) = Ok t \<and> ?I (length (map ?R [0..<Suc (ceil_log2 (length ?ys))])) t"
  proof (rule try_fold_inv)
    show "?I 0 s" using levels_done_start [OF rep] by (intro exI [of _ "merkle_hashes s"]) simp
    fix d t
    assume d: "d < length (map ?R [0..<Suc (ceil_log2 (length ?ys))])" and "?I d t"
    then obtain db where t: "t = s\<lparr>merkle_hashes := db\<rparr>" and lv: "levels_done E ?ys ?n d db" by blast
    have D: "d \<le> ceil_log2 (length ?ys)" using d by simp
    have "tx_out_by_index t (u64_to_key_bytes (word_of_nat ?n)) = Some (encode E (?ys ! ?n))" using leaf t by simp
    from update_merkle_node_level [OF E _ _ _ len D this] lv t
    have "update_merkle_node E (word_of_nat ?n) (word_of_nat (length ?ys)) t (?R d)
      = Ok (write_merkle_hash (node_range d (?n div 2 ^ d)) (merkle_hash E ?ys d (?n div 2 ^ d)) t)" by simp
    moreover have "map ?R [0..<Suc (ceil_log2 (length ?ys))] ! d = ?R d" using d by (simp del: upt_Suc)
    moreover have "?I (Suc d) (write_merkle_hash (node_range d (?n div 2 ^ d)) (merkle_hash E ?ys d (?n div 2 ^ d)) t)"
      using levels_done_write [OF lv _ len D] by (auto simp: write_merkle_hash_def lm_put_def t)
    ultimately show "\<exists>u. update_merkle_node E (word_of_nat ?n) (word_of_nat (length ?ys)) t
        (map ?R [0..<Suc (ceil_log2 (length ?ys))] ! d) = Ok u \<and> ?I (Suc d) u" by simp
  qed
  then obtain db where f: "try_fold (update_merkle_node E (word_of_nat ?n) (word_of_nat (length ?ys))) s
      (map ?R [0..<Suc (ceil_log2 (length ?ys))]) = Ok (s\<lparr>merkle_hashes := db\<rparr>)"
    and lv: "levels_done E ?ys ?n (Suc (ceil_log2 (length ?ys))) db" by (auto simp del: upt_Suc)
  have "merkle_rep E ?ys db"
    unfolding merkle_rep_def using levels_doneD [OF lv] by (simp add: less_Suc_eq_le)
  with f n lt c show ?thesis by (auto simp: update_merkle_hashes_def simp del: upt_Suc)
qed

lemma push_rep:
  assumes E: "env_ok E" and rep: "store_rep E xs s" and len: "length xs < 2 ^ 63"
    and new: "tx_out_hash E x \<notin> set (map (tx_out_hash E) xs)" "public_key E x \<notin> set (map (public_key E) xs)"
  shows "\<exists>s'. tx_out_store_push E s x = Ok (word_of_nat (length xs), s') \<and> store_rep E (xs @ [x]) s'"
proof -
  let ?n = "word_of_nat (length xs) :: u64" and ?ys = "xs @ [x]"
  note n = store_rep_num [OF rep]
  have suc: "?n + 1 = word_of_nat (length ?ys)" by simp
  let ?s = "s\<lparr>counts := lm_put (counts s) NUM_TX_OUTS_KEY (u64_to_key_bytes (?n + 1)),
      tx_out_index_by_hash := index_map (tx_out_hash E) ?ys,
      tx_out_index_by_public_key := index_map (public_key E) ?ys,
      tx_out_by_index := (tx_out_by_index s)(u64_to_key_bytes ?n \<mapsto> encode E x)\<rparr>"
  have r: "distinct (map (tx_out_hash E) xs)" "distinct (map (public_key E) xs)"
    "\<forall>i. tx_out_by_index s (u64_to_key_bytes i) = (if unat i < length xs then Some (encode E (xs ! unat i)) else None)"
    "tx_out_index_by_hash s = index_map (tx_out_hash E) xs"
    "tx_out_index_by_public_key s = index_map (public_key E) xs" "merkle_rep E xs (merkle_hashes s)"
    using rep by (auto simp: store_rep_def)
  obtain db where db: "update_merkle_hashes E ?n ?s = Ok (?s\<lparr>merkle_hashes := db\<rparr>)" "merkle_rep E ?ys db"
    using update_merkle_hashes_rep [OF E, of xs ?s x] r(6) len suc by (auto simp: lm_put_def)
  have "lm_put_new (index_map (tx_out_hash E) xs) (tx_out_hash E x) (u64_to_key_bytes ?n) = Ok (index_map (tx_out_hash E) ?ys)"
    "lm_put_new (index_map (public_key E) xs) (public_key E x) (u64_to_key_bytes ?n) = Ok (index_map (public_key E) ?ys)"
    using new by (auto simp: lm_put_new_def index_map_eq_None index_map_append)
  moreover have "lm_put_new (tx_out_by_index s) (u64_to_key_bytes ?n) (encode E x) =
      Ok ((tx_out_by_index s)(u64_to_key_bytes ?n \<mapsto> encode E x))"
    using r(3) n(2) by (simp add: lm_put_new_def)
  ultimately have "tx_out_store_push E s x = Ok (?n, ?s\<lparr>merkle_hashes := db\<rparr>)"
    using n(1) r(4,5) db(1) by (simp add: tx_out_store_push_def Let_def)
  moreover have "store_rep E ?ys (?s\<lparr>merkle_hashes := db\<rparr>)"
  proof -
    have "((tx_out_by_index s)(u64_to_key_bytes ?n \<mapsto> encode E x)) (u64_to_key_bytes i)
      = (if unat i < length ?ys then Some (encode E (?ys ! unat i)) else None)" for i :: u64
    proof (cases "i = ?n")
      case True
      with n(2) show ?thesis by (simp add: nth_append)
    next
      case False
      then have "unat i \<noteq> length xs" using n(2) by (metis u64_eq_iff)
      with False r(3) show ?thesis by (simp add: nth_append)
    qed
    then show ?thesis using r(1,2) new len db(2) suc
      by (simp add: store_rep_def lm_put_def del: fun_upd_apply) simp
  qed
  ultimately show ?thesis by blast
qed

subsection \<open>Reading the tree\<close>

lemma root_rep:
  assumes "env_ok E" and rep: "store_rep E xs s"
  shows "get_root_merkle_hash E s = Ok (merkle_root E xs)"
proof (cases "xs = []")
  case True
  then show ?thesis using store_rep_num [OF rep] by (simp add: get_root_merkle_hash_def merkle_root_def merkle_hash_nil)
next
  case False
  let ?D = "ceil_log2 (length xs)"
  note n = store_rep_num [OF rep]
  have len: "length xs \<le> 2 ^ 63" using rep by (simp add: store_rep_def)
  have "unat (word_of_nat (length xs) :: u64) \<le> 2 ^ 63" using n(2) len by simp
  note p = checked_next_power_of_two_Some [OF this, unfolded n(2)]
  have z: "word_of_nat (length xs) \<noteq> (0 :: u64)" using n(2) False by (metis length_0_conv unat_0)
  have b: "(0 + 1) * 2 ^ ?D \<le> (2 :: nat) ^ 63" using node_block_bound [of 0 ?D "length xs"] False len by simp
  have r: "r_from (node_range ?D 0) = 0" "r_to (node_range ?D 0) = 2 ^ ?D - 1"
    by (simp_all add: node_range_def of_nat_diff)
  have "merkle_hashes s (range_to_key_bytes (node_range ?D 0)) = Some (merkle_hash E xs ?D 0)"
    using rep False by (simp add: store_rep_def merkle_rep_def)
  then have "get_merkle_hash s (node_range ?D 0) = Ok (merkle_root E xs)"
    using assms(1) by (simp add: get_merkle_hash_rep env_ok_def merkle_root_def)
  with n(1) z p(1) ledger_range_node [OF b] r show ?thesis by (simp add: get_root_merkle_hash_def)
qed

lemma ranges_for_proof_path:
  assumes "i < n" and "n \<le> 2 ^ 63"
  shows "ranges_for_proof (word_of_nat i)
      (map (\<lambda>d. (r_from (node_range d (i div 2 ^ d)), r_to (node_range d (i div 2 ^ d)))) [0..<Suc (ceil_log2 n)])
    = (r_from (node_range 0 i), r_to (node_range 0 i)) #
      map (\<lambda>d. (r_from (node_range d (sibling (i div 2 ^ d))), r_to (node_range d (sibling (i div 2 ^ d))))) [0..<ceil_log2 n]"
proof -
  let ?D = "ceil_log2 n"
  have iD: "i < 2 ^ ?D" using assms(1) ceil_log2_bounds(1) [of n] by linarith
  have D: "?D \<le> 63" using ceil_log2_le [OF assms(2)] .
  have i: "unat (word_of_nat i :: u64) = i" using assms by (simp add: unat_of_nat_u64)
  let ?f = "\<lambda>(low, high). let mid = (low + high) div 2 in if word_of_nat i \<le> mid then (mid + 1, high) else (low, mid)"
  have "?f (r_from (node_range (Suc d) (i div 2 ^ Suc d)), r_to (node_range (Suc d) (i div 2 ^ Suc d)))
    = (r_from (node_range d (sibling (i div 2 ^ d))), r_to (node_range d (sibling (i div 2 ^ d))))" if d: "d < ?D" for d
  proof -
    let ?k = "i div 2 ^ Suc d"
    have b: "(?k + 1) * 2 ^ Suc d \<le> 2 ^ 63" using d iD D by (intro path_block_bound [of i ?D]) auto
    note m = node_range_mid [OF b]
    have bl: "(2 * ?k + 1) * 2 ^ d \<le> 2 ^ 63" using b by (auto simp: algebra_simps)
    have to: "unat (r_to (node_range d (2 * ?k))) + 1 = (2 * ?k + 1) * 2 ^ d"
      using unat_node_range(2) [OF bl] by (simp add: algebra_simps)
    have "word_of_nat i \<le> r_to (node_range d (2 * ?k)) \<longleftrightarrow> i < (2 * ?k + 1) * 2 ^ d"
      using to i by (simp add: word_le_nat_alt) linarith
    also have "\<dots> \<longleftrightarrow> i div 2 ^ d < 2 * ?k + 1" by (simp add: div_less_iff_less_mult)
    also have "\<dots> \<longleftrightarrow> even (i div 2 ^ d)"
      unfolding div_Suc_power by (cases "even (i div 2 ^ d)") (auto elim!: evenE oddE)
    finally have le: "word_of_nat i \<le> r_to (node_range d (2 * ?k)) \<longleftrightarrow> even (i div 2 ^ d)" .
    have "sibling (i div 2 ^ d) = (if even (i div 2 ^ d) then 2 * ?k + 1 else 2 * ?k)"
      unfolding div_Suc_power sibling_def by (auto elim!: oddE)
    with le m show ?thesis by (simp add: Let_def)
  qed
  then have "map (?f \<circ> (\<lambda>d. (r_from (node_range d (i div 2 ^ d)), r_to (node_range d (i div 2 ^ d)))) \<circ> Suc) [0..<?D] =
    map (\<lambda>d. (r_from (node_range d (sibling (i div 2 ^ d))), r_to (node_range d (sibling (i div 2 ^ d))))) [0..<?D]"
    by (intro map_cong) auto
  moreover have "drop 1 (map g [0..<Suc ?D]) = map (g \<circ> Suc) [0..<?D]" for g :: "nat \<Rightarrow> u64 \<times> u64"
    by (simp add: upt_conv_Cons map_Suc_upt [symmetric] del: upt_Suc)
  ultimately show ?thesis
    by (simp add: ranges_for_proof_def node_range_def comp_assoc del: upt_Suc)
qed

lemma proof_element_rep:
  assumes "env_ok E" and rep: "store_rep E xs s" and "(k + 1) * 2 ^ d \<le> 2 ^ 63" and "d \<le> ceil_log2 (length xs)"
  shows "proof_element E s (word_of_nat (length xs)) (r_from (node_range d k), r_to (node_range d k))
    = Ok (tree_element E xs d k)"
proof -
  have "(if word_of_nat (length xs) \<le> r_from (node_range d k) then Ok (hash_nil E) else get_merkle_hash s (node_range d k))
    = Ok (merkle_hash E xs d k)"
  proof (cases "length xs \<le> k * 2 ^ d")
    case True
    then show ?thesis
      using unat_node_range(1) [OF assms(3)] store_rep_num(2) [OF rep] merkle_hash_nil [OF True, of E]
      by (simp add: word_le_nat_alt)
  next
    case False
    then have "merkle_hashes s (range_to_key_bytes (node_range d k)) = Some (merkle_hash E xs d k)"
      using rep assms(4) by (simp add: store_rep_def merkle_rep_def)
    with assms(1) have "get_merkle_hash s (node_range d k) = Ok (merkle_hash E xs d k)"
      by (simp add: get_merkle_hash_rep env_ok_def)
    with False show ?thesis
      using unat_node_range(1) [OF assms(3)] store_rep_num(2) [OF rep] by (simp add: word_le_nat_alt)
  qed
  then show ?thesis
    using ledger_range_node [OF assms(3)] by (simp add: proof_element_def tree_element_def)
qed

lemma membership_rep:
  assumes E: "env_ok E" and rep: "store_rep E xs s" and i: "i < length xs"
  shows "get_merkle_proof_of_membership E s (word_of_nat i) =
    Ok \<lparr>mp_index = word_of_nat i, mp_highest_index = word_of_nat (length xs - 1),
        mp_elements = path_elements E xs i (ceil_log2 (length xs))\<rparr>"
proof -
  let ?n = "length xs" and ?D = "ceil_log2 (length xs)"
  note n = store_rep_num [OF rep]
  have len: "?n \<le> 2 ^ 63" using rep by (simp add: store_rep_def)
  have iD: "i < 2 ^ ?D" using i ceil_log2_bounds(1) [of ?n] by linarith
  have lt: "\<not> (word_of_nat i :: u64) \<ge> word_of_nat ?n"
    using n(2) unat_of_nat_u64 [of i] i len by (simp add: word_le_nat_alt)
  note c = containing_ranges_node [OF i len]
  have "try_map (proof_element E s (word_of_nat ?n))
      (map (\<lambda>(d, k). (r_from (node_range d k), r_to (node_range d k)))
        ((0, i) # map (\<lambda>d. (d, sibling (i div 2 ^ d))) [0..<?D]))
    = Ok (map (\<lambda>(d, k). tree_element E xs d k) ((0, i) # map (\<lambda>d. (d, sibling (i div 2 ^ d))) [0..<?D]))"
  proof -
    have "list_all2 (\<lambda>r e. proof_element E s (word_of_nat ?n) r = Ok e)
        (map (\<lambda>(d, k). (r_from (node_range d k), r_to (node_range d k))) ps)
        (map (\<lambda>(d, k). tree_element E xs d k) ps)"
      if "list_all (\<lambda>(d, k). (k + 1) * 2 ^ d \<le> 2 ^ 63 \<and> d \<le> ?D) ps" for ps
      using that by (induction ps) (auto intro: proof_element_rep [OF E rep])
    moreover have "list_all (\<lambda>(d, k). (k + 1) * 2 ^ d \<le> 2 ^ 63 \<and> d \<le> ?D)
        ((0, i) # map (\<lambda>d. (d, sibling (i div 2 ^ d))) [0..<?D])"
      using sibling_block_bound [OF iD _ c(2)] i len by (auto simp: list_all_iff)
    ultimately show ?thesis unfolding try_map_eq_Ok by blast
  qed
  then have "try_map (proof_element E s (word_of_nat ?n))
      (ranges_for_proof (word_of_nat i)
        (map (\<lambda>d. (r_from (node_range d (i div 2 ^ d)), r_to (node_range d (i div 2 ^ d)))) [0..<Suc ?D]))
    = Ok (path_elements E xs i ?D)"
    unfolding ranges_for_proof_path [OF i len] by (simp add: path_elements_def comp_def)
  moreover have "word_of_nat ?n - 1 = (word_of_nat (?n - 1) :: u64)" using i by (simp add: of_nat_diff)
  ultimately show ?thesis
    using n(1) lt c(1) by (simp add: get_merkle_proof_of_membership_def del: upt_Suc)
qed

subsection \<open>Histories of the store\<close>

text \<open>Appending a list of outputs to the empty store, as the ledger does block by block.\<close>

definition push_all :: "'out txo_env \<Rightarrow> 'out list \<Rightarrow> tx_out_store ledger" where
  "push_all E xs =
     try_fold (\<lambda>s x. and_then (tx_out_store_push E s x) (\<lambda>(_, s). Ok s)) tx_out_store_create xs"

lemma push_full:
  assumes "store_rep E xs s" and "length xs = 2 ^ 63"
    and "tx_out_hash E x \<notin> set (map (tx_out_hash E) xs)" "public_key E x \<notin> set (map (public_key E) xs)"
  shows "tx_out_store_push E s x = Err CapacityExceeded"
proof -
  let ?n = "word_of_nat (length xs) :: u64"
  note n = store_rep_num [OF assms(1)]
  have r: "\<forall>i. tx_out_by_index s (u64_to_key_bytes i) = (if unat i < length xs then Some (encode E (xs ! unat i)) else None)"
    "tx_out_index_by_hash s = index_map (tx_out_hash E) xs"
    "tx_out_index_by_public_key s = index_map (public_key E) xs"
    using assms(1) by (auto simp: store_rep_def)
  have "unat (?n + 1) = 2 ^ 63 + 1"
    using unat_of_nat_u64 [of "2 ^ 63 + 1"] assms(2) by (simp add: add.commute)
  then have "checked_next_power_of_two (?n + 1) = None" "\<not> ?n + 1 \<le> ?n"
    using n(2) assms(2) by (simp_all add: checked_next_power_of_two_None word_le_nat_alt)
  with r n assms(3,4) show ?thesis
    by (simp add: tx_out_store_push_def Let_def lm_put_new_def index_map_eq_None update_merkle_hashes_def
        num_tx_outs_def lm_get_def lm_put_def containing_ranges_def)
qed

lemma push_duplicate:
  assumes "store_rep E xs s"
    and "tx_out_hash E x \<in> set (map (tx_out_hash E) xs) \<or> public_key E x \<in> set (map (public_key E) xs)"
  shows "tx_out_store_push E s x = Err (Lmdb KeyExist)"
proof -
  have r: "tx_out_index_by_hash s = index_map (tx_out_hash E) xs"
    "tx_out_index_by_public_key s = index_map (public_key E) xs"
    using assms(1) by (auto simp: store_rep_def)
  show ?thesis
  proof (cases "tx_out_hash E x \<in> set (map (tx_out_hash E) xs)")
    case True
    then have "index_map (tx_out_hash E) xs (tx_out_hash E x) \<noteq> None" by (simp only: index_map_eq_None not_not)
    with r store_rep_num [OF assms(1)] show ?thesis by (simp add: tx_out_store_push_def Let_def lm_put_new_def)
  next
    case False
    then have "index_map (tx_out_hash E) xs (tx_out_hash E x) = None"
      "index_map (public_key E) xs (public_key E x) \<noteq> None"
      using assms(2) by (simp_all only: index_map_eq_None not_not simp_thms)
    with r store_rep_num [OF assms(1)] show ?thesis by (simp add: tx_out_store_push_def Let_def lm_put_new_def)
  qed
qed

lemma push_Ok:
  assumes E: "env_ok E" and rep: "store_rep E xs s" and p: "tx_out_store_push E s x = Ok (i, s')"
  shows "i = word_of_nat (length xs)" and "store_rep E (xs @ [x]) s'"
proof -
  have new: "tx_out_hash E x \<notin> set (map (tx_out_hash E) xs)" "public_key E x \<notin> set (map (public_key E) xs)"
    using push_duplicate [OF rep, of x] p by auto
  have "length xs \<le> 2 ^ 63" using rep by (simp add: store_rep_def)
  moreover have "length xs \<noteq> 2 ^ 63" using push_full [OF rep _ new] p by auto
  ultimately have "length xs < 2 ^ 63" by linarith
  from push_rep [OF E rep this new] p show "i = word_of_nat (length xs)" "store_rep E (xs @ [x]) s'" by auto
qed

lemma push_all_rep:
  assumes E: "env_ok E" and "push_all E xs = Ok s"
  shows "store_rep E xs s"
  using assms(2)
proof (induction xs arbitrary: s rule: rev_induct)
  case Nil
  then show ?case using store_rep_create by (simp add: push_all_def)
next
  case (snoc x xs)
  from snoc.prems obtain s1 i where s1: "push_all E xs = Ok s1" and p: "tx_out_store_push E s1 x = Ok (i, s)"
    by (auto simp: push_all_def try_fold_append and_then_eq_Ok)
  from push_Ok(2) [OF E snoc.IH [OF s1] p] show ?case .
qed

lemma push_all_returns:
  assumes E: "env_ok E" and "length xs \<le> 2 ^ 63" and "distinct (map (tx_out_hash E) xs)" and "distinct (map (public_key E) xs)"
  shows "\<exists>s. push_all E xs = Ok s"
  using assms(2-4)
proof (induction xs rule: rev_induct)
  case Nil
  then show ?case by (simp add: push_all_def)
next
  case (snoc x xs)
  then obtain s where s: "push_all E xs = Ok s" by auto
  have "\<exists>s'. tx_out_store_push E s x = Ok (word_of_nat (length xs), s')"
    using push_rep [OF E push_all_rep [OF E s], of x] snoc.prems by auto
  with s show ?case by (auto simp: push_all_def try_fold_append)
qed

end
