(* ===== verification/Ledger_Keyed.thy ===== *)
theory Ledger_Keyed
  imports Ledger_TxOut_Store
begin

section \<open>Databases with structured keys\<close>

text \<open>
  The databases of the ledger are keyed by indices, by nonces with a token id, and by key images, each written as bytes
  by a function that loses nothing. The locale states what the reads and the two kinds of writes of LMDB do to the map
  such a database holds; it is interpreted for each kind of key. \<open>log_of\<close> is the map from the index of a
  block to a part of the block.
\<close>

definition holds :: "('k \<Rightarrow> bytes) \<Rightarrow> database \<Rightarrow> ('k \<rightharpoonup> bytes) \<Rightarrow> bool" where
  "holds key db m \<longleftrightarrow> (\<forall>k. db (key k) = m k)"

locale keyed_db =
  fixes key :: "'k \<Rightarrow> bytes"
  assumes key_inject: "key a = key b \<Longrightarrow> a = b"
begin

lemma holds_get: "holds key db m \<Longrightarrow> db (key k) = m k"
  by (simp add: holds_def)

lemma holds_empty: "holds key Map.empty Map.empty"
  by (simp add: holds_def)

lemma holds_put: "holds key db m \<Longrightarrow> holds key (lm_put db (key k) v) (m(k \<mapsto> v))"
  using key_inject by (auto simp: holds_def lm_put_def)

lemma holds_put_new:
  assumes "holds key db m" and "lm_put_new db (key k) v = Ok db'"
  shows "m k = None" and "holds key db' (m(k \<mapsto> v))"
proof -
  have "db (key k) = None" and db': "db' = lm_put db (key k) v"
    using assms(2) by (auto simp: lm_put_new_def lm_put_def split: if_split_asm)
  with holds_get [OF assms(1), of k] show "m k = None" by simp
  show "holds key db' (m(k \<mapsto> v))" unfolding db' by (rule holds_put [OF assms(1)])
qed

lemma put_new_free: "holds key db m \<Longrightarrow> m k = None \<Longrightarrow> \<exists>db'. lm_put_new db (key k) v = Ok db'"
  using holds_get [of db m k] by (simp add: lm_put_new_def)

end

interpretation index_db: keyed_db u64_to_key_bytes
  by unfold_locales simp

definition nonce_key :: "bytes \<times> u64 \<Rightarrow> bytes" where
  "nonce_key p = fst p @ u64_to_key_bytes (snd p)"

interpretation nonce_db: keyed_db nonce_key
  by unfold_locales (auto simp: nonce_key_def prod_eq_iff)

interpretation raw_db: keyed_db "\<lambda>k :: bytes. k"
  by unfold_locales simp

subsection \<open>Maps from block indices\<close>

definition log_of :: "('b \<Rightarrow> bytes option) \<Rightarrow> 'b list \<Rightarrow> u64 \<rightharpoonup> bytes" where
  "log_of f hist i = (if unat i < length hist then f (hist ! unat i) else None)"

lemma log_of_Nil [simp]: "log_of f [] = Map.empty"
  by (auto simp: log_of_def)

lemma log_of_nth: "i < length hist \<Longrightarrow> length hist \<le> 2 ^ 64 \<Longrightarrow> log_of f hist (word_of_nat i) = f (hist ! i)"
  by (simp add: log_of_def unat_of_nat_u64)

lemma log_of_next:
  assumes "length hist < 2 ^ 64"
  shows "log_of f hist (word_of_nat (length hist)) = None"
  using unat_of_nat_u64 [OF assms] by (simp add: log_of_def)

lemma log_of_snoc:
  assumes "length hist < 2 ^ 64"
  shows "log_of f (hist @ [b]) = (log_of f hist)(word_of_nat (length hist) := f b)"
proof
  fix i :: u64
  have "unat i = length hist \<longleftrightarrow> i = word_of_nat (length hist)"
    using unat_of_nat_u64 [OF assms] by (simp add: u64_eq_iff)
  then show "log_of f (hist @ [b]) i = ((log_of f hist)(word_of_nat (length hist) := f b)) i"
    by (auto simp: log_of_def nth_append less_Suc_eq)
qed

lemma log_put:
  assumes "length hist < 2 ^ 64" and "f b = Some v" and "holds u64_to_key_bytes db (log_of f hist)"
  shows "holds u64_to_key_bytes (lm_put db (u64_to_key_bytes (word_of_nat (length hist))) v) (log_of f (hist @ [b]))"
  using index_db.holds_put [OF assms(3), of "word_of_nat (length hist)" v] assms(1,2) by (simp add: log_of_snoc)

lemma log_put_new:
  assumes "length hist < 2 ^ 64" and "f b = Some v" and "holds u64_to_key_bytes db (log_of f hist)"
    and "lm_put_new db (u64_to_key_bytes (word_of_nat (length hist))) v = Ok db'"
  shows "holds u64_to_key_bytes db' (log_of f (hist @ [b]))"
  using index_db.holds_put_new(2) [OF assms(3,4)] assms(1,2) by (simp add: log_of_snoc)

lemma log_skip:
  assumes "length hist < 2 ^ 64" and "f b = None" and "holds u64_to_key_bytes db (log_of f hist)"
  shows "holds u64_to_key_bytes db (log_of f (hist @ [b]))"
proof -
  have "(log_of f hist)(word_of_nat (length hist) := None) = log_of f hist"
    using log_of_next [OF assms(1), of f] by auto
  with assms show ?thesis by (simp add: log_of_snoc)
qed

lemma log_get:
  assumes "holds u64_to_key_bytes db (log_of f hist)" and "i < length hist" and "length hist \<le> 2 ^ 64"
  shows "db (u64_to_key_bytes (word_of_nat i)) = f (hist ! i)"
  using index_db.holds_get [OF assms(1)] assms(2,3) by (simp add: log_of_nth)

subsection \<open>Nonces\<close>

text \<open>The nonces used so far, with the index of the block that used each.\<close>

definition nonces_rep :: "database \<Rightarrow> ((bytes \<times> u64) \<times> u64) list \<Rightarrow> bool" where
  "nonces_rep db used \<longleftrightarrow>
     distinct (map fst used) \<and> holds nonce_key db (map_of (map (\<lambda>(p, i). (p, u64_to_key_bytes i)) used))"

lemma nonces_rep_empty: "nonces_rep Map.empty []"
  by (simp add: nonces_rep_def holds_def)

lemma nonces_put:
  assumes "nonces_rep db used" and "lm_put_new db (nonce @ u64_to_key_bytes t) (u64_to_key_bytes i) = Ok db'"
  shows "nonces_rep db' (((nonce, t), i) # used)"
proof -
  let ?m = "map_of (map (\<lambda>(p, i). (p, u64_to_key_bytes i)) used)"
  have h: "holds nonce_key db ?m" using assms(1) by (simp add: nonces_rep_def)
  have put: "lm_put_new db (nonce_key (nonce, t)) (u64_to_key_bytes i) = Ok db'"
    using assms(2) by (simp add: nonce_key_def)
  note n = nonce_db.holds_put_new [OF h put]
  from n(1) have "(nonce, t) \<notin> fst ` set used" by (force simp: map_of_eq_None_iff)
  with assms(1) n(2) show ?thesis by (simp add: nonces_rep_def)
qed

lemma nonces_holds:
  assumes "nonces_rep db used"
  shows "db (nonce @ u64_to_key_bytes t) = map_of (map (\<lambda>(p, i). (p, u64_to_key_bytes i)) used) (nonce, t)"
proof -
  have "holds nonce_key db (map_of (map (\<lambda>(p, i). (p, u64_to_key_bytes i)) used))"
    using assms by (simp add: nonces_rep_def)
  from nonce_db.holds_get [OF this, of "(nonce, t)"] show ?thesis by (simp add: nonce_key_def)
qed

lemma nonces_get:
  assumes "nonces_rep db used" and "((nonce, t), i) \<in> set used"
  shows "db (nonce @ u64_to_key_bytes t) = Some (u64_to_key_bytes i)"
proof -
  have "map_of (map (\<lambda>(p, i). (p, u64_to_key_bytes i)) used) (nonce, t) = Some (u64_to_key_bytes i)"
    using assms by (intro map_of_is_SomeI) (auto simp: nonces_rep_def comp_def case_prod_beta image_iff intro!: bexI [OF _ assms(2)])
  with nonces_holds [OF assms(1), of nonce t] show ?thesis by simp
qed

lemma nonces_get_None:
  assumes "nonces_rep db used" and "(nonce, t) \<notin> fst ` set used"
  shows "db (nonce @ u64_to_key_bytes t) = None"
proof -
  have "map_of (map (\<lambda>(p, i). (p, u64_to_key_bytes i)) used) (nonce, t) = None"
    using assms(2) by (force simp: map_of_eq_None_iff)
  with nonces_holds [OF assms(1), of nonce t] show ?thesis by simp
qed
end
