(* ===== verification/Ledger_Mint_Store.thy ===== *)
theory Ledger_Mint_Store
  imports Mint_Validation Ledger_Keyed
begin

section \<open>The stores of minting (\<^verbatim>\<open>ledger/db/src/mint_config_store.rs\<close>, \<^verbatim>\<open>mint_tx_store.rs\<close>)\<close>

text \<open>
  The active minting configurations per token with the amounts minted so far, and the minting
  transactions per block. Databases map key bytes to value bytes; the codec of each message type is a field
  of the record of codecs. A call that fails returns no state, since the callers abandon the transaction.
  The map of all active configurations, which iterates over a database, is not modelled.
\<close>

record 'a codec =
  enc :: "'a \<Rightarrow> bytes"
  dec :: "bytes \<Rightarrow> 'a option"

definition codec_ok :: "'a codec \<Rightarrow> bool" where
  "codec_ok c \<longleftrightarrow> (\<forall>x. dec c (enc c x) = Some x)"

lemma codec_okD [simp]: "codec_ok c \<Longrightarrow> dec c (enc c x) = Some x"
  by (simp add: codec_ok_def)

text \<open>\<^verbatim>\<open>decode(db_transaction.get(..)?)?\<close>.\<close>

definition lm_get_dec :: "'a codec \<Rightarrow> database \<Rightarrow> bytes \<Rightarrow> 'a ledger" where
  "lm_get_dec c db k = and_then (lm_get db k) (\<lambda>bs. ok_or Deserialization (dec c bs))"

definition checked_add :: "u64 \<Rightarrow> u64 \<Rightarrow> u64 option" where
  "checked_add a b = (if a + b < a then None else Some (a + b))"

lemma checked_add_Some: "checked_add a b = Some c \<longleftrightarrow> unat a + unat b < 2 ^ 64 \<and> c = a + b"
proof -
  have "a \<le> a + b \<longleftrightarrow> unat a + unat b < 2 ^ 64" using no_olen_add_nat [of a b] by simp
  then show ?thesis by (auto simp: checked_add_def not_less)
qed

lemma checked_add_unat: "checked_add a b = Some c \<Longrightarrow> unat c = unat a + unat b"
  by (auto simp: checked_add_Some unat_add_lem [THEN iffD1])

subsection \<open>Active configurations\<close>

record 'p active_mint_config =
  am_mint_config :: "'p mint_config"
  am_total_minted :: u64

record 'p active_mint_configs =
  ams_configs :: "'p active_mint_config list"
  ams_mint_config_tx :: "'p mint_config_tx"

definition total_mint_limit :: "'p active_mint_configs \<Rightarrow> u64" where
  "total_mint_limit a = mcp_total_mint_limit (mct_prefix (ams_mint_config_tx a))"

definition total_minted :: "'p active_mint_configs \<Rightarrow> u64" where
  "total_minted a = sum_list (map am_total_minted (ams_configs a))"

definition can_mint :: "'p active_mint_configs \<Rightarrow> u64 \<Rightarrow> bool" where
  "can_mint a amount = (case checked_add (total_minted a) amount of
     Some new_total_minted \<Rightarrow> new_total_minted \<le> total_mint_limit a | None \<Rightarrow> False)"

text \<open>The loop of \<^verbatim>\<open>get_active_mint_config_for_mint_tx\<close>, with the error it would end with.\<close>

fun find_mint_config ::
  "'p::linorder mint_env \<Rightarrow> mint_tx \<Rightarrow> ledger_error \<Rightarrow> 'p active_mint_config list \<Rightarrow> 'p active_mint_config ledger" where
  "find_mint_config M mint_tx error [] = Err error"
| "find_mint_config M mint_tx error (c # cs) =
     (case verify (mx_verify M) (mc_signer_set (am_mint_config c)) (mx_hash_tx M (mt_prefix mint_tx)) (mt_signature mint_tx) of
        Err _ \<Rightarrow> find_mint_config M mint_tx error cs
      | Panic \<Rightarrow> Panic
      | Ok _ \<Rightarrow>
          let next = find_mint_config M mint_tx
                (MintLimitExceeded (mtp_amount (mt_prefix mint_tx)) (am_total_minted c) (mc_mint_limit (am_mint_config c))) cs in
          (case checked_add (am_total_minted c) (mtp_amount (mt_prefix mint_tx)) of
             Some new_total_minted \<Rightarrow> if new_total_minted \<le> mc_mint_limit (am_mint_config c) then Ok c else next
           | None \<Rightarrow> next))"

definition active_config_for_mint_tx ::
  "'p::linorder mint_env \<Rightarrow> 'p active_mint_configs \<Rightarrow> mint_tx \<Rightarrow> 'p active_mint_config ledger" where
  "active_config_for_mint_tx M a mint_tx =
     (if \<not> can_mint a (mtp_amount (mt_prefix mint_tx))
      then Err (MintLimitExceeded (mtp_amount (mt_prefix mint_tx)) (total_minted a) (total_mint_limit a))
      else if map am_mint_config (ams_configs a) \<noteq> mcp_configs (mct_prefix (ams_mint_config_tx a))
      then Err (InvalidMintConfig ''MintConfigs do not match origianl transaction'')
      else find_mint_config M mint_tx NotFound (ams_configs a))"

definition active_mint_configs_from :: "'p mint_config_tx \<Rightarrow> 'p active_mint_configs" where
  "active_mint_configs_from tx =
     \<lparr>ams_configs = map (\<lambda>c. \<lparr>am_mint_config = c, am_total_minted = 0\<rparr>) (mcp_configs (mct_prefix tx)), ams_mint_config_tx = tx\<rparr>"

subsection \<open>The store of configurations\<close>

record mint_config_store =
  active_mint_configs_by_token_id :: database
  block_index_by_mint_config_tx_nonce_and_token_id :: database
  validated_mint_config_txs_by_block :: database

record 'p mint_codecs =
  mk_active :: "'p active_mint_configs codec"
  mk_configs :: "'p validated_mint_config_tx list codec"
  mk_mints :: "mint_tx list codec"

definition mint_config_store_create :: mint_config_store where
  "mint_config_store_create = \<lparr>active_mint_configs_by_token_id = Map.empty,
     block_index_by_mint_config_tx_nonce_and_token_id = Map.empty, validated_mint_config_txs_by_block = Map.empty\<rparr>"

definition write_config_nonce :: "'p mint_config_tx \<Rightarrow> mint_config_store \<Rightarrow> bytes \<Rightarrow> mint_config_store ledger" where
  "write_config_nonce tx s block_index_bytes =
     and_then (lm_put_new (block_index_by_mint_config_tx_nonce_and_token_id s)
         (mcp_nonce (mct_prefix tx) @ u64_to_key_bytes (mcp_token_id (mct_prefix tx))) block_index_bytes) (\<lambda>db.
     Ok (s\<lparr>block_index_by_mint_config_tx_nonce_and_token_id := db\<rparr>))"

definition write_active_mint_configs_by_token_id ::
  "'p mint_codecs \<Rightarrow> 'p mint_config_tx \<Rightarrow> mint_config_store \<Rightarrow> mint_config_store" where
  "write_active_mint_configs_by_token_id K tx s =
     s\<lparr>active_mint_configs_by_token_id := lm_put (active_mint_configs_by_token_id s)
         (u64_to_key_bytes (mcp_token_id (mct_prefix tx))) (enc (mk_active K) (active_mint_configs_from tx))\<rparr>"

definition check_mint_config :: "'p mint_config_tx \<Rightarrow> unit ledger" where
  "check_mint_config tx =
     (if list_ex (\<lambda>c. mc_token_id c \<noteq> mcp_token_id (mct_prefix tx)) (mcp_configs (mct_prefix tx))
      then Err (InvalidMintConfig ''All mint configurations must have the same token id'') else Ok ())"

definition write_validated_mint_config_txs ::
  "'p mint_codecs \<Rightarrow> u64 \<Rightarrow> 'p validated_mint_config_tx list \<Rightarrow> mint_config_store \<Rightarrow> mint_config_store ledger" where
  "write_validated_mint_config_txs K block_index txs s =
     (let block_index_bytes = u64_to_key_bytes block_index in
      and_then (lm_put_new (validated_mint_config_txs_by_block s) block_index_bytes (enc (mk_configs K) txs)) (\<lambda>db.
      try_fold (\<lambda>s v.
        let tx = vm_mint_config_tx v in
        and_then (check_mint_config tx) (\<lambda>_.
        and_then (write_config_nonce tx s block_index_bytes) (\<lambda>s.
        Ok (write_active_mint_configs_by_token_id K tx s))))
        (s\<lparr>validated_mint_config_txs_by_block := db\<rparr>) txs))"

definition get_validated_mint_config_txs_by_block_index ::
  "'p mint_codecs \<Rightarrow> u64 \<Rightarrow> mint_config_store \<Rightarrow> 'p validated_mint_config_tx list ledger" where
  "get_validated_mint_config_txs_by_block_index K block_index s =
     lm_get_dec (mk_configs K) (validated_mint_config_txs_by_block s) (u64_to_key_bytes block_index)"

definition get_active_mint_configs ::
  "'p mint_codecs \<Rightarrow> u64 \<Rightarrow> mint_config_store \<Rightarrow> 'p active_mint_configs option ledger" where
  "get_active_mint_configs K token_id s =
     (case active_mint_configs_by_token_id s (u64_to_key_bytes token_id) of
        Some bs \<Rightarrow> and_then (ok_or Deserialization (dec (mk_active K) bs)) (\<lambda>a. Ok (Some a))
      | None \<Rightarrow> Ok None)"

definition get_active_mint_config_for_mint_tx ::
  "'p::linorder mint_env \<Rightarrow> 'p mint_codecs \<Rightarrow> mint_tx \<Rightarrow> mint_config_store \<Rightarrow> 'p active_mint_config ledger" where
  "get_active_mint_config_for_mint_tx M K mint_tx s =
     and_then (and_then (get_active_mint_configs K (mtp_token_id (mt_prefix mint_tx)) s) (ok_or NotFound)) (\<lambda>a.
     active_config_for_mint_tx M a mint_tx)"

text \<open>\<^verbatim>\<open>iter_mut().find(..)\<close>: the first configuration equal to the given one is the one that is changed.\<close>

fun set_first_minted :: "'p mint_config \<Rightarrow> u64 \<Rightarrow> 'p active_mint_config list \<Rightarrow> 'p active_mint_config list" where
  "set_first_minted c amount [] = []"
| "set_first_minted c amount (a # as) =
     (if am_mint_config a = c then a\<lparr>am_total_minted := amount\<rparr> # as else a # set_first_minted c amount as)"

definition update_total_minted ::
  "'p mint_codecs \<Rightarrow> 'p mint_config \<Rightarrow> u64 \<Rightarrow> mint_config_store \<Rightarrow> mint_config_store ledger" where
  "update_total_minted K mint_config amount s =
     and_then (and_then (get_active_mint_configs K (mc_token_id mint_config) s) (ok_or NotFound)) (\<lambda>active.
     and_then (ok_or NotFound (find (\<lambda>a. am_mint_config a = mint_config) (ams_configs active))) (\<lambda>a.
     if amount < am_total_minted a then Err (TotalMintedAmountCannotDecrease amount (am_total_minted a))
     else
       let mint_increase_amount = amount - am_total_minted a in
       if amount > mc_mint_limit (am_mint_config a)
       then Err (MintLimitExceeded mint_increase_amount (am_total_minted a) (mc_mint_limit (am_mint_config a)))
       else
         let active = active\<lparr>ams_configs := set_first_minted mint_config amount (ams_configs active)\<rparr> in
         if total_minted active > total_mint_limit active
         then Err (MintLimitExceeded mint_increase_amount (total_minted active) (total_mint_limit active))
         else Ok (s\<lparr>active_mint_configs_by_token_id := lm_put (active_mint_configs_by_token_id s)
             (u64_to_key_bytes (mc_token_id mint_config)) (enc (mk_active K) active)\<rparr>)))"

definition check_mint_config_tx_nonce :: "u64 \<Rightarrow> bytes \<Rightarrow> mint_config_store \<Rightarrow> u64 option ledger" where
  "check_mint_config_tx_nonce token_id nonce s =
     (case block_index_by_mint_config_tx_nonce_and_token_id s (nonce @ u64_to_key_bytes token_id) of
        Some bs \<Rightarrow> and_then (of_run (key_bytes_to_u64 bs)) (\<lambda>i. Ok (Some i))
      | None \<Rightarrow> Ok None)"

subsection \<open>The store of minting transactions\<close>

record mint_tx_store =
  mint_txs_by_block :: database
  block_index_by_mint_tx_nonce_and_token_id :: database

definition mint_tx_store_create :: mint_tx_store where
  "mint_tx_store_create = \<lparr>mint_txs_by_block = Map.empty, block_index_by_mint_tx_nonce_and_token_id = Map.empty\<rparr>"

definition get_mint_txs_by_block_index :: "'p mint_codecs \<Rightarrow> u64 \<Rightarrow> mint_tx_store \<Rightarrow> mint_tx list ledger" where
  "get_mint_txs_by_block_index K block_index s =
     lm_get_dec (mk_mints K) (mint_txs_by_block s) (u64_to_key_bytes block_index)"

definition write_mint_nonce :: "mint_tx \<Rightarrow> mint_tx_store \<Rightarrow> bytes \<Rightarrow> mint_tx_store ledger" where
  "write_mint_nonce mint_tx s block_index_bytes =
     and_then (lm_put_new (block_index_by_mint_tx_nonce_and_token_id s)
         (mtp_nonce (mt_prefix mint_tx) @ u64_to_key_bytes (mtp_token_id (mt_prefix mint_tx))) block_index_bytes) (\<lambda>db.
     Ok (s\<lparr>block_index_by_mint_tx_nonce_and_token_id := db\<rparr>))"

text \<open>The body of the loop of \<^verbatim>\<open>write_mint_txs\<close>, on both stores.\<close>

definition write_mint_tx ::
  "'p::linorder mint_env \<Rightarrow> 'p mint_codecs \<Rightarrow> bytes \<Rightarrow> mint_config_store \<times> mint_tx_store \<Rightarrow> mint_tx \<Rightarrow>
   (mint_config_store \<times> mint_tx_store) ledger" where
  "write_mint_tx M K block_index_bytes stores mint_tx = (case stores of (cs, ts) \<Rightarrow>
     and_then (get_active_mint_config_for_mint_tx M K mint_tx cs) (\<lambda>a.
     and_then (ok_or NotFound (checked_add (am_total_minted a) (mtp_amount (mt_prefix mint_tx)))) (\<lambda>new_total_minted.
     and_then (update_total_minted K (am_mint_config a) new_total_minted cs) (\<lambda>cs.
     and_then (write_mint_nonce mint_tx ts block_index_bytes) (\<lambda>ts.
     Ok (cs, ts))))))"

definition write_mint_txs ::
  "'p::linorder mint_env \<Rightarrow> 'p mint_codecs \<Rightarrow> u64 \<Rightarrow> mint_tx list \<Rightarrow> mint_config_store \<times> mint_tx_store \<Rightarrow>
   (mint_config_store \<times> mint_tx_store) ledger" where
  "write_mint_txs M K block_index mint_txs stores = (case stores of (cs, ts) \<Rightarrow>
     (let block_index_bytes = u64_to_key_bytes block_index in
      and_then (lm_put_new (mint_txs_by_block ts) block_index_bytes (enc (mk_mints K) mint_txs)) (\<lambda>db.
      try_fold (write_mint_tx M K block_index_bytes) (cs, ts\<lparr>mint_txs_by_block := db\<rparr>) mint_txs)))"

definition check_mint_tx_nonce :: "u64 \<Rightarrow> bytes \<Rightarrow> mint_tx_store \<Rightarrow> u64 option ledger" where
  "check_mint_tx_nonce token_id nonce s =
     (case block_index_by_mint_tx_nonce_and_token_id s (nonce @ u64_to_key_bytes token_id) of
        Some bs \<Rightarrow> and_then (of_run (key_bytes_to_u64 bs)) (\<lambda>i. Ok (Some i))
      | None \<Rightarrow> Ok None)"
subsection \<open>The amounts minted\<close>

text \<open>The total over the configurations as a natural number.\<close>

definition minted_total :: "'p active_mint_config list \<Rightarrow> nat" where
  "minted_total cs = sum_list (map (unat \<circ> am_total_minted) cs)"

text \<open>
  The configurations of a token are those of the transaction that set them, with the token's id and different from
  each other, none has minted more than its limit, and together they have not minted more than the limit of
  the transaction.
\<close>

definition active_wf :: "u64 \<Rightarrow> 'p active_mint_configs \<Rightarrow> bool" where
  "active_wf t a \<longleftrightarrow>
     map am_mint_config (ams_configs a) = mcp_configs (mct_prefix (ams_mint_config_tx a)) \<and>
     distinct (mcp_configs (mct_prefix (ams_mint_config_tx a))) \<and>
     list_all (\<lambda>c. mc_token_id (am_mint_config c) = t \<and> am_total_minted c \<le> mc_mint_limit (am_mint_config c)) (ams_configs a) \<and>
     minted_total (ams_configs a) \<le> unat (total_mint_limit a)"

text \<open>\<^term>\<open>n t\<close> is the amount of token \<^term>\<open>t\<close> minted since its configuration was last set.\<close>

definition minting_at :: "'p mint_codecs \<Rightarrow> u64 \<Rightarrow> nat \<Rightarrow> mint_config_store \<Rightarrow> bool" where
  "minting_at K t n s = (case get_active_mint_configs K t s of
       Ok None \<Rightarrow> n = 0
     | Ok (Some a) \<Rightarrow> active_wf t a \<and> n = minted_total (ams_configs a)
     | _ \<Rightarrow> False)"

definition minting_inv :: "'p mint_codecs \<Rightarrow> (u64 \<Rightarrow> nat) \<Rightarrow> mint_config_store \<Rightarrow> bool" where
  "minting_inv K n s \<longleftrightarrow> (\<forall>t. minting_at K t (n t) s)"

lemma minting_invD:
  assumes "minting_inv K n s" and "get_active_mint_configs K t s = Ok (Some a)"
  shows "active_wf t a" "n t = minted_total (ams_configs a)"
proof -
  have "minting_at K t (n t) s" using assms(1) by (simp add: minting_inv_def)
  with assms(2) show "active_wf t a" "n t = minted_total (ams_configs a)" by (simp_all add: minting_at_def)
qed

lemma get_active_put:
  assumes "codec_ok (mk_active K)"
  shows "get_active_mint_configs K t (s\<lparr>active_mint_configs_by_token_id :=
      lm_put (active_mint_configs_by_token_id s) (u64_to_key_bytes t') (enc (mk_active K) a)\<rparr>) =
    (if t = t' then Ok (Some a) else get_active_mint_configs K t s)"
  using assms by (simp add: get_active_mint_configs_def lm_put_def)

lemma minting_inv_frame:
  "active_mint_configs_by_token_id s' = active_mint_configs_by_token_id s \<Longrightarrow> minting_inv K n s' = minting_inv K n s"
  by (simp add: minting_inv_def minting_at_def get_active_mint_configs_def)

lemma minting_inv_put:
  assumes "codec_ok (mk_active K)" and "minting_inv K n s" and "active_wf t a"
  shows "minting_inv K (n(t := minted_total (ams_configs a)))
    (s\<lparr>active_mint_configs_by_token_id :=
       lm_put (active_mint_configs_by_token_id s) (u64_to_key_bytes t) (enc (mk_active K) a)\<rparr>)"
  unfolding minting_inv_def
proof
  fix u
  show "minting_at K u ((n(t := minted_total (ams_configs a))) u) (s\<lparr>active_mint_configs_by_token_id :=
      lm_put (active_mint_configs_by_token_id s) (u64_to_key_bytes t) (enc (mk_active K) a)\<rparr>)"
    using assms by (cases "u = t") (simp_all add: minting_at_def get_active_put minting_inv_def)
qed

lemma minting_inv_create: "minting_inv K (\<lambda>_. 0) mint_config_store_create"
  by (simp add: minting_inv_def minting_at_def get_active_mint_configs_def mint_config_store_create_def)

subsubsection \<open>Setting configurations\<close>

definition distinct_configs :: "'p validated_mint_config_tx \<Rightarrow> bool" where
  "distinct_configs v \<longleftrightarrow> distinct (mcp_configs (mct_prefix (vm_mint_config_tx v)))"

abbreviation config_token :: "'p validated_mint_config_tx \<Rightarrow> u64" where
  "config_token v \<equiv> mcp_token_id (mct_prefix (vm_mint_config_tx v))"

lemma active_from_wf:
  assumes "check_mint_config tx = Ok ()" and "distinct (mcp_configs (mct_prefix tx))"
  shows "active_wf (mcp_token_id (mct_prefix tx)) (active_mint_configs_from tx)"
    and "minted_total (ams_configs (active_mint_configs_from tx)) = 0"
proof -
  show "minted_total (ams_configs (active_mint_configs_from tx)) = 0"
    by (simp add: minted_total_def active_mint_configs_from_def comp_def)
  then show "active_wf (mcp_token_id (mct_prefix tx)) (active_mint_configs_from tx)"
    using assms
    by (auto simp: active_wf_def active_mint_configs_from_def check_mint_config_def list_ex_iff list_all_iff comp_def
        split: if_split_asm)
qed

definition reset_minted :: "(u64 \<Rightarrow> nat) \<Rightarrow> 'p validated_mint_config_tx list \<Rightarrow> u64 \<Rightarrow> nat" where
  "reset_minted n vs t = (if t \<in> set (map config_token vs) then 0 else n t)"

lemma reset_minted_simps:
  "reset_minted n [] = n" "reset_minted n (v # vs) = reset_minted (n(config_token v := 0)) vs"
  by (auto simp: reset_minted_def)

lemma write_configs_fold_inv:
  assumes K: "codec_ok (mk_active K)"
    and "try_fold (\<lambda>s v. let tx = vm_mint_config_tx v in and_then (check_mint_config tx) (\<lambda>_.
        and_then (write_config_nonce tx s bs) (\<lambda>s. Ok (write_active_mint_configs_by_token_id K tx s)))) s vs = Ok s'"
    and "minting_inv K n s" and "list_all distinct_configs vs"
  shows "minting_inv K (reset_minted n vs) s'"
  using assms(2-4)
proof (induction vs arbitrary: s n)
  case Nil
  then show ?case by (simp add: reset_minted_simps)
next
  case (Cons v vs)
  let ?tx = "vm_mint_config_tx v"
  from Cons.prems(1) obtain s1 where chk: "check_mint_config ?tx = Ok ()" and s1: "write_config_nonce ?tx s bs = Ok s1"
    and rest: "try_fold (\<lambda>s v. let tx = vm_mint_config_tx v in and_then (check_mint_config tx) (\<lambda>_.
        and_then (write_config_nonce tx s bs) (\<lambda>s. Ok (write_active_mint_configs_by_token_id K tx s))))
        (write_active_mint_configs_by_token_id K ?tx s1) vs = Ok s'"
    by (auto simp: Let_def outcome_simps)
  have "minting_inv K n s1"
    using s1 Cons.prems(2) minting_inv_frame [of s1 s K n] by (auto simp: write_config_nonce_def outcome_simps)
  then have "minting_inv K (n(config_token v := 0)) (write_active_mint_configs_by_token_id K ?tx s1)"
    using minting_inv_put [OF K _ active_from_wf(1) [OF chk]] active_from_wf(2) [OF chk] Cons.prems(3)
    by (auto simp: write_active_mint_configs_by_token_id_def distinct_configs_def)
  from Cons.IH [OF rest this] Cons.prems(3) show ?case by (simp add: reset_minted_simps fun_upd_def)
qed

lemma write_configs_inv:
  assumes "codec_ok (mk_active K)" and "write_validated_mint_config_txs K i vs s = Ok s'"
    and "minting_inv K n s" and "list_all distinct_configs vs"
  shows "minting_inv K (reset_minted n vs) s'"
proof -
  from assms(2) obtain db where
    "try_fold (\<lambda>s v. let tx = vm_mint_config_tx v in and_then (check_mint_config tx) (\<lambda>_.
        and_then (write_config_nonce tx s (u64_to_key_bytes i)) (\<lambda>s. Ok (write_active_mint_configs_by_token_id K tx s))))
      (s\<lparr>validated_mint_config_txs_by_block := db\<rparr>) vs = Ok s'"
    by (auto simp: write_validated_mint_config_txs_def Let_def outcome_simps)
  moreover have "minting_inv K n (s\<lparr>validated_mint_config_txs_by_block := db\<rparr>)"
    using assms(3) minting_inv_frame [of "s\<lparr>validated_mint_config_txs_by_block := db\<rparr>" s K n] by simp
  ultimately show ?thesis using write_configs_fold_inv [OF assms(1) _ _ assms(4)] by blast
qed

subsubsection \<open>Minting\<close>

lemma unat_sum_list:
  "sum_list (map unat ws) < 2 ^ 64 \<Longrightarrow> unat (sum_list ws) = sum_list (map unat ws)" for ws :: "u64 list"
proof (induction ws)
  case (Cons w ws)
  then have "unat w + unat (sum_list ws) < 2 ^ 64" by simp
  then have "unat (w + sum_list ws) = unat w + unat (sum_list ws)" by (simp add: unat_add_lem [THEN iffD1])
  with Cons show ?case by simp
qed simp

lemma active_wf_distinct: "active_wf t a \<Longrightarrow> distinct (map am_mint_config (ams_configs a))"
  by (simp add: active_wf_def)

lemma total_minted_exact:
  assumes "active_wf t a"
  shows "unat (total_minted a) = minted_total (ams_configs a)"
proof -
  have "minted_total (ams_configs a) < 2 ^ 64"
    using assms u64_unat_less [of "total_mint_limit a"] by (simp add: active_wf_def)
  then have "sum_list (map unat (map am_total_minted (ams_configs a))) < 2 ^ 64" by (simp add: minted_total_def)
  from unat_sum_list [OF this] show ?thesis by (simp add: total_minted_def minted_total_def)
qed

lemma find_mint_config_Ok:
  assumes "find_mint_config M tx e cs = Ok c"
  shows "c \<in> set cs \<and> (\<exists>m. checked_add (am_total_minted c) (mtp_amount (mt_prefix tx)) = Some m \<and>
    m \<le> mc_mint_limit (am_mint_config c))"
  using assms
  by (induction cs arbitrary: e) (auto simp: Let_def split: outcome.split_asm option.split_asm if_split_asm)

lemma set_first_minted_distinct:
  assumes "distinct (map am_mint_config cs)" and "c \<in> set cs"
  shows "find (\<lambda>a. am_mint_config a = am_mint_config c) cs = Some c"
    and "map am_mint_config (set_first_minted (am_mint_config c) m cs) = map am_mint_config cs"
    and "minted_total (set_first_minted (am_mint_config c) m cs) + unat (am_total_minted c) = minted_total cs + unat m"
    and "set (set_first_minted (am_mint_config c) m cs) \<subseteq> insert (c\<lparr>am_total_minted := m\<rparr>) (set cs)"
  using assms by (induction cs) (auto simp: minted_total_def)

definition add_minted :: "(u64 \<Rightarrow> nat) \<Rightarrow> mint_tx \<Rightarrow> u64 \<Rightarrow> nat" where
  "add_minted n tx = n(mtp_token_id (mt_prefix tx) := n (mtp_token_id (mt_prefix tx)) + unat (mtp_amount (mt_prefix tx)))"

lemma mint_active_wf:
  assumes wf: "active_wf t a" and get: "active_config_for_mint_tx M a tx = Ok c"
    and m: "checked_add (am_total_minted c) (mtp_amount (mt_prefix tx)) = Some m"
  defines "a' \<equiv> a\<lparr>ams_configs := set_first_minted (am_mint_config c) m (ams_configs a)\<rparr>"
  shows "c \<in> set (ams_configs a)" and "active_wf t a'"
    and "minted_total (ams_configs a') = minted_total (ams_configs a) + unat (mtp_amount (mt_prefix tx))"
proof -
  let ?amount = "mtp_amount (mt_prefix tx)"
  from get have can: "can_mint a ?amount" and f: "find_mint_config M tx NotFound (ams_configs a) = Ok c"
    by (auto simp: active_config_for_mint_tx_def split: if_split_asm)
  from find_mint_config_Ok [OF f] m show c: "c \<in> set (ams_configs a)" by blast
  have limit: "m \<le> mc_mint_limit (am_mint_config c)" using find_mint_config_Ok [OF f] m by auto
  note d = set_first_minted_distinct(2-4) [OF active_wf_distinct [OF wf] c, of m]
  show total: "minted_total (ams_configs a') = minted_total (ams_configs a) + unat ?amount"
    using d(2) checked_add_unat [OF m] by (simp add: a'_def)
  from can obtain n where n: "checked_add (total_minted a) ?amount = Some n" "n \<le> total_mint_limit a"
    by (auto simp: can_mint_def split: option.split_asm)
  have "minted_total (ams_configs a') \<le> unat (total_mint_limit a)"
    using total checked_add_unat [OF n(1)] n(2) total_minted_exact [OF wf] by (simp add: word_le_nat_alt)
  moreover have "total_mint_limit a' = total_mint_limit a" by (simp add: total_mint_limit_def a'_def)
  moreover have "list_all (\<lambda>c. mc_token_id (am_mint_config c) = t \<and> am_total_minted c \<le> mc_mint_limit (am_mint_config c)) (ams_configs a')"
    using wf limit c d(3) by (auto simp: active_wf_def a'_def list_all_iff)
  ultimately show "active_wf t a'" using wf d(1) by (simp add: active_wf_def a'_def)
qed

lemma write_mint_tx_inv:
  assumes K: "codec_ok (mk_active K)" and "write_mint_tx M K bs (cs, ts) tx = Ok (cs', ts')" and inv: "minting_inv K n cs"
  shows "minting_inv K (add_minted n tx) cs'"
proof -
  let ?t = "mtp_token_id (mt_prefix tx)"
  from assms(2) obtain a c m where a: "get_active_mint_configs K ?t cs = Ok (Some a)"
    and c: "active_config_for_mint_tx M a tx = Ok c"
    and m: "checked_add (am_total_minted c) (mtp_amount (mt_prefix tx)) = Some m"
    and u: "update_total_minted K (am_mint_config c) m cs = Ok cs'"
    by (auto simp: write_mint_tx_def get_active_mint_config_for_mint_tx_def outcome_simps)
  note wf = minting_invD [OF inv a]
  note s = mint_active_wf [OF wf(1) c m]
  have t: "mc_token_id (am_mint_config c) = ?t" using wf(1) s(1) by (simp add: active_wf_def list_all_iff)
  from set_first_minted_distinct(1) [OF active_wf_distinct [OF wf(1)] s(1)] u a
  have "cs' = cs\<lparr>active_mint_configs_by_token_id := lm_put (active_mint_configs_by_token_id cs) (u64_to_key_bytes ?t)
      (enc (mk_active K) (a\<lparr>ams_configs := set_first_minted (am_mint_config c) m (ams_configs a)\<rparr>))\<rparr>"
    by (auto simp: update_total_minted_def t outcome_simps Let_def split: if_split_asm)
  with minting_inv_put [OF K inv s(2)] s(3) wf(2) show ?thesis by (simp add: add_minted_def)
qed

lemma write_mint_txs_inv:
  assumes K: "codec_ok (mk_active K)" and "write_mint_txs M K i txs (cs, ts) = Ok (cs', ts')" and "minting_inv K n cs"
  shows "minting_inv K (foldl add_minted n txs) cs'"
proof -
  have "minting_inv K (foldl add_minted n txs) cs'"
    if "try_fold (write_mint_tx M K bs) (cs, ts) txs = Ok (cs', ts')" "minting_inv K n cs" for bs cs ts n
    using that
  proof (induction txs arbitrary: cs ts n)
    case (Cons tx txs)
    from Cons.prems(1) obtain cs1 ts1 where "write_mint_tx M K bs (cs, ts) tx = Ok (cs1, ts1)"
      and "try_fold (write_mint_tx M K bs) (cs1, ts1) txs = Ok (cs', ts')"
      by (auto simp: outcome_simps)
    with Cons.IH write_mint_tx_inv [OF K _ Cons.prems(2)] show ?case by fastforce
  qed simp
  with assms(2,3) show ?thesis by (auto simp: write_mint_txs_def Let_def outcome_simps)
qed

subsection \<open>The lists per block and the nonces\<close>

definition mint_nonce :: "u64 \<Rightarrow> mint_tx \<Rightarrow> (bytes \<times> u64) \<times> u64" where
  "mint_nonce i tx = ((mtp_nonce (mt_prefix tx), mtp_token_id (mt_prefix tx)), i)"

definition config_nonce :: "u64 \<Rightarrow> 'p validated_mint_config_tx \<Rightarrow> (bytes \<times> u64) \<times> u64" where
  "config_nonce i v = ((mcp_nonce (mct_prefix (vm_mint_config_tx v)), config_token v), i)"

lemma write_mint_tx_frame:
  assumes "write_mint_tx M K (u64_to_key_bytes i) (cs, ts) tx = Ok (cs', ts')"
    and "nonces_rep (block_index_by_mint_tx_nonce_and_token_id ts) used"
  shows "mint_txs_by_block ts' = mint_txs_by_block ts"
    and "nonces_rep (block_index_by_mint_tx_nonce_and_token_id ts') (mint_nonce i tx # used)"
    and "validated_mint_config_txs_by_block cs' = validated_mint_config_txs_by_block cs"
    and "block_index_by_mint_config_tx_nonce_and_token_id cs' = block_index_by_mint_config_tx_nonce_and_token_id cs"
proof -
  from assms(1) obtain a m db where u: "update_total_minted K a m cs = Ok cs'"
    and db: "lm_put_new (block_index_by_mint_tx_nonce_and_token_id ts)
      (mtp_nonce (mt_prefix tx) @ u64_to_key_bytes (mtp_token_id (mt_prefix tx))) (u64_to_key_bytes i) = Ok db"
    and ts': "ts' = ts\<lparr>block_index_by_mint_tx_nonce_and_token_id := db\<rparr>"
    by (auto simp: write_mint_tx_def write_mint_nonce_def outcome_simps)
  show "mint_txs_by_block ts' = mint_txs_by_block ts" using ts' by simp
  show "nonces_rep (block_index_by_mint_tx_nonce_and_token_id ts') (mint_nonce i tx # used)"
    using nonces_put [OF assms(2) db] ts' by (simp add: mint_nonce_def)
  show "validated_mint_config_txs_by_block cs' = validated_mint_config_txs_by_block cs"
    "block_index_by_mint_config_tx_nonce_and_token_id cs' = block_index_by_mint_config_tx_nonce_and_token_id cs"
    using u by (auto simp: update_total_minted_def outcome_simps Let_def split: if_split_asm)
qed

lemma write_mint_txs_frame:
  assumes "write_mint_txs M K i txs (cs, ts) = Ok (cs', ts')"
    and "nonces_rep (block_index_by_mint_tx_nonce_and_token_id ts) used"
  shows "lm_put_new (mint_txs_by_block ts) (u64_to_key_bytes i) (enc (mk_mints K) txs) = Ok (mint_txs_by_block ts')"
    and "nonces_rep (block_index_by_mint_tx_nonce_and_token_id ts') (rev (map (mint_nonce i) txs) @ used)"
    and "validated_mint_config_txs_by_block cs' = validated_mint_config_txs_by_block cs"
    and "block_index_by_mint_config_tx_nonce_and_token_id cs' = block_index_by_mint_config_tx_nonce_and_token_id cs"
proof -
  have fold: "mint_txs_by_block ts' = mint_txs_by_block ts \<and>
      nonces_rep (block_index_by_mint_tx_nonce_and_token_id ts') (rev (map (mint_nonce i) txs) @ used) \<and>
      validated_mint_config_txs_by_block cs' = validated_mint_config_txs_by_block cs \<and>
      block_index_by_mint_config_tx_nonce_and_token_id cs' = block_index_by_mint_config_tx_nonce_and_token_id cs"
    if "try_fold (write_mint_tx M K (u64_to_key_bytes i)) (cs, ts) txs = Ok (cs', ts')"
      "nonces_rep (block_index_by_mint_tx_nonce_and_token_id ts) used" for cs ts used
    using that
  proof (induction txs arbitrary: cs ts used)
    case (Cons tx txs)
    from Cons.prems(1) obtain cs1 ts1 where s1: "write_mint_tx M K (u64_to_key_bytes i) (cs, ts) tx = Ok (cs1, ts1)"
      and "try_fold (write_mint_tx M K (u64_to_key_bytes i)) (cs1, ts1) txs = Ok (cs', ts')"
      by (auto simp: outcome_simps)
    with Cons.IH write_mint_tx_frame [OF s1 Cons.prems(2)] show ?case by fastforce
  qed simp
  from assms(1) obtain db where db: "lm_put_new (mint_txs_by_block ts) (u64_to_key_bytes i) (enc (mk_mints K) txs) = Ok db"
    and "try_fold (write_mint_tx M K (u64_to_key_bytes i)) (cs, ts\<lparr>mint_txs_by_block := db\<rparr>) txs = Ok (cs', ts')"
    by (auto simp: write_mint_txs_def Let_def outcome_simps)
  from fold [OF this(2)] assms(2) db
  show "lm_put_new (mint_txs_by_block ts) (u64_to_key_bytes i) (enc (mk_mints K) txs) = Ok (mint_txs_by_block ts')"
    "nonces_rep (block_index_by_mint_tx_nonce_and_token_id ts') (rev (map (mint_nonce i) txs) @ used)"
    "validated_mint_config_txs_by_block cs' = validated_mint_config_txs_by_block cs"
    "block_index_by_mint_config_tx_nonce_and_token_id cs' = block_index_by_mint_config_tx_nonce_and_token_id cs"
    by simp_all
qed

lemma write_configs_frame:
  assumes "write_validated_mint_config_txs K i vs s = Ok s'"
    and "nonces_rep (block_index_by_mint_config_tx_nonce_and_token_id s) used"
  shows "lm_put_new (validated_mint_config_txs_by_block s) (u64_to_key_bytes i) (enc (mk_configs K) vs) =
      Ok (validated_mint_config_txs_by_block s')"
    and "nonces_rep (block_index_by_mint_config_tx_nonce_and_token_id s') (rev (map (config_nonce i) vs) @ used)"
proof -
  let ?f = "\<lambda>s v. let tx = vm_mint_config_tx v in and_then (check_mint_config tx) (\<lambda>_.
      and_then (write_config_nonce tx s (u64_to_key_bytes i)) (\<lambda>s. Ok (write_active_mint_configs_by_token_id K tx s)))"
  have fold: "validated_mint_config_txs_by_block s' = validated_mint_config_txs_by_block s \<and>
      nonces_rep (block_index_by_mint_config_tx_nonce_and_token_id s') (rev (map (config_nonce i) vs) @ used)"
    if "try_fold ?f s vs = Ok s'" "nonces_rep (block_index_by_mint_config_tx_nonce_and_token_id s) used" for s used
    using that
  proof (induction vs arbitrary: s used)
    case (Cons v vs)
    let ?tx = "vm_mint_config_tx v"
    from Cons.prems(1) obtain db where db: "lm_put_new (block_index_by_mint_config_tx_nonce_and_token_id s)
        (mcp_nonce (mct_prefix ?tx) @ u64_to_key_bytes (mcp_token_id (mct_prefix ?tx))) (u64_to_key_bytes i) = Ok db"
      and rest: "try_fold ?f (write_active_mint_configs_by_token_id K ?tx
        (s\<lparr>block_index_by_mint_config_tx_nonce_and_token_id := db\<rparr>)) vs = Ok s'"
      by (auto simp: Let_def write_config_nonce_def outcome_simps)
    from Cons.IH [OF rest, of "config_nonce i v # used"] nonces_put [OF Cons.prems(2) db] show ?case
      by (simp add: write_active_mint_configs_by_token_id_def config_nonce_def)
  qed simp
  from assms(1) obtain db where db: "lm_put_new (validated_mint_config_txs_by_block s) (u64_to_key_bytes i)
      (enc (mk_configs K) vs) = Ok db" and "try_fold ?f (s\<lparr>validated_mint_config_txs_by_block := db\<rparr>) vs = Ok s'"
    by (auto simp: write_validated_mint_config_txs_def Let_def outcome_simps)
  from fold [OF this(2)] assms(2) db
  show "lm_put_new (validated_mint_config_txs_by_block s) (u64_to_key_bytes i) (enc (mk_configs K) vs) =
      Ok (validated_mint_config_txs_by_block s')"
    "nonces_rep (block_index_by_mint_config_tx_nonce_and_token_id s') (rev (map (config_nonce i) vs) @ used)"
    by simp_all
qed

lemma check_mint_tx_nonce_rep:
  assumes "nonces_rep (block_index_by_mint_tx_nonce_and_token_id s) used"
  shows "((nonce, t), i) \<in> set used \<Longrightarrow> check_mint_tx_nonce t nonce s = Ok (Some i)"
    and "(nonce, t) \<notin> fst ` set used \<Longrightarrow> check_mint_tx_nonce t nonce s = Ok None"
  using nonces_get [OF assms] nonces_get_None [OF assms] by (auto simp: check_mint_tx_nonce_def)

lemma check_mint_config_tx_nonce_rep:
  assumes "nonces_rep (block_index_by_mint_config_tx_nonce_and_token_id s) used"
  shows "((nonce, t), i) \<in> set used \<Longrightarrow> check_mint_config_tx_nonce t nonce s = Ok (Some i)"
    and "(nonce, t) \<notin> fst ` set used \<Longrightarrow> check_mint_config_tx_nonce t nonce s = Ok None"
  using nonces_get [OF assms] nonces_get_None [OF assms] by (auto simp: check_mint_config_tx_nonce_def)

end
