(* ===== verification/Ledger_Membership.thy ===== *)
theory Ledger_Membership
  imports Ledger_TxOut_Store
begin

section \<open>The store, its proofs and their validation\<close>

text \<open>
  The store of the ledger (\<^verbatim>\<open>ledger/db/src/tx_out_store.rs\<close>) and the validation of its proofs
  (\<^verbatim>\<open>transaction/core/src/membership_proofs\<close>) put together: what an append returns on each branch, that
  the proofs the store issues are accepted, that accepted proofs are about stored outputs, and that
  a proof rolled back to its own output is the one the store issued at that time.
\<close>

subsection \<open>An instance for the examples\<close>

text \<open>
  Outputs are numbers, encoded as their key bytes. The hash is a polynomial over the bytes, padded to 32
  bytes: it is not collision resistant, and the examples only need it to tell a few strings apart.
\<close>

definition ex_blake :: "bytes \<Rightarrow> bytes" where
  "ex_blake bs = replicate 31 0 @ [foldl (\<lambda>acc b. 3 * acc + b) 7 bs]"

definition ex_env :: "u64 txo_env" where
  "ex_env = \<lparr>blake2b256 = ex_blake, tx_out_hash = \<lambda>x. ex_blake (u64_to_key_bytes x), public_key = u64_to_key_bytes,
     encode = u64_to_key_bytes, decode = key_bytes_to_u64\<rparr>"

lemma ex_env_ok: "env_ok ex_env"
  by (simp add: env_ok_def blake_ok_def is_hash_def ex_env_def ex_blake_def numeral_eq_Suc)

lemma ex_store:
  "\<exists>s. push_all ex_env [5, 6, 7] = Ok s"
  by (rule push_all_returns [OF ex_env_ok]) (simp, code_simp, code_simp)

subsection \<open>Appending\<close>

text \<open>The result of an append to a store that holds \<^term>\<open>xs\<close>, on every branch.\<close>

definition push_result :: "'out txo_env \<Rightarrow> 'out list \<Rightarrow> 'out \<Rightarrow> (u64 \<times> tx_out_store) ledger \<Rightarrow> bool" where
  "push_result E xs x r =
     (let used = (tx_out_hash E x \<in> set (map (tx_out_hash E) xs) \<or> public_key E x \<in> set (map (public_key E) xs)) in
      case r of
        Ok (i, s) \<Rightarrow> \<not> used \<and> length xs < 2 ^ 63 \<and> i = word_of_nat (length xs) \<and> num_tx_outs s = Ok (i + 1) \<and>
          get_tx_out_by_index E s i = Ok x \<and> get_tx_out_index_by_hash s (tx_out_hash E x) = Ok i \<and>
          get_tx_out_index_by_public_key s (public_key E x) = Ok i
      | Err e \<Rightarrow> e = Lmdb KeyExist \<and> used \<or> e = CapacityExceeded \<and> \<not> used \<and> length xs = 2 ^ 63
      | Panic \<Rightarrow> False)"

lemma store_rep_lookups:
  assumes "env_ok E" and rep: "store_rep E xs s" and i: "i < length xs"
  shows "get_tx_out_by_index E s (word_of_nat i) = Ok (xs ! i)"
    and "get_tx_out_index_by_hash s (tx_out_hash E (xs ! i)) = Ok (word_of_nat i)"
    and "get_tx_out_index_by_public_key s (public_key E (xs ! i)) = Ok (word_of_nat i)"
proof -
  have "length xs \<le> 2 ^ 63" using rep by (simp add: store_rep_def)
  with i have u: "unat (word_of_nat i :: u64) = i" by (simp add: unat_of_nat_u64)
  have r: "\<forall>i. tx_out_by_index s (u64_to_key_bytes i) = (if unat i < length xs then Some (encode E (xs ! unat i)) else None)"
    "tx_out_index_by_hash s = index_map (tx_out_hash E) xs" "distinct (map (tx_out_hash E) xs)"
    "tx_out_index_by_public_key s = index_map (public_key E) xs" "distinct (map (public_key E) xs)"
    using rep by (auto simp: store_rep_def)
  show "get_tx_out_by_index E s (word_of_nat i) = Ok (xs ! i)"
    using r(1) u i assms(1) by (simp add: get_tx_out_by_index_def lm_get_def env_ok_def)
  show "get_tx_out_index_by_hash s (tx_out_hash E (xs ! i)) = Ok (word_of_nat i)"
    using r(2,3) i by (simp add: get_tx_out_index_by_hash_def lm_get_def index_map_lookup)
  show "get_tx_out_index_by_public_key s (public_key E (xs ! i)) = Ok (word_of_nat i)"
    using r(4,5) i by (simp add: get_tx_out_index_by_public_key_def lm_get_def index_map_lookup)
qed

text \<open>Appending to a store that was built by appending \<^term>\<open>xs\<close>: an output whose hash or public key is
  already stored is refused with \<^verbatim>\<open>KeyExist\<close>, a full tree (2^63 outputs) refuses with \<^verbatim>\<open>CapacityExceeded\<close>,
  and otherwise the append returns the number of outputs before it, after which the output is found by
  its index and its index by its hash and by its public key. It never panics.\<close>

theorem push_outcome:
  assumes "env_ok E" and "push_all E xs = Ok s"
  shows "push_result E xs x (tx_out_store_push E s x)"
proof -
  note rep = push_all_rep [OF assms]
  let ?used = "tx_out_hash E x \<in> set (map (tx_out_hash E) xs) \<or> public_key E x \<in> set (map (public_key E) xs)"
  have "length xs \<le> 2 ^ 63" using rep by (simp add: store_rep_def)
  then consider "?used" | "\<not> ?used" "length xs = 2 ^ 63" | "\<not> ?used" "length xs < 2 ^ 63" by linarith
  then show ?thesis
  proof cases
    case 1
    then show ?thesis using push_duplicate [OF rep 1] by (simp add: push_result_def)
  next
    case 2
    then show ?thesis using push_full [OF rep, of x] by (simp add: push_result_def)
  next
    case 3
    then obtain s' where "tx_out_store_push E s x = Ok (word_of_nat (length xs), s')" and r: "store_rep E (xs @ [x]) s'"
      using push_rep [OF assms(1) rep, of x] by auto
    with 3 store_rep_lookups [OF assms(1) r, of "length xs"] store_rep_num [OF r] show ?thesis
      by (simp add: push_result_def add.commute)
  qed
qed

theorem push_outcome_witness:
  "\<exists>s. push_all ex_env [5, 6, 7] = Ok s \<and> push_result ex_env [5, 6, 7] 6 (tx_out_store_push ex_env s 6) \<and>
     push_result ex_env [5, 6, 7] 8 (tx_out_store_push ex_env s 8)"
  using ex_store push_outcome [OF ex_env_ok, of "[5, 6, 7]"] by blast

subsection \<open>Proofs of membership\<close>

text \<open>C31. Completeness: for every output of a store built by appends, the proof of membership the store issues
  is accepted by the validation against the root hash of the store.\<close>

theorem membership_proof_accepted:
  assumes "env_ok E" and "push_all E xs = Ok s" and "i < length xs"
  shows "\<exists>p root. get_merkle_proof_of_membership E s (word_of_nat i) = Ok p \<and> get_root_merkle_hash E s = Ok root \<and>
     is_membership_proof_valid E (xs ! i) p root = Ok True"
proof -
  note rep = push_all_rep [OF assms(1,2)]
  let ?D = "ceil_log2 (length xs)"
  have "length xs \<le> 2 ^ 63" using rep by (simp add: store_rep_def)
  then have "?D \<le> 63" by (rule ceil_log2_le)
  moreover have "length xs \<le> 2 ^ ?D" by (rule ceil_log2_bounds(1))
  ultimately have "is_membership_proof_valid E (xs ! i)
      \<lparr>mp_index = word_of_nat i, mp_highest_index = word_of_nat (length xs - 1), mp_elements = path_elements E xs i ?D\<rparr>
      (merkle_hash E xs ?D 0) = Ok True"
    using assms(3) by (intro path_proof_valid) linarith+
  with membership_rep [OF assms(1) rep assms(3)] root_rep [OF assms(1) rep] show ?thesis
    by (simp add: merkle_root_def)
qed

theorem membership_proof_accepted_witness:
  "\<exists>s p root. push_all ex_env [5, 6, 7] = Ok s \<and> get_merkle_proof_of_membership ex_env s 2 = Ok p \<and>
     get_root_merkle_hash ex_env s = Ok root \<and> is_membership_proof_valid ex_env 7 p root = Ok True"
proof -
  obtain s where "push_all ex_env [5, 6, 7] = Ok s" using ex_store by blast
  from this membership_proof_accepted [OF ex_env_ok this, of 2] show ?thesis by auto
qed

text \<open>C33. Rolling a proof back: \<^verbatim>\<open>derive_proof_at_index\<close>, applied to the proof the store issues for an output,
  returns the proof that the store issued for it when it had just been appended, which is valid for the root
  hash of that time.\<close>

theorem derived_proof_historical:
  assumes "env_ok E" and "push_all E xs = Ok s" and "i < length xs"
    and "get_merkle_proof_of_membership E s (word_of_nat i) = Ok p"
  shows "\<exists>s0 p0 root. push_all E (take (i + 1) xs) = Ok s0 \<and> derive_proof_at_index E p = Ok p0 \<and>
     get_merkle_proof_of_membership E s0 (word_of_nat i) = Ok p0 \<and> get_root_merkle_hash E s0 = Ok root \<and>
     is_membership_proof_valid E (xs ! i) p0 root = Ok True"
proof -
  note rep = push_all_rep [OF assms(1,2)]
  let ?D = "ceil_log2 (length xs)" and ?ys = "take (i + 1) xs"
  have len: "length xs \<le> 2 ^ 63" using rep by (simp add: store_rep_def)
  from assms(2) have "push_all E (?ys @ drop (i + 1) xs) = Ok s" by simp
  then obtain s0 where s0: "push_all E ?ys = Ok s0"
    unfolding push_all_def try_fold_append by (auto elim!: outcome_elims)
  note rep0 = push_all_rep [OF assms(1) s0]
  have ys: "length ?ys = i + 1" using assms(3) by simp
  have "i < 2 ^ ?D" using assms(3) ceil_log2_bounds(1) [of "length xs"] by linarith
  then have d: "derive_proof_at_index E p = Ok \<lparr>mp_index = word_of_nat i, mp_highest_index = word_of_nat i,
      mp_elements = path_elements E ?ys i (ceil_log2 (i + 1))\<rparr>"
    using derive_path [OF assms(3) _ ceil_log2_le [OF len]] membership_rep [OF assms(1) rep assms(3)] assms(4) by simp
  have "is_membership_proof_valid E (?ys ! i)
      \<lparr>mp_index = word_of_nat i, mp_highest_index = word_of_nat i, mp_elements = path_elements E ?ys i (ceil_log2 (i + 1))\<rparr>
      (merkle_hash E ?ys (ceil_log2 (i + 1)) 0) = Ok True"
    using ys ceil_log2_bounds(1) [of "i + 1"] ceil_log2_le [of "i + 1" 63] assms(3) len
    by (intro path_proof_valid) linarith+
  with d s0 membership_rep [OF assms(1) rep0, of i] root_rep [OF assms(1) rep0] ys show ?thesis
    by (simp add: merkle_root_def)
qed

theorem derived_proof_historical_witness:
  "\<exists>s p s0 p0 root. push_all ex_env [5, 6, 7] = Ok s \<and> get_merkle_proof_of_membership ex_env s 1 = Ok p \<and>
     push_all ex_env [5, 6] = Ok s0 \<and> derive_proof_at_index ex_env p = Ok p0 \<and>
     get_merkle_proof_of_membership ex_env s0 1 = Ok p0 \<and> get_root_merkle_hash ex_env s0 = Ok root \<and>
     is_membership_proof_valid ex_env 6 p0 root = Ok True"
proof -
  obtain s where s: "push_all ex_env [5, 6, 7] = Ok s" using ex_store by blast
  from membership_rep [OF ex_env_ok push_all_rep [OF ex_env_ok s], of 1]
  obtain p where p: "get_merkle_proof_of_membership ex_env s 1 = Ok p" by simp
  from derived_proof_historical [OF ex_env_ok s, of 1 p] p s show ?thesis by auto
qed

text \<open>C32. Soundness: if the hash function has no collision among the strings hashed for the tree of the store and for
  the proof, then a proof that the validation accepts against the root hash of the store, for an output \<^term>\<open>x\<close>,
  shows that the store holds an output with the hash of \<^term>\<open>x\<close>, and that the store finds it by that hash.\<close>

theorem membership_proof_sound:
  assumes "env_ok E" and "push_all E xs = Ok s" and "get_root_merkle_hash E s = Ok root"
    and "is_membership_proof_valid E x p root = Ok True"
    and "list_all (\<lambda>e. is_hash (me_hash e)) (mp_elements p)"
    and "inj_on (blake2b256 E) (tree_preimages E xs (ceil_log2 (length xs)) 0 \<union> proof_preimages E x p)"
  shows "\<exists>i y. get_tx_out_index_by_hash s (tx_out_hash E x) = Ok i \<and> get_tx_out_by_index E s i = Ok y \<and>
     tx_out_hash E y = tx_out_hash E x"
proof -
  note rep = push_all_rep [OF assms(1,2)]
  have "root = merkle_hash E xs (ceil_log2 (length xs)) 0"
    using root_rep [OF assms(1) rep] assms(3) by (simp add: merkle_root_def)
  with assms(4) have "\<exists>y \<in> set xs. tx_out_hash E y = tx_out_hash E x"
    using proof_sound [OF _ assms(6) subset_refl _ assms(5)] assms(1) by (simp add: env_ok_def)
  then obtain i where "i < length xs" "tx_out_hash E (xs ! i) = tx_out_hash E x" by (auto simp: in_set_conv_nth)
  with store_rep_lookups [OF assms(1) rep, of i] show ?thesis by auto
qed
lemma ceil_log2_3: "ceil_log2 3 = 2" "ceil_log2 (Suc (Suc (Suc 0))) = 2"
proof -
  show "ceil_log2 3 = 2"
    unfolding ceil_log2_def by (rule Least_equality) (simp, rule ccontr, auto simp: not_le less_2_cases_iff)
  then show "ceil_log2 (Suc (Suc (Suc 0))) = 2" by (simp add: numeral_3_eq_3)
qed

definition ex_preimages :: "bytes list" where
  "ex_preimages =
     (let leaf = (\<lambda>x. TXOUT_MERKLE_LEAF_DOMAIN_TAG @ tx_out_hash ex_env x);
          node = (\<lambda>l r. TXOUT_MERKLE_NODE_DOMAIN_TAG @ l @ r);
          l = hash_nodes ex_env (hash_leaf ex_env 5) (hash_leaf ex_env 6);
          r = hash_nodes ex_env (hash_leaf ex_env 7) (hash_nil ex_env) in
      [leaf 5, leaf 6, leaf 7, TXOUT_MERKLE_NIL_DOMAIN_TAG, node (hash_leaf ex_env 5) (hash_leaf ex_env 6),
       node (hash_leaf ex_env 7) (hash_nil ex_env), node l r])"

lemma ex_preimages_distinct: "distinct (map (blake2b256 ex_env) ex_preimages)"
  by code_simp

lemma ex_tree_preimages: "tree_preimages ex_env [5, 6, 7] 2 0 \<subseteq> set ex_preimages"
  by (simp add: ex_preimages_def Let_def numeral_2_eq_2 hash_nodes_def)

lemma ex_path:
  "path_elements ex_env [5, 6, 7] 2 2 =
     [\<lparr>me_range = \<lparr>r_from = 2, r_to = 2\<rparr>, me_hash = hash_leaf ex_env 7\<rparr>,
      \<lparr>me_range = \<lparr>r_from = 3, r_to = 3\<rparr>, me_hash = hash_nil ex_env\<rparr>,
      \<lparr>me_range = \<lparr>r_from = 0, r_to = 1\<rparr>, me_hash = hash_nodes ex_env (hash_leaf ex_env 5) (hash_leaf ex_env 6)\<rparr>]"
  by (simp add: path_elements_def tree_element_def node_range_def sibling_def upt_rec [of _ 2])

lemma ex_proof_preimages:
  "proof_preimages ex_env 7 \<lparr>mp_index = 2, mp_highest_index = 2, mp_elements = path_elements ex_env [5, 6, 7] 2 2\<rparr>
    \<subseteq> set ex_preimages"
  by (simp add: proof_preimages_def ex_path compose_adjacent_membership_elements_def ex_preimages_def Let_def)

lemma ex_no_collision:
  "inj_on (blake2b256 ex_env)
     (tree_preimages ex_env [5, 6, 7] 2 0 \<union>
      proof_preimages ex_env 7 \<lparr>mp_index = 2, mp_highest_index = 2, mp_elements = path_elements ex_env [5, 6, 7] 2 2\<rparr>)"
proof (rule inj_on_subset)
  show "inj_on (blake2b256 ex_env) (set ex_preimages)"
    using ex_preimages_distinct by (simp add: distinct_map)
qed (intro Un_least ex_tree_preimages ex_proof_preimages)

theorem membership_proof_sound_witness:
  "\<exists>s i y. push_all ex_env [5, 6, 7] = Ok s \<and> get_tx_out_index_by_hash s (tx_out_hash ex_env 7) = Ok i \<and>
     get_tx_out_by_index ex_env s i = Ok y \<and> tx_out_hash ex_env y = tx_out_hash ex_env 7"
proof -
  let ?xs = "[5, 6, 7] :: u64 list"
  let ?p = "\<lparr>mp_index = 2, mp_highest_index = 2, mp_elements = path_elements ex_env ?xs 2 2\<rparr>"
  obtain s where s: "push_all ex_env ?xs = Ok s" using ex_store by blast
  have root: "get_root_merkle_hash ex_env s = Ok (merkle_hash ex_env ?xs 2 0)"
    using root_rep [OF ex_env_ok push_all_rep [OF ex_env_ok s]] by (simp add: merkle_root_def ceil_log2_3)
  have valid: "is_membership_proof_valid ex_env 7 ?p (merkle_hash ex_env ?xs 2 0) = Ok True"
    using path_proof_valid [of 2 ?xs 2 2 ex_env] by simp
  have hashes: "list_all (\<lambda>e. is_hash (me_hash e)) (mp_elements ?p)"
    using merkle_hash_is_hash [of ex_env ?xs] ex_env_ok
    by (simp add: env_ok_def path_elements_def tree_element_def list_all_iff del: merkle_hash.simps)
  from membership_proof_sound [OF ex_env_ok s root valid hashes] ex_no_collision s show ?thesis
    by (auto simp: ceil_log2_3)
qed

text \<open>C34. The index of an accepted proof is not authenticated: the sizes of the ranges beside the path are not checked,
  so against the root hash of a store of three outputs the validation accepts a proof for the third one that
  claims the index 5, although the store has no output with that index.\<close>

theorem proof_index_unauthenticated:
  assumes "env_ok E" and "push_all E [a, b, c] = Ok s"
  shows "\<exists>root p. get_root_merkle_hash E s = Ok root \<and> mp_index p = 5 \<and>
     is_membership_proof_valid E c p root = Ok True \<and> get_tx_out_by_index E s 5 = Err NotFound"
proof -
  let ?p = "\<lparr>mp_index = 5, mp_highest_index = 5, mp_elements =
    [\<lparr>me_range = \<lparr>r_from = 5, r_to = 5\<rparr>, me_hash = hash_leaf E c\<rparr>,
     \<lparr>me_range = \<lparr>r_from = 6, r_to = 6\<rparr>, me_hash = hash_nil E\<rparr>,
     \<lparr>me_range = \<lparr>r_from = 0, r_to = 4\<rparr>, me_hash = hash_nodes E (hash_leaf E a) (hash_leaf E b)\<rparr>]\<rparr>"
  note rep = push_all_rep [OF assms]
  let ?root = "hash_nodes E (hash_nodes E (hash_leaf E a) (hash_leaf E b)) (hash_nodes E (hash_leaf E c) (hash_nil E))"
  have "merkle_hash E [a, b, c] 2 0 = ?root" by (simp add: numeral_2_eq_2)
  then have root: "get_root_merkle_hash E s = Ok ?root"
    using root_rep [OF assms(1) rep] by (simp add: merkle_root_def ceil_log2_3)
  have valid: "is_membership_proof_valid E c ?p ?root = Ok True"
    by (simp add: is_membership_proof_valid_def compute_implied_merkle_root_def list_first_def
        compose_adjacent_membership_elements_def)
  have absent: "get_tx_out_by_index E s 5 = Err NotFound"
    using rep by (simp add: store_rep_def get_tx_out_by_index_def lm_get_def)
  have "mp_index ?p = 5" by simp
  with root valid absent show ?thesis by blast
qed

theorem proof_index_unauthenticated_witness:
  "\<exists>s root p. push_all ex_env [5, 6, 7] = Ok s \<and> get_root_merkle_hash ex_env s = Ok root \<and> mp_index p = 5 \<and>
     is_membership_proof_valid ex_env 7 p root = Ok True \<and> get_tx_out_by_index ex_env s 5 = Err NotFound"
  using ex_store proof_index_unauthenticated [OF ex_env_ok, of 5 6 7] by blast

end
