(* ===== verification/Crypto_Digestible.thy ===== *)
theory Crypto_Digestible
  imports Rust_Result
begin

section \<open>Digests of structured data (\<^verbatim>\<open>crypto/digestible\<close>)\<close>

text \<open>
  The hashing scheme of blocks, outputs and transactions: a value is written to a transcript of labelled messages,
  which Merlin (a crate outside the repository, an argument here) turns into a digest. The state of a transcript is
  the list of its messages. The theory models the calls of \<^verbatim>\<open>DigestTranscript\<close>, the abstract
  syntax trees of \<^verbatim>\<open>test-utils/src/inspect_ast.rs\<close>, the implementations of \<^verbatim>\<open>Digestible\<close> for the builtin types and
  what \<^verbatim>\<open>derive(Digestible)\<close> generates for a struct. The locale states the contract of \<^verbatim>\<open>Digestible\<close>: a value is
  written as one tree that determines it. A transcript determines its tree, so that digests are as
  collision resistant as Merlin.
\<close>

named_theorems digest_fields \<open>the fields of a digested struct\<close>

named_theorems digest_wf \<open>well-formedness of the trees of fields\<close>

type_synonym transcript = "(bytes \<times> bytes) list"

subsection \<open>The calls on a transcript\<close>

definition PRIMITIVE :: bytes where "PRIMITIVE = ascii ''prim''"

definition SEQUENCE :: bytes where "SEQUENCE = ascii ''seq''"

definition AGGREGATE :: bytes where "AGGREGATE = ascii ''agg''"

definition AGGREGATE_END :: bytes where "AGGREGATE_END = ascii ''agg-end''"

definition VARIANT :: bytes where "VARIANT = ascii ''var''"

definition NONE :: bytes where "NONE = ascii ''''"

lemmas separators = PRIMITIVE_def SEQUENCE_def AGGREGATE_def AGGREGATE_END_def VARIANT_def NONE_def

definition append_bytes :: "bytes \<Rightarrow> bytes \<Rightarrow> transcript \<Rightarrow> transcript" where
  "append_bytes context data t = t @ [(context, data)]"

definition append_primitive :: "bytes \<Rightarrow> bytes \<Rightarrow> bytes \<Rightarrow> transcript \<Rightarrow> transcript" where
  "append_primitive context typename data t = append_bytes typename data (append_bytes context PRIMITIVE t)"

definition append_seq_header :: "bytes \<Rightarrow> nat \<Rightarrow> transcript \<Rightarrow> transcript" where
  "append_seq_header context len t =
     append_bytes (ascii ''len'') (to_le_bytes 8 (word_of_nat len :: u64)) (append_bytes context SEQUENCE t)"

definition append_agg_header :: "bytes \<Rightarrow> bytes \<Rightarrow> transcript \<Rightarrow> transcript" where
  "append_agg_header context type_name t = append_bytes (ascii ''name'') type_name (append_bytes context AGGREGATE t)"

definition append_agg_closer :: "bytes \<Rightarrow> bytes \<Rightarrow> transcript \<Rightarrow> transcript" where
  "append_agg_closer context type_name t = append_bytes (ascii ''name'') type_name (append_bytes context AGGREGATE_END t)"

definition append_var_header :: "bytes \<Rightarrow> bytes \<Rightarrow> u32 \<Rightarrow> transcript \<Rightarrow> transcript" where
  "append_var_header context type_name which t =
     append_bytes (ascii ''which'') (to_le_bytes 4 which)
       (append_bytes (ascii ''name'') type_name (append_bytes context VARIANT t))"

definition append_none :: "bytes \<Rightarrow> transcript \<Rightarrow> transcript" where
  "append_none context t = append_bytes context NONE t"

lemmas append_calls = append_bytes_def append_primitive_def append_seq_header_def append_agg_header_def
  append_agg_closer_def append_var_header_def append_none_def

text \<open>
  Merlin: the label of a transcript, its messages and the label of the challenge give the digest.
\<close>

type_synonym merlin = "bytes \<Rightarrow> transcript \<Rightarrow> bytes \<Rightarrow> bytes"

definition extract_digest :: "merlin \<Rightarrow> bytes \<Rightarrow> transcript \<Rightarrow> bytes" where
  "extract_digest m label t = m label t (ascii ''digest32'')"

definition digest32 :: "merlin \<Rightarrow> (bytes \<Rightarrow> transcript \<Rightarrow> transcript) \<Rightarrow> bytes \<Rightarrow> bytes" where
  "digest32 m append_to_transcript context =
     extract_digest m (ascii ''digestible'') (append_to_transcript context [])"

subsection \<open>Abstract syntax trees\<close>

datatype ast_node =
    AstPrimitive bytes bytes bytes
  | AstNone bytes
  | AstSequence bytes "ast_node list"
  | AstAggregate bytes bytes "ast_node list"
  | AstVariant bytes bytes u32 ast_node

fun ast_append :: "ast_node \<Rightarrow> transcript \<Rightarrow> transcript" where
  "ast_append (AstPrimitive context type_name data) t = append_primitive context type_name data t"
| "ast_append (AstNone context) t = append_none context t"
| "ast_append (AstSequence context elems) t =
     fold (\<lambda>e t. ast_append e t) elems (append_seq_header context (length elems) t)"
| "ast_append (AstAggregate context name elems) t =
     append_agg_closer context name (fold (\<lambda>e t. ast_append e t) elems (append_agg_header context name t))"
| "ast_append (AstVariant context name which value) t = ast_append value (append_var_header context name which t)"

fun ast_context :: "ast_node \<Rightarrow> bytes" where
  "ast_context (AstPrimitive c _ _) = c"
| "ast_context (AstNone c) = c"
| "ast_context (AstSequence c _) = c"
| "ast_context (AstAggregate c _ _) = c"
| "ast_context (AstVariant c _ _ _) = c"

text \<open>The length of a sequence is written as a \<^verbatim>\<open>u64\<close>.\<close>

fun ast_wf :: "ast_node \<Rightarrow> bool" where
  "ast_wf (AstPrimitive _ _ _) = True"
| "ast_wf (AstNone _) = True"
| "ast_wf (AstSequence _ es) \<longleftrightarrow> length es < 2 ^ 64 \<and> list_all ast_wf es"
| "ast_wf (AstAggregate _ _ es) \<longleftrightarrow> list_all ast_wf es"
| "ast_wf (AstVariant _ _ _ v) \<longleftrightarrow> ast_wf v"

text \<open>The messages a tree adds.\<close>

fun messages :: "ast_node \<Rightarrow> transcript" where
  "messages (AstPrimitive c n d) = [(c, PRIMITIVE), (n, d)]"
| "messages (AstNone c) = [(c, NONE)]"
| "messages (AstSequence c es) =
     (c, SEQUENCE) # (ascii ''len'', to_le_bytes 8 (word_of_nat (length es) :: u64)) # concat (map messages es)"
| "messages (AstAggregate c n es) =
     (c, AGGREGATE) # (ascii ''name'', n) # concat (map messages es) @ [(c, AGGREGATE_END), (ascii ''name'', n)]"
| "messages (AstVariant c n w v) = (c, VARIANT) # (ascii ''name'', n) # (ascii ''which'', to_le_bytes 4 w) # messages v"

lemma fold_append_messages:
  "(\<And>e t. e \<in> set es \<Longrightarrow> f e t = t @ g e) \<Longrightarrow> fold f es t = t @ concat (map g es)"
  by (induction es arbitrary: t) auto

lemma ast_append_messages: "ast_append n t = t @ messages n"
proof (induction n arbitrary: t)
  case (AstSequence c es)
  then show ?case by (simp add: append_calls fold_append_messages [where g = messages])
next
  case (AstAggregate c n es)
  then show ?case by (simp add: append_calls fold_append_messages [where g = messages])
qed (simp_all add: append_calls)

text \<open>The first message of a tree tells its kind, and never closes an aggregate.\<close>

lemma messages_head: "\<exists>d ms. messages n = (ast_context n, d) # ms \<and> d \<noteq> AGGREGATE_END"
  by (cases n) (simp_all add: separators)

definition readable :: "ast_node \<Rightarrow> bool" where
  "readable a \<longleftrightarrow> (\<forall>b r s. ast_wf b \<longrightarrow> messages a @ r = messages b @ s \<longrightarrow> a = b \<and> r = s)"

lemma messages_lists_unique:
  assumes "list_all readable as" and "list_all ast_wf bs" and "concat (map messages as) @ r = concat (map messages bs) @ s"
    and "length as = length bs \<or> (\<exists>c d r' s'. r = (c, AGGREGATE_END) # r' \<and> s = (d, AGGREGATE_END) # s')"
  shows "as = bs \<and> r = s"
  using assms
proof (induction as arbitrary: bs)
  case Nil
  show ?case
  proof (cases bs)
    case (Cons b bs')
    with Nil.prems(3,4) messages_head [of b] show ?thesis by auto
  qed (use Nil.prems in simp)
next
  case (Cons a as)
  show ?case
  proof (cases bs)
    case Nil
    with Cons.prems(3,4) messages_head [of a] show ?thesis by auto
  next
    case bs: (Cons b bs')
    have "readable a" "ast_wf b" and "messages a @ concat (map messages as) @ r = messages b @ concat (map messages bs') @ s"
      using Cons.prems(1-3) by (simp_all add: bs)
    then have ab: "a = b" "concat (map messages as) @ r = concat (map messages bs') @ s"
      unfolding readable_def by blast+
    have "as = bs' \<and> r = s"
      using Cons.prems(1,2,4) ab(2) by (intro Cons.IH) (auto simp: bs)
    with ab bs show ?thesis by simp
  qed
qed

lemma wf_readable: "ast_wf a \<Longrightarrow> readable a"
proof (induction a)
  case (AstPrimitive c n d)
  show ?case unfolding readable_def
  proof (intro allI impI)
    fix b r s assume "messages (AstPrimitive c n d) @ r = messages b @ s"
    then show "AstPrimitive c n d = b \<and> r = s" by (cases b) (simp_all add: separators)
  qed
next
  case (AstNone c)
  show ?case unfolding readable_def
  proof (intro allI impI)
    fix b r s assume "messages (AstNone c) @ r = messages b @ s"
    then show "AstNone c = b \<and> r = s" by (cases b) (simp_all add: separators)
  qed
next
  case (AstSequence c es)
  show ?case unfolding readable_def
  proof (intro allI impI)
    fix b r s assume wf: "ast_wf b" and eq: "messages (AstSequence c es) @ r = messages b @ s"
    from eq obtain fs where b: "b = AstSequence c fs" by (cases b) (auto simp: separators)
    have len: "(word_of_nat (length es) :: u64) = word_of_nat (length fs)"
      and e: "concat (map messages es) @ r = concat (map messages fs) @ s"
      using eq by (simp_all add: b)
    have "length es = length fs"
      using arg_cong [OF len, of unat] AstSequence.prems wf by (simp add: b unat_of_nat_u64)
    moreover have "list_all readable es" using AstSequence by (simp add: list_all_iff)
    ultimately show "AstSequence c es = b \<and> r = s" using messages_lists_unique [OF _ _ e] wf by (simp add: b)
  qed
next
  case (AstAggregate c n es)
  let ?closer = "[(c, AGGREGATE_END), (ascii ''name'', n)]"
  show ?case unfolding readable_def
  proof (intro allI impI)
    fix b r s assume wf: "ast_wf b" and eq: "messages (AstAggregate c n es) @ r = messages b @ s"
    from eq obtain fs where b: "b = AstAggregate c n fs" by (cases b) (auto simp: separators)
    have "concat (map messages es) @ ?closer @ r = concat (map messages fs) @ ?closer @ s" using eq by (simp add: b)
    moreover have "list_all readable es" using AstAggregate by (simp add: list_all_iff)
    ultimately have "es = fs \<and> ?closer @ r = ?closer @ s" using wf by (intro messages_lists_unique) (simp_all add: b)
    then show "AstAggregate c n es = b \<and> r = s" by (simp add: b)
  qed
next
  case (AstVariant c n w v)
  then have v: "readable v" by simp
  show ?case unfolding readable_def
  proof (intro allI impI)
    fix b r s assume wf: "ast_wf b" and eq: "messages (AstVariant c n w v) @ r = messages b @ s"
    from eq obtain v' where b: "b = AstVariant c n w v'" by (cases b) (auto simp: separators)
    with wf eq v show "AstVariant c n w v = b \<and> r = s" by (simp add: readable_def)
  qed
qed

lemma messages_unique: "ast_wf a \<Longrightarrow> ast_wf b \<Longrightarrow> messages a @ r = messages b @ s \<Longrightarrow> a = b \<and> r = s"
  using wf_readable unfolding readable_def by blast

text \<open>
  C30. Non-malleability of the scheme. A transcript determines the tree that was written to it, and no
  transcript continues that of another tree: if the messages of one tree followed by more are those of
  another, the trees are equal and nothing follows.
\<close>

theorem ast_unambiguous:
  assumes "ast_wf a" and "ast_wf b" and "ast_append a t @ more = ast_append b t"
  shows "a = b \<and> more = []"
  using messages_unique [OF assms(1,2), of more "[]"] assms(3) by (simp add: ast_append_messages)

theorem ast_unambiguous_witness:
  "\<exists>a b. a = b \<and> ast_append a [] @ [] = ast_append b [] \<and> b = AstSequence [1] [AstNone [], AstPrimitive [2] [3] [4]]"
  using ast_unambiguous [of "AstSequence [1] [AstNone [], AstPrimitive [2] [3] [4]]"
      "AstSequence [1] [AstNone [], AstPrimitive [2] [3] [4]]" "[]" "[]"] by auto

subsection \<open>The contract of \<^verbatim>\<open>Digestible\<close>\<close>

text \<open>
  \<^term>\<open>app\<close> and \<^term>\<open>app_omit\<close> stand for \<^verbatim>\<open>append_to_transcript\<close> and \<^verbatim>\<open>append_to_transcript_allow_omit\<close>. \<^term>\<open>ok\<close> holds of
  the values of the Rust type, such as arrays of the right length. \<^term>\<open>omitted\<close> holds of the one value that
  may be left out of a struct.
\<close>

text \<open>A field of a struct adds its tree, or nothing.\<close>

definition field_node :: "('a \<Rightarrow> bool) \<Rightarrow> (bytes \<Rightarrow> 'a \<Rightarrow> ast_node) \<Rightarrow> bytes \<Rightarrow> 'a \<Rightarrow> ast_node option" where
  "field_node omitted node c x = (if omitted x then None else Some (node c x))"

definition named :: "bytes \<Rightarrow> ast_node option \<Rightarrow> bool" where
  "named c n \<longleftrightarrow> (\<forall>a. n = Some a \<longrightarrow> ast_context a = c)"

definition opt_append :: "ast_node option \<Rightarrow> transcript \<Rightarrow> transcript" where
  "opt_append n t = (case n of None \<Rightarrow> t | Some a \<Rightarrow> ast_append a t)"

locale digestible =
  fixes app :: "'a \<Rightarrow> bytes \<Rightarrow> transcript \<Rightarrow> transcript" and app_omit :: "'a \<Rightarrow> bytes \<Rightarrow> transcript \<Rightarrow> transcript"
    and node :: "bytes \<Rightarrow> 'a \<Rightarrow> ast_node" and omitted :: "'a \<Rightarrow> bool" and ok :: "'a \<Rightarrow> bool"
  assumes app_node: "app x c t = ast_append (node c x) t"
    and app_omit: "app_omit x c t = (if omitted x then t else app x c t)"
    and node_context: "ast_context (node c x) = c"
    and node_wf: "ok x \<Longrightarrow> ast_wf (node c x)"
    and node_inject: "ok x \<Longrightarrow> ok y \<Longrightarrow> node c x = node c y \<Longrightarrow> x = y"
    and omitted_unique: "ok x \<Longrightarrow> ok y \<Longrightarrow> omitted x \<Longrightarrow> omitted y \<Longrightarrow> x = y"
begin

lemma app_messages: "app x c t = t @ messages (node c x)"
  by (simp add: app_node ast_append_messages)

lemma app_unique:
  assumes "ok x" and "ok y" and "app x c t @ r = app y c t @ s"
  shows "x = y \<and> r = s"
proof -
  have "messages (node c x) @ r = messages (node c y) @ s" using assms(3) by (simp add: app_messages)
  from messages_unique [OF node_wf [OF assms(1)] node_wf [OF assms(2)] this] node_inject [OF assms(1,2)]
  show ?thesis by blast
qed

lemma app_inject: "ok x \<Longrightarrow> ok y \<Longrightarrow> app x c t = app y c t \<Longrightarrow> x = y"
  using app_unique [of x y c t "[]" "[]"] by simp

lemma field_write [digest_fields]: "app_omit x c = opt_append (field_node omitted node c x)"
  by (rule ext) (simp add: app_omit app_node opt_append_def field_node_def)

lemma field_named [digest_fields]: "named c (field_node omitted node c x)"
  by (simp add: named_def field_node_def node_context)

lemma field_wf [digest_wf]: "Some a = field_node omitted node c x \<Longrightarrow> ok x \<Longrightarrow> ast_wf a"
  by (auto simp: field_node_def node_wf split: if_splits)

lemma field_eq [digest_fields]: "ok x \<Longrightarrow> ok y \<Longrightarrow> field_node omitted node c x = field_node omitted node c y \<longleftrightarrow> x = y"
  using node_inject omitted_unique by (auto simp: field_node_def split: if_splits)

lemma digest_inject:
  assumes "ok x" and "ok y" and "digest32 m (app x) c = digest32 m (app y) c"
    and "inj_on (\<lambda>t. m (ascii ''digestible'') t (ascii ''digest32'')) {app x c [], app y c []}"
  shows "x = y"
  using assms by (intro app_inject [of x y c "[]"]) (auto simp: digest32_def extract_digest_def dest: inj_onD)

end

subsubsection \<open>Builtin types\<close>

definition append_u32 :: "u32 \<Rightarrow> bytes \<Rightarrow> transcript \<Rightarrow> transcript" where
  "append_u32 x c t = append_primitive c (ascii ''uint'') (to_le_bytes 4 x) t"

definition append_u64 :: "u64 \<Rightarrow> bytes \<Rightarrow> transcript \<Rightarrow> transcript" where
  "append_u64 x c t = append_primitive c (ascii ''uint'') (to_le_bytes 8 x) t"

definition append_slice :: "bytes \<Rightarrow> bytes \<Rightarrow> transcript \<Rightarrow> transcript" where
  "append_slice x c t = append_primitive c (ascii ''bytes'') x t"

definition append_slice_omit :: "bytes \<Rightarrow> bytes \<Rightarrow> transcript \<Rightarrow> transcript" where
  "append_slice_omit x c t = (if x \<noteq> [] then append_slice x c t else t)"

text \<open>A compressed curve point.\<close>

definition append_ristretto :: "bytes \<Rightarrow> bytes \<Rightarrow> transcript \<Rightarrow> transcript" where
  "append_ristretto x c t = append_primitive c (ascii ''ristretto'') x t"

definition append_list ::
  "('a \<Rightarrow> bytes \<Rightarrow> transcript \<Rightarrow> transcript) \<Rightarrow> 'a list \<Rightarrow> bytes \<Rightarrow> transcript \<Rightarrow> transcript" where
  "append_list f xs c t =
     (if xs = [] then append_none c t
      else fold (\<lambda>elem t. f elem (ascii '''') t) xs (append_seq_header c (length xs) t))"

definition append_list_omit ::
  "('a \<Rightarrow> bytes \<Rightarrow> transcript \<Rightarrow> transcript) \<Rightarrow> 'a list \<Rightarrow> bytes \<Rightarrow> transcript \<Rightarrow> transcript" where
  "append_list_omit f xs c t = (if xs \<noteq> [] then append_list f xs c t else t)"

definition append_option ::
  "('a \<Rightarrow> bytes \<Rightarrow> transcript \<Rightarrow> transcript) \<Rightarrow> 'a option \<Rightarrow> bytes \<Rightarrow> transcript \<Rightarrow> transcript" where
  "append_option f x c t = (case x of None \<Rightarrow> append_none c t | Some val \<Rightarrow> f val c t)"

definition append_option_omit ::
  "('a \<Rightarrow> bytes \<Rightarrow> transcript \<Rightarrow> transcript) \<Rightarrow> 'a option \<Rightarrow> bytes \<Rightarrow> transcript \<Rightarrow> transcript" where
  "append_option_omit f x c t = (case x of None \<Rightarrow> t | Some val \<Rightarrow> f val c t)"

definition u32_node :: "bytes \<Rightarrow> u32 \<Rightarrow> ast_node" where
  "u32_node c x = AstPrimitive c (ascii ''uint'') (to_le_bytes 4 x)"

definition u64_node :: "bytes \<Rightarrow> u64 \<Rightarrow> ast_node" where
  "u64_node c x = AstPrimitive c (ascii ''uint'') (to_le_bytes 8 x)"

abbreviation never :: "'a \<Rightarrow> bool" where
  "never \<equiv> (\<lambda>_. False)"

abbreviation always :: "'a \<Rightarrow> bool" where
  "always \<equiv> (\<lambda>_. True)"

interpretation dg_u32: digestible append_u32 append_u32 u32_node never always
  by unfold_locales (simp_all add: append_u32_def u32_node_def)

interpretation dg_u64: digestible append_u64 append_u64 u64_node never always
  by unfold_locales (simp_all add: append_u64_def u64_node_def)

interpretation dg_slice: digestible append_slice append_slice_omit "\<lambda>c. AstPrimitive c (ascii ''bytes'')" "\<lambda>x. x = []" always
  by unfold_locales (simp_all add: append_slice_def append_slice_omit_def)

interpretation dg_ristretto: digestible append_ristretto append_ristretto "\<lambda>c. AstPrimitive c (ascii ''ristretto'')" never always
  by unfold_locales (simp_all add: append_ristretto_def)

definition list_node :: "(bytes \<Rightarrow> 'a \<Rightarrow> ast_node) \<Rightarrow> bytes \<Rightarrow> 'a list \<Rightarrow> ast_node" where
  "list_node node c xs = (if xs = [] then AstNone c else AstSequence c (map (node (ascii '''')) xs))"

definition list_ok :: "('a \<Rightarrow> bool) \<Rightarrow> 'a list \<Rightarrow> bool" where
  "list_ok ok xs \<longleftrightarrow> length xs < 2 ^ 64 \<and> list_all ok xs"

definition option_node :: "(bytes \<Rightarrow> 'a \<Rightarrow> ast_node) \<Rightarrow> bytes \<Rightarrow> 'a option \<Rightarrow> ast_node" where
  "option_node node c x = (case x of None \<Rightarrow> AstNone c | Some v \<Rightarrow> node c v)"

definition option_ok :: "('a \<Rightarrow> bool) \<Rightarrow> 'a option \<Rightarrow> bool" where
  "option_ok ok x = (case x of None \<Rightarrow> True | Some v \<Rightarrow> ok v)"

lemma map_inject_on:
  "(\<And>x y. x \<in> set xs \<Longrightarrow> y \<in> set ys \<Longrightarrow> f x = f y \<Longrightarrow> x = y) \<Longrightarrow> map f xs = map f ys \<Longrightarrow> xs = ys"
  by (induction xs arbitrary: ys) (auto simp: Cons_eq_map_conv)

lemma append_list_node:
  assumes "\<And>x t. x \<in> set xs \<Longrightarrow> f x (ascii '''') t = ast_append (node (ascii '''') x) t"
  shows "append_list f xs c t = ast_append (list_node node c xs) t"
proof -
  have "fold (\<lambda>elem t. f elem (ascii '''') t) xs u = fold (\<lambda>e t. ast_append e t) (map (node (ascii '''')) xs) u" for u
    using assms by (induction xs arbitrary: u) auto
  then show ?thesis by (simp add: append_list_def list_node_def)
qed

lemma digestible_list:
  assumes "digestible app app_omit node omitted ok"
  shows "digestible (append_list app) (append_list_omit app) (list_node node) (\<lambda>xs. xs = []) (list_ok ok)"
proof -
  note d = digestible.app_node [OF assms] digestible.node_wf [OF assms] digestible.node_inject [OF assms]
  show ?thesis
  proof
    fix xs ys :: "'a list" and c t
    show "append_list app xs c t = ast_append (list_node node c xs) t" by (rule append_list_node) (rule d(1))
    show "ast_context (list_node node c xs) = c" by (simp add: list_node_def)
    show "list_ok ok xs \<Longrightarrow> ast_wf (list_node node c xs)" by (auto simp: list_ok_def list_node_def list_all_iff d(2))
    show "list_ok ok xs \<Longrightarrow> list_ok ok ys \<Longrightarrow> list_node node c xs = list_node node c ys \<Longrightarrow> xs = ys"
      by (auto simp: list_ok_def list_node_def list_all_iff split: if_splits intro: map_inject_on d(3))
  qed (simp_all add: append_list_omit_def)
qed

text \<open>
  An optional value is only told apart from its absence if the value itself is never left out and never written as
  the absence of data.
\<close>

lemma digestible_option:
  assumes "digestible app app_omit node omitted ok"
    and some: "\<And>v c. ok v \<Longrightarrow> \<not> omitted v \<and> node c v \<noteq> AstNone c"
  shows "digestible (append_option app) (append_option_omit app_omit) (option_node node)
    (\<lambda>x. case x of None \<Rightarrow> True | Some v \<Rightarrow> omitted v) (option_ok ok)"
proof -
  note d = digestible.app_node [OF assms(1)] digestible.app_omit [OF assms(1)] digestible.node_context [OF assms(1)]
    digestible.node_wf [OF assms(1)] digestible.node_inject [OF assms(1)]
  have e: "ok v \<Longrightarrow> AstNone c \<noteq> node c v" for v c using some [of v c] by auto
  show ?thesis
    by unfold_locales
      (auto simp: append_option_def append_option_omit_def option_node_def option_ok_def d(1-4) some e
        split: option.splits intro: d(5))
qed

subsubsection \<open>Derived implementations\<close>

text \<open>What \<^verbatim>\<open>derive(Digestible)\<close> generates for a struct: an aggregate with the fields in their order.\<close>

definition append_struct :: "string \<Rightarrow> (transcript \<Rightarrow> transcript) list \<Rightarrow> bytes \<Rightarrow> transcript \<Rightarrow> transcript" where
  "append_struct name fields c t =
     append_agg_closer c (ascii name) (fold (\<lambda>f t. f t) fields (append_agg_header c (ascii name) t))"

text \<open>A field with \<^verbatim>\<open>omit_when\<close>.\<close>

definition append_omit_when ::
  "'a \<Rightarrow> ('a \<Rightarrow> bytes \<Rightarrow> transcript \<Rightarrow> transcript) \<Rightarrow> 'a \<Rightarrow> bytes \<Rightarrow> transcript \<Rightarrow> transcript" where
  "append_omit_when v f x c t = (if x \<noteq> v then f x c t else t)"

fun present :: "'a option list \<Rightarrow> 'a list" where
  "present [] = []"
| "present (None # xs) = present xs"
| "present (Some x # xs) = x # present xs"

lemma set_present: "set (present xs) = {x. Some x \<in> set xs}"
  by (induction xs rule: present.induct) auto

definition struct_node :: "string \<Rightarrow> ast_node option list \<Rightarrow> bytes \<Rightarrow> ast_node" where
  "struct_node name ns c = AstAggregate c (ascii name) (present ns)"

interpretation dg_u64_nonzero: digestible append_u64 "append_omit_when 0 append_u64" u64_node "\<lambda>x. x = 0" always
  by unfold_locales (simp_all add: append_omit_when_def append_u64_def u64_node_def)

lemma append_struct_node:
  "append_struct name (map opt_append ns) c t = ast_append (struct_node name ns c) t"
proof -
  have "fold (\<lambda>f t. f t) (map opt_append ns) u = fold (\<lambda>e t. ast_append e t) (present ns) u" for u
  proof (induction ns arbitrary: u)
    case (Cons n ns)
    then show ?case by (cases n) (simp_all add: opt_append_def)
  qed simp
  then show ?thesis by (simp add: append_struct_def struct_node_def)
qed

text \<open>Fields with different names are told apart by their contexts, also when some are left out.\<close>

lemma named_filter: "list_all2 named cs ns \<Longrightarrow> a \<in> set (present ns) \<Longrightarrow> ast_context a \<in> set cs"
  by (induction cs ns rule: list_all2_induct) (auto simp: set_present named_def)

lemma named_fields_inject:
  assumes "list_all2 named cs ns" and "list_all2 named cs ms" and "distinct cs"
    and "present ns = present ms"
  shows "ns = ms"
  using assms
proof (induction cs arbitrary: ns ms)
  case (Cons c cs)
  then obtain n ns' m ms' where e: "ns = n # ns'" "ms = m # ms'" and nm: "named c n" "named c m"
    and l: "list_all2 named cs ns'" "list_all2 named cs ms'"
    by (auto simp: list_all2_Cons1)
  have notin: "a \<in> set (present ns') \<or> a \<in> set (present ms') \<Longrightarrow> ast_context a \<noteq> c" for a
    using named_filter [OF l(1)] named_filter [OF l(2)] Cons.prems(3) by auto
  consider "n = None" "m = None" | a where "n = None" "m = Some a" | a where "n = Some a" "m = None"
    | a b where "n = Some a" "m = Some b" by (cases n; cases m) auto
  then show ?case
  proof cases
    case 1
    with Cons.IH [OF l] Cons.prems(3,4) show ?thesis by (simp add: e)
  next
    case 2
    then have "a \<in> set (present ns')" using Cons.prems(4) by (simp add: e)
    with notin [of a] nm 2 show ?thesis by (simp add: named_def)
  next
    case 3
    then have "a \<in> set (present ms')" using arg_cong [OF Cons.prems(4), of set] by (auto simp: e)
    with notin [of a] nm 3 show ?thesis by (simp add: named_def)
  next
    case 4
    with Cons.IH [OF l] Cons.prems(3,4) show ?thesis by (simp add: e)
  qed
qed simp

lemma digestible_struct:
  assumes app: "\<And>x. app x = append_struct name (map opt_append (fnodes x))"
    and node: "\<And>c x. node c x = struct_node name (fnodes x) c"
    and names: "\<And>x. list_all2 named cs (fnodes x)" "distinct cs"
    and wf: "\<And>x a. ok x \<Longrightarrow> Some a \<in> set (fnodes x) \<Longrightarrow> ast_wf a"
    and inject: "\<And>x y. ok x \<Longrightarrow> ok y \<Longrightarrow> fnodes x = fnodes y \<Longrightarrow> x = y"
  shows "digestible app app node never ok"
proof
  fix x y c t
  show "app x c t = ast_append (node c x) t" by (simp add: app node append_struct_node)
  show "ast_context (node c x) = c" by (simp add: node struct_node_def)
  show "ok x \<Longrightarrow> ast_wf (node c x)" using wf by (auto simp: node struct_node_def list_all_iff set_present)
  show "ok x \<Longrightarrow> ok y \<Longrightarrow> node c x = node c y \<Longrightarrow> x = y"
    using named_fields_inject [OF names(1) names(1) names(2)] inject by (auto simp: node struct_node_def)
qed simp_all

end
