(* ===== verification/Tx_Digest.thy ===== *)
theory Tx_Digest
  imports Crypto_Digestible Tx_Rules
begin

section \<open>Digests of outputs and transaction prefixes\<close>

text \<open>
  What \<^verbatim>\<open>derive(Digestible)\<close> generates for the types of \<^verbatim>\<open>transaction/core/src/tx.rs\<close>, \<^verbatim>\<open>input_rules.rs\<close>,
  \<^verbatim>\<open>revealed_tx_out.rs\<close> and \<^verbatim>\<open>transaction/types/src/masked_amount\<close>, with the names the attributes give, and the hash of an
  output and of the prefix of a transaction. Each type is shown to satisfy the contract of \<^verbatim>\<open>Digestible\<close>: for each
  struct \<open>append_t\<close> is the generated code, \<open>t_fields\<close> the trees of its fields and \<open>t_node\<close> its tree.
\<close>

subsection \<open>Membership proofs\<close>

definition append_range :: "leaf_range \<Rightarrow> bytes \<Rightarrow> transcript \<Rightarrow> transcript" where
  "append_range r = append_struct ''Range''
     [append_u64 (r_from r) (ascii ''from''),
      append_u64 (r_to r) (ascii ''to'')]"

definition range_fields :: "leaf_range \<Rightarrow> ast_node option list" where
  "range_fields r =
     [field_node never u64_node (ascii ''from'') (r_from r),
      field_node never u64_node (ascii ''to'') (r_to r)]"

definition range_node :: "bytes \<Rightarrow> leaf_range \<Rightarrow> ast_node" where
  "range_node c r = struct_node ''Range'' (range_fields r) c"

interpretation dg_range: digestible append_range append_range range_node never always
  by (rule digestible_struct [where fnodes = range_fields and cs = "[ascii ''from'', ascii ''to'']"])
    (auto simp: append_range_def range_node_def range_fields_def digest_fields intro: leaf_range.equality dest: digest_wf)

definition append_element :: "membership_element \<Rightarrow> bytes \<Rightarrow> transcript \<Rightarrow> transcript" where
  "append_element e = append_struct ''TxOutMembershipElement''
     [append_range (me_range e) (ascii ''range''),
      append_slice_omit (me_hash e) (ascii ''hash'')]"

definition element_fields :: "membership_element \<Rightarrow> ast_node option list" where
  "element_fields e =
     [field_node never range_node (ascii ''range'') (me_range e),
      field_node (\<lambda>x. x = []) (\<lambda>c. AstPrimitive c (ascii ''bytes'')) (ascii ''hash'') (me_hash e)]"

definition element_node :: "bytes \<Rightarrow> membership_element \<Rightarrow> ast_node" where
  "element_node c e = struct_node ''TxOutMembershipElement'' (element_fields e) c"

interpretation dg_element: digestible append_element append_element element_node never always
  by (rule digestible_struct [where fnodes = element_fields and cs = "[ascii ''range'', ascii ''hash'']"])
    (auto simp: append_element_def element_node_def element_fields_def digest_fields intro: membership_element.equality dest: digest_wf)

interpretation dg_elements: digestible "append_list append_element" "append_list_omit append_element" "list_node element_node" "\<lambda>x. x = []"
  "list_ok always"
  by (rule digestible_list) (rule dg_element.digestible_axioms)

definition append_proof :: "membership_proof \<Rightarrow> bytes \<Rightarrow> transcript \<Rightarrow> transcript" where
  "append_proof p = append_struct ''TxOutMembershipProof''
     [append_u64 (mp_index p) (ascii ''index''),
      append_u64 (mp_highest_index p) (ascii ''highest_index''),
      append_list_omit append_element (mp_elements p) (ascii ''elements'')]"

definition proof_fields :: "membership_proof \<Rightarrow> ast_node option list" where
  "proof_fields p =
     [field_node never u64_node (ascii ''index'') (mp_index p),
      field_node never u64_node (ascii ''highest_index'') (mp_highest_index p),
      field_node (\<lambda>x. x = []) (list_node element_node) (ascii ''elements'') (mp_elements p)]"

definition proof_node :: "bytes \<Rightarrow> membership_proof \<Rightarrow> ast_node" where
  "proof_node c p = struct_node ''TxOutMembershipProof'' (proof_fields p) c"

definition proof_ok :: "membership_proof \<Rightarrow> bool" where
  "proof_ok p \<longleftrightarrow> list_ok always (mp_elements p)"

interpretation dg_proof: digestible append_proof append_proof proof_node never proof_ok
  by (rule digestible_struct [where fnodes = proof_fields and cs = "[ascii ''index'', ascii ''highest_index'', ascii ''elements'']"])
    (auto simp: append_proof_def proof_node_def proof_fields_def digest_fields proof_ok_def intro: membership_proof.equality dest: digest_wf)

interpretation dg_proofs: digestible "append_list append_proof" "append_list_omit append_proof" "list_node proof_node" "\<lambda>x. x = []"
  "list_ok proof_ok"
  by (rule digestible_list) (rule dg_proof.digestible_axioms)

subsection \<open>Masked amounts\<close>

definition append_amount_v1 :: "masked_amount_fields \<Rightarrow> bytes \<Rightarrow> transcript \<Rightarrow> transcript" where
  "append_amount_v1 m = append_struct ''Amount''
     [append_ristretto (ma_commitment m) (ascii ''commitment''),
      append_u64 (ma_masked_value m) (ascii ''masked_value''),
      append_slice_omit (ma_masked_token_id m) (ascii ''masked_token_id'')]"

definition amount_v1_fields :: "masked_amount_fields \<Rightarrow> ast_node option list" where
  "amount_v1_fields m =
     [field_node never (\<lambda>c. AstPrimitive c (ascii ''ristretto'')) (ascii ''commitment'') (ma_commitment m),
      field_node never u64_node (ascii ''masked_value'') (ma_masked_value m),
      field_node (\<lambda>x. x = []) (\<lambda>c. AstPrimitive c (ascii ''bytes'')) (ascii ''masked_token_id'') (ma_masked_token_id m)]"

definition amount_v1_node :: "bytes \<Rightarrow> masked_amount_fields \<Rightarrow> ast_node" where
  "amount_v1_node c m = struct_node ''Amount'' (amount_v1_fields m) c"

interpretation dg_amount_v1: digestible append_amount_v1 append_amount_v1 amount_v1_node never always
  by (rule digestible_struct [where fnodes = amount_v1_fields and cs = "[ascii ''commitment'', ascii ''masked_value'', ascii ''masked_token_id'']"])
    (auto simp: append_amount_v1_def amount_v1_node_def amount_v1_fields_def digest_fields intro: masked_amount_fields.equality dest: digest_wf)

definition append_amount_v2 :: "masked_amount_fields \<Rightarrow> bytes \<Rightarrow> transcript \<Rightarrow> transcript" where
  "append_amount_v2 m = append_struct ''MaskedAmountV2''
     [append_ristretto (ma_commitment m) (ascii ''commitment''),
      append_u64 (ma_masked_value m) (ascii ''masked_value''),
      append_slice_omit (ma_masked_token_id m) (ascii ''masked_token_id'')]"

definition amount_v2_fields :: "masked_amount_fields \<Rightarrow> ast_node option list" where
  "amount_v2_fields m =
     [field_node never (\<lambda>c. AstPrimitive c (ascii ''ristretto'')) (ascii ''commitment'') (ma_commitment m),
      field_node never u64_node (ascii ''masked_value'') (ma_masked_value m),
      field_node (\<lambda>x. x = []) (\<lambda>c. AstPrimitive c (ascii ''bytes'')) (ascii ''masked_token_id'') (ma_masked_token_id m)]"

definition amount_v2_node :: "bytes \<Rightarrow> masked_amount_fields \<Rightarrow> ast_node" where
  "amount_v2_node c m = struct_node ''MaskedAmountV2'' (amount_v2_fields m) c"

interpretation dg_amount_v2: digestible append_amount_v2 append_amount_v2 amount_v2_node never always
  by (rule digestible_struct [where fnodes = amount_v2_fields and cs = "[ascii ''commitment'', ascii ''masked_value'', ascii ''masked_token_id'']"])
    (auto simp: append_amount_v2_def amount_v2_node_def amount_v2_fields_def digest_fields intro: masked_amount_fields.equality dest: digest_wf)

text \<open>A transparent enum: the two versions are told apart by the names of their structs.\<close>

fun append_masked_amount :: "masked_amount \<Rightarrow> bytes \<Rightarrow> transcript \<Rightarrow> transcript" where
  "append_masked_amount (MaskedAmountV1 m) = append_amount_v1 m"
| "append_masked_amount (MaskedAmountV2 m) = append_amount_v2 m"

fun masked_amount_node :: "bytes \<Rightarrow> masked_amount \<Rightarrow> ast_node" where
  "masked_amount_node c (MaskedAmountV1 m) = amount_v1_node c m"
| "masked_amount_node c (MaskedAmountV2 m) = amount_v2_node c m"

interpretation dg_masked_amount: digestible append_masked_amount append_masked_amount masked_amount_node never always
proof
  fix x y c t
  show "append_masked_amount x c t = ast_append (masked_amount_node c x) t"
    by (cases x) (simp_all add: dg_amount_v1.app_node dg_amount_v2.app_node)
  show "ast_context (masked_amount_node c x) = c"
    by (cases x) (simp_all add: dg_amount_v1.node_context dg_amount_v2.node_context)
  show "ast_wf (masked_amount_node c x)"
    by (cases x) (simp_all add: dg_amount_v1.node_wf dg_amount_v2.node_wf)
  show "masked_amount_node c x = masked_amount_node c y \<Longrightarrow> x = y"
    using dg_amount_v1.node_inject dg_amount_v2.node_inject
    by (cases x; cases y) (auto simp: amount_v1_node_def amount_v2_node_def struct_node_def)
qed simp_all

lemma masked_amount_present: "masked_amount_node c m \<noteq> AstNone c"
  by (cases m) (simp_all add: amount_v1_node_def amount_v2_node_def struct_node_def)

interpretation dg_amount_option: digestible "append_option append_masked_amount" "append_option_omit append_masked_amount" "option_node masked_amount_node"
  "\<lambda>x. case x of None \<Rightarrow> True | Some v \<Rightarrow> False" "option_ok always"
  by (rule digestible_option) (rule dg_masked_amount.digestible_axioms, simp add: masked_amount_present)

subsection \<open>Outputs\<close>

text \<open>A tuple struct with one field.\<close>

definition append_memo :: "bytes \<Rightarrow> bytes \<Rightarrow> transcript \<Rightarrow> transcript" where
  "append_memo m = append_struct ''EncryptedMemo'' [append_slice_omit m (ascii ''0'')]"

definition memo_fields :: "bytes \<Rightarrow> ast_node option list" where
  "memo_fields m = [field_node (\<lambda>x. x = []) (\<lambda>c. AstPrimitive c (ascii ''bytes'')) (ascii ''0'') m]"

definition memo_node :: "bytes \<Rightarrow> bytes \<Rightarrow> ast_node" where
  "memo_node c m = struct_node ''EncryptedMemo'' (memo_fields m) c"

interpretation dg_memo: digestible append_memo append_memo memo_node never always
  by (rule digestible_struct [where fnodes = memo_fields and cs = "[ascii ''0'']"])
    (auto simp: append_memo_def memo_node_def memo_fields_def digest_fields dest: digest_wf)

interpretation dg_memo_option: digestible "append_option append_memo" "append_option_omit append_memo" "option_node memo_node"
  "\<lambda>x. case x of None \<Rightarrow> True | Some v \<Rightarrow> False" "option_ok always"
  by (rule digestible_option) (rule dg_memo.digestible_axioms, simp add: memo_node_def struct_node_def)

lemma option_ok_always [simp]: "option_ok always x"
  by (simp add: option_ok_def split: option.split)

definition append_tx_out :: "tx_out \<Rightarrow> bytes \<Rightarrow> transcript \<Rightarrow> transcript" where
  "append_tx_out out = append_struct ''TxOut''
     [append_option_omit append_masked_amount (out_masked_amount out) (ascii ''amount''),
      append_ristretto (out_target_key out) (ascii ''target_key''),
      append_ristretto (out_public_key out) (ascii ''public_key''),
      append_slice_omit (out_e_fog_hint out) (ascii ''e_fog_hint''),
      append_option_omit append_memo (out_e_memo out) (ascii ''e_memo'')]"

definition tx_out_fields :: "tx_out \<Rightarrow> ast_node option list" where
  "tx_out_fields out =
     [field_node (\<lambda>x. case x of None \<Rightarrow> True | Some v \<Rightarrow> False) (option_node masked_amount_node) (ascii ''amount'') (out_masked_amount out),
      field_node never (\<lambda>c. AstPrimitive c (ascii ''ristretto'')) (ascii ''target_key'') (out_target_key out),
      field_node never (\<lambda>c. AstPrimitive c (ascii ''ristretto'')) (ascii ''public_key'') (out_public_key out),
      field_node (\<lambda>x. x = []) (\<lambda>c. AstPrimitive c (ascii ''bytes'')) (ascii ''e_fog_hint'') (out_e_fog_hint out),
      field_node (\<lambda>x. case x of None \<Rightarrow> True | Some v \<Rightarrow> False) (option_node memo_node) (ascii ''e_memo'') (out_e_memo out)]"

definition tx_out_node :: "bytes \<Rightarrow> tx_out \<Rightarrow> ast_node" where
  "tx_out_node c out = struct_node ''TxOut'' (tx_out_fields out) c"

interpretation dg_tx_out: digestible append_tx_out append_tx_out tx_out_node never always
  by (rule digestible_struct [where fnodes = tx_out_fields and cs = "[ascii ''amount'', ascii ''target_key'', ascii ''public_key'', ascii ''e_fog_hint'', ascii ''e_memo'']"])
    (auto simp: append_tx_out_def tx_out_node_def tx_out_fields_def digest_fields intro: tx_out.equality dest: digest_wf)

interpretation dg_tx_outs: digestible "append_list append_tx_out" "append_list_omit append_tx_out" "list_node tx_out_node" "\<lambda>x. x = []"
  "list_ok always"
  by (rule digestible_list) (rule dg_tx_out.digestible_axioms)

definition tx_out_hash32 :: "merlin \<Rightarrow> tx_out \<Rightarrow> bytes" where
  "tx_out_hash32 m out = digest32 m (append_tx_out out) (ascii ''mobilecoin-txout'')"

subsection \<open>Inputs and prefixes\<close>

definition append_revealed :: "revealed_tx_out \<Rightarrow> bytes \<Rightarrow> transcript \<Rightarrow> transcript" where
  "append_revealed r = append_struct ''RevealedTxOut''
     [append_tx_out (rev_tx_out r) (ascii ''tx_out''),
      append_slice_omit (rev_amount_shared_secret r) (ascii ''amount_shared_secret'')]"

definition revealed_fields :: "revealed_tx_out \<Rightarrow> ast_node option list" where
  "revealed_fields r =
     [field_node never tx_out_node (ascii ''tx_out'') (rev_tx_out r),
      field_node (\<lambda>x. x = []) (\<lambda>c. AstPrimitive c (ascii ''bytes'')) (ascii ''amount_shared_secret'') (rev_amount_shared_secret r)]"

definition revealed_node :: "bytes \<Rightarrow> revealed_tx_out \<Rightarrow> ast_node" where
  "revealed_node c r = struct_node ''RevealedTxOut'' (revealed_fields r) c"

interpretation dg_revealed: digestible append_revealed append_revealed revealed_node never always
  by (rule digestible_struct [where fnodes = revealed_fields and cs = "[ascii ''tx_out'', ascii ''amount_shared_secret'']"])
    (auto simp: append_revealed_def revealed_node_def revealed_fields_def digest_fields intro: revealed_tx_out.equality dest: digest_wf)

interpretation dg_revealeds: digestible "append_list append_revealed" "append_list_omit append_revealed" "list_node revealed_node" "\<lambda>x. x = []"
  "list_ok always"
  by (rule digestible_list) (rule dg_revealed.digestible_axioms)

interpretation dg_revealed_option: digestible "append_option append_revealed" "append_option_omit append_revealed" "option_node revealed_node"
  "\<lambda>x. case x of None \<Rightarrow> True | Some v \<Rightarrow> False" "option_ok always"
  by (rule digestible_option) (rule dg_revealed.digestible_axioms, simp add: revealed_node_def struct_node_def)

definition append_rules :: "input_rules \<Rightarrow> bytes \<Rightarrow> transcript \<Rightarrow> transcript" where
  "append_rules r = append_struct ''InputRules''
     [append_list_omit append_tx_out (ir_required_outputs r) (ascii ''required_outputs''),
      append_u64 (ir_max_tombstone_block r) (ascii ''max_tombstone_block''),
      append_list_omit append_revealed (ir_partial_fill_outputs r) (ascii ''partial_fill_outputs''),
      append_option_omit append_revealed (ir_partial_fill_change r) (ascii ''partial_fill_change''),
      append_u64 (ir_min_partial_fill_value r) (ascii ''min_partial_fill_value'')]"

definition rules_fields :: "input_rules \<Rightarrow> ast_node option list" where
  "rules_fields r =
     [field_node (\<lambda>x. x = []) (list_node tx_out_node) (ascii ''required_outputs'') (ir_required_outputs r),
      field_node never u64_node (ascii ''max_tombstone_block'') (ir_max_tombstone_block r),
      field_node (\<lambda>x. x = []) (list_node revealed_node) (ascii ''partial_fill_outputs'') (ir_partial_fill_outputs r),
      field_node (\<lambda>x. case x of None \<Rightarrow> True | Some v \<Rightarrow> False) (option_node revealed_node) (ascii ''partial_fill_change'') (ir_partial_fill_change r),
      field_node never u64_node (ascii ''min_partial_fill_value'') (ir_min_partial_fill_value r)]"

definition rules_node :: "bytes \<Rightarrow> input_rules \<Rightarrow> ast_node" where
  "rules_node c r = struct_node ''InputRules'' (rules_fields r) c"

definition rules_ok :: "input_rules \<Rightarrow> bool" where
  "rules_ok r \<longleftrightarrow> list_ok always (ir_required_outputs r) \<and> list_ok always (ir_partial_fill_outputs r)"

interpretation dg_rules: digestible append_rules append_rules rules_node never rules_ok
  by (rule digestible_struct [where fnodes = rules_fields and cs = "[ascii ''required_outputs'', ascii ''max_tombstone_block'', ascii ''partial_fill_outputs'', ascii ''partial_fill_change'', ascii ''min_partial_fill_value'']"])
    (auto simp: append_rules_def rules_node_def rules_fields_def digest_fields rules_ok_def intro: input_rules.equality dest: digest_wf)

interpretation dg_rules_option: digestible "append_option append_rules" "append_option_omit append_rules" "option_node rules_node"
  "\<lambda>x. case x of None \<Rightarrow> True | Some v \<Rightarrow> False" "option_ok rules_ok"
  by (rule digestible_option) (rule dg_rules.digestible_axioms, simp add: rules_node_def struct_node_def)

definition append_tx_in :: "tx_in \<Rightarrow> bytes \<Rightarrow> transcript \<Rightarrow> transcript" where
  "append_tx_in i = append_struct ''TxIn''
     [append_list_omit append_tx_out (in_ring i) (ascii ''ring''),
      append_list_omit append_proof (in_proofs i) (ascii ''proofs''),
      append_option_omit append_rules (in_input_rules i) (ascii ''input_rules'')]"

definition tx_in_fields :: "tx_in \<Rightarrow> ast_node option list" where
  "tx_in_fields i =
     [field_node (\<lambda>x. x = []) (list_node tx_out_node) (ascii ''ring'') (in_ring i),
      field_node (\<lambda>x. x = []) (list_node proof_node) (ascii ''proofs'') (in_proofs i),
      field_node (\<lambda>x. case x of None \<Rightarrow> True | Some v \<Rightarrow> False) (option_node rules_node) (ascii ''input_rules'') (in_input_rules i)]"

definition tx_in_node :: "bytes \<Rightarrow> tx_in \<Rightarrow> ast_node" where
  "tx_in_node c i = struct_node ''TxIn'' (tx_in_fields i) c"

definition tx_in_ok :: "tx_in \<Rightarrow> bool" where
  "tx_in_ok i \<longleftrightarrow> list_ok always (in_ring i) \<and> list_ok proof_ok (in_proofs i) \<and> option_ok rules_ok (in_input_rules i)"

interpretation dg_tx_in: digestible append_tx_in append_tx_in tx_in_node never tx_in_ok
  by (rule digestible_struct [where fnodes = tx_in_fields and cs = "[ascii ''ring'', ascii ''proofs'', ascii ''input_rules'']"])
    (auto simp: append_tx_in_def tx_in_node_def tx_in_fields_def digest_fields tx_in_ok_def intro: tx_in.equality dest: digest_wf)

interpretation dg_tx_ins: digestible "append_list append_tx_in" "append_list_omit append_tx_in" "list_node tx_in_node" "\<lambda>x. x = []"
  "list_ok tx_in_ok"
  by (rule digestible_list) (rule dg_tx_in.digestible_axioms)

definition append_prefix :: "tx_prefix \<Rightarrow> bytes \<Rightarrow> transcript \<Rightarrow> transcript" where
  "append_prefix px = append_struct ''TxPrefix''
     [append_list_omit append_tx_in (px_inputs px) (ascii ''inputs''),
      append_list_omit append_tx_out (px_outputs px) (ascii ''outputs''),
      append_u64 (px_fee px) (ascii ''fee''),
      append_u64 (px_tombstone_block px) (ascii ''tombstone_block''),
      append_omit_when 0 append_u64 (px_fee_token_id px) (ascii ''fee_token_id'')]"

definition prefix_fields :: "tx_prefix \<Rightarrow> ast_node option list" where
  "prefix_fields px =
     [field_node (\<lambda>x. x = []) (list_node tx_in_node) (ascii ''inputs'') (px_inputs px),
      field_node (\<lambda>x. x = []) (list_node tx_out_node) (ascii ''outputs'') (px_outputs px),
      field_node never u64_node (ascii ''fee'') (px_fee px),
      field_node never u64_node (ascii ''tombstone_block'') (px_tombstone_block px),
      field_node (\<lambda>x. x = 0) u64_node (ascii ''fee_token_id'') (px_fee_token_id px)]"

definition prefix_node :: "bytes \<Rightarrow> tx_prefix \<Rightarrow> ast_node" where
  "prefix_node c px = struct_node ''TxPrefix'' (prefix_fields px) c"

definition prefix_ok :: "tx_prefix \<Rightarrow> bool" where
  "prefix_ok px \<longleftrightarrow> list_ok tx_in_ok (px_inputs px) \<and> list_ok always (px_outputs px)"

interpretation dg_prefix: digestible append_prefix append_prefix prefix_node never prefix_ok
  by (rule digestible_struct [where fnodes = prefix_fields and cs = "[ascii ''inputs'', ascii ''outputs'', ascii ''fee'', ascii ''tombstone_block'', ascii ''fee_token_id'']"])
    (auto simp: append_prefix_def prefix_node_def prefix_fields_def digest_fields prefix_ok_def intro: tx_prefix.equality dest: digest_wf)

definition tx_prefix_hash :: "merlin \<Rightarrow> tx_prefix \<Rightarrow> bytes" where
  "tx_prefix_hash m px = digest32 m (append_prefix px) (ascii ''mobilecoin-tx-prefix'')"

text \<open>The digest of \<^verbatim>\<open>TxIn::signed_digest\<close>, of an input whose proofs have been cleared.\<close>

definition tx_in_digest :: "merlin \<Rightarrow> tx_in \<Rightarrow> bytes" where
  "tx_in_digest m i = digest32 m (append_tx_in i) (ascii ''mc-input-rules-digest'')"

definition canonical_digest :: "merlin \<Rightarrow> input_rules \<Rightarrow> bytes" where
  "canonical_digest m r = digest32 m (append_rules r) (ascii ''mc-input-rules'')"

end
