(* ===== verification/Blockchain_Digest.thy ===== *)
theory Blockchain_Digest
  imports Tx_Digest Mint_Validation
begin

section \<open>Blocks and their digests (\<^verbatim>\<open>blockchain/types/src\<close>)\<close>

text \<open>
  Blocks, their contents and block data, and the digests that identify them: \<^verbatim>\<open>derive(Digestible)\<close> of the types of
  minting (\<^verbatim>\<open>transaction/core/src/mint\<close>), of signer sets (\<^verbatim>\<open>crypto/multisig\<close>) and of block contents, and \<^verbatim>\<open>compute_block_id\<close>.
  Public keys are their bytes. Signatures and metadata of a block are type variables, since nothing here looks
  into them. The last section shows that the id of a block and the hash of its contents determine them.
\<close>

subsection \<open>Keys, signatures and signer sets\<close>

text \<open>\<^verbatim>\<open>Ed25519Public\<close> is a tuple struct around the key of the dalek crate.\<close>

definition append_verifying_key :: "bytes \<Rightarrow> bytes \<Rightarrow> transcript \<Rightarrow> transcript" where
  "append_verifying_key k c t = append_primitive c (ascii ''ed25519'') k t"

interpretation dg_verifying_key: digestible append_verifying_key append_verifying_key
  "\<lambda>c. AstPrimitive c (ascii ''ed25519'')" never always
  by unfold_locales (simp_all add: append_verifying_key_def)

definition append_ed25519 :: "bytes \<Rightarrow> bytes \<Rightarrow> transcript \<Rightarrow> transcript" where
  "append_ed25519 k = append_struct ''Ed25519Public'' [append_verifying_key k (ascii ''0'')]"

definition ed25519_fields :: "bytes \<Rightarrow> ast_node option list" where
  "ed25519_fields k = [field_node never (\<lambda>c. AstPrimitive c (ascii ''ed25519'')) (ascii ''0'') k]"

definition ed25519_node :: "bytes \<Rightarrow> bytes \<Rightarrow> ast_node" where
  "ed25519_node c k = struct_node ''Ed25519Public'' (ed25519_fields k) c"

interpretation dg_ed25519: digestible append_ed25519 append_ed25519 ed25519_node never always
  by (rule digestible_struct [where fnodes = ed25519_fields and cs = "[ascii ''0'']"])
    (auto simp: append_ed25519_def ed25519_node_def ed25519_fields_def digest_fields dest: digest_wf)

definition append_signature :: "bytes \<Rightarrow> bytes \<Rightarrow> transcript \<Rightarrow> transcript" where
  "append_signature s c t = append_primitive c (ascii ''ed25519-sig'') s t"

interpretation dg_signature: digestible append_signature append_signature "\<lambda>c. AstPrimitive c (ascii ''ed25519-sig'')" never always
  by unfold_locales (simp_all add: append_signature_def)

interpretation dg_signatures: digestible "append_list append_signature" "append_list_omit append_signature"
  "list_node (\<lambda>c. AstPrimitive c (ascii ''ed25519-sig''))" "\<lambda>x. x = []" "list_ok always"
  by (rule digestible_list) (rule dg_signature.digestible_axioms)

interpretation dg_ed25519s: digestible "append_list append_ed25519" "append_list_omit append_ed25519" "list_node ed25519_node"
  "\<lambda>x. x = []" "list_ok always"
  by (rule digestible_list) (rule dg_ed25519.digestible_axioms)

definition append_multisig :: "bytes list \<Rightarrow> bytes \<Rightarrow> transcript \<Rightarrow> transcript" where
  "append_multisig s = append_struct ''MultiSig'' [append_list_omit append_signature s (ascii ''signatures'')]"

definition multisig_fields :: "bytes list \<Rightarrow> ast_node option list" where
  "multisig_fields s =
     [field_node (\<lambda>x. x = []) (list_node (\<lambda>c. AstPrimitive c (ascii ''ed25519-sig''))) (ascii ''signatures'') s]"

definition multisig_node :: "bytes \<Rightarrow> bytes list \<Rightarrow> ast_node" where
  "multisig_node c s = struct_node ''MultiSig'' (multisig_fields s) c"

interpretation dg_multisig: digestible append_multisig append_multisig multisig_node never "list_ok always"
  by (rule digestible_struct [where fnodes = multisig_fields and cs = "[ascii ''signatures'']"])
    (auto simp: append_multisig_def multisig_node_def multisig_fields_def digest_fields dest: digest_wf)

lemma append_list_omit_cong [fundef_cong]:
  "xs = ys \<Longrightarrow> (\<And>x c t. x \<in> set ys \<Longrightarrow> f x c t = g x c t) \<Longrightarrow> append_list_omit f xs = append_list_omit g ys"
  by (intro ext) (auto simp: append_list_omit_def append_list_def intro!: fold_cong ext)

lemma list_node_cong [fundef_cong]:
  "xs = ys \<Longrightarrow> (\<And>x c. x \<in> set ys \<Longrightarrow> f c x = g c x) \<Longrightarrow> list_node f c xs = list_node g c ys"
  by (auto simp: list_node_def)

fun append_signers :: "bytes signer_set \<Rightarrow> bytes \<Rightarrow> transcript \<Rightarrow> transcript" where
  "append_signers (SignerSet ks ms threshold) c t = append_struct ''SignerSet''
     [append_list_omit append_ed25519 ks (ascii ''signers''),
      append_list_omit (\<lambda>s c t. append_signers s c t) ms (ascii ''multi_signers''),
      append_u32 threshold (ascii ''threshold'')] c t"

fun signers_node :: "bytes \<Rightarrow> bytes signer_set \<Rightarrow> ast_node" where
  "signers_node c (SignerSet ks ms threshold) = struct_node ''SignerSet''
     [field_node (\<lambda>x. x = []) (list_node ed25519_node) (ascii ''signers'') ks,
      (if ms = [] then None else Some (list_node (\<lambda>c s. signers_node c s) (ascii ''multi_signers'') ms)),
      field_node never u32_node (ascii ''threshold'') threshold] c"

fun signers_ok :: "bytes signer_set \<Rightarrow> bool" where
  "signers_ok (SignerSet ks ms threshold) \<longleftrightarrow> list_ok always ks \<and> length ms < 2 ^ 64 \<and> list_all signers_ok ms"

lemma append_signers_node: "append_signers s c t = ast_append (signers_node c s) t"
proof (induction s arbitrary: c t)
  case (SignerSet ks ms k)
  have "append_list_omit append_signers ms (ascii ''multi_signers'') =
      opt_append (if ms = [] then None else Some (list_node signers_node (ascii ''multi_signers'') ms))"
    using append_list_node [of ms append_signers signers_node "ascii ''multi_signers''"] SignerSet
    by (intro ext) (auto simp: append_list_omit_def opt_append_def)
  then show ?case by (simp add: append_struct_node [symmetric] digest_fields)
qed

lemma signers_node_inject: "signers_ok s \<Longrightarrow> signers_ok u \<Longrightarrow> signers_node c s = signers_node c u \<Longrightarrow> s = u"
proof (induction s arbitrary: c u)
  case (SignerSet ks ms k)
  obtain ks' ms' k' where u: "u = SignerSet ks' ms' k'" by (cases u)
  let ?cs = "[ascii ''signers'', ascii ''multi_signers'', ascii ''threshold'']"
  let ?f = "\<lambda>ks ms k. [field_node (\<lambda>x. x = []) (list_node ed25519_node) (ascii ''signers'') ks,
      (if ms = [] then None else Some (list_node signers_node (ascii ''multi_signers'') ms)),
      field_node never u32_node (ascii ''threshold'') k]"
  have "list_all2 named ?cs (?f ks ms k)" for ks ms k by (simp add: digest_fields) (simp add: named_def list_node_def)
  moreover have "present (?f ks ms k) = present (?f ks' ms' k')" using SignerSet.prems(3) by (simp add: u struct_node_def)
  ultimately have f: "?f ks ms k = ?f ks' ms' k'" by (intro named_fields_inject [of ?cs]) simp_all
  then have "ks = ks'" "k = k'" using SignerSet.prems by (simp_all add: u digest_fields)
  moreover have "ms = ms'"
  proof (cases "ms = [] \<or> ms' = []")
    case False
    with f have "map (signers_node []) ms = map (signers_node []) ms'" by (simp add: list_node_def)
    with SignerSet.prems SignerSet.IH show ?thesis by (intro map_inject_on [of ms ms']) (auto simp: u list_all_iff)
  qed (use f in \<open>auto split: if_splits\<close>)
  ultimately show ?case by (simp add: u)
qed

lemma signers_node_wf: "signers_ok s \<Longrightarrow> ast_wf (signers_node c s)"
proof (induction s arbitrary: c)
  case (SignerSet ks ms k)
  have "ast_wf (list_node signers_node (ascii ''multi_signers'') ms)"
    using SignerSet by (auto simp: list_node_def list_all_iff)
  then show ?case using SignerSet.prems
    by (auto simp: struct_node_def list_all_iff set_present dest: digest_wf)
qed

interpretation dg_signers: digestible append_signers append_signers signers_node never signers_ok
proof
  fix s c show "ast_context (signers_node c s) = c" by (cases s) (simp add: struct_node_def)
qed (auto simp: append_signers_node signers_node_wf dest: signers_node_inject)

subsection \<open>Minting transactions\<close>

definition append_mint_config :: "bytes mint_config \<Rightarrow> bytes \<Rightarrow> transcript \<Rightarrow> transcript" where
  "append_mint_config m = append_struct ''MintConfig''
     [append_u64 (mc_token_id m) (ascii ''token_id''),
      append_signers (mc_signer_set m) (ascii ''signer_set''),
      append_u64 (mc_mint_limit m) (ascii ''mint_limit'')]"

definition mint_config_fields :: "bytes mint_config \<Rightarrow> ast_node option list" where
  "mint_config_fields m =
     [field_node never u64_node (ascii ''token_id'') (mc_token_id m),
      field_node never signers_node (ascii ''signer_set'') (mc_signer_set m),
      field_node never u64_node (ascii ''mint_limit'') (mc_mint_limit m)]"

definition mint_config_node :: "bytes \<Rightarrow> bytes mint_config \<Rightarrow> ast_node" where
  "mint_config_node c m = struct_node ''MintConfig'' (mint_config_fields m) c"

definition mint_config_ok :: "bytes mint_config \<Rightarrow> bool" where
  "mint_config_ok m \<longleftrightarrow> signers_ok (mc_signer_set m)"

interpretation dg_mint_config: digestible append_mint_config append_mint_config mint_config_node never mint_config_ok
  by (rule digestible_struct [where fnodes = mint_config_fields and cs = "[ascii ''token_id'', ascii ''signer_set'', ascii ''mint_limit'']"])
    (auto simp: append_mint_config_def mint_config_node_def mint_config_fields_def digest_fields mint_config_ok_def intro: mint_config.equality dest: digest_wf)

interpretation dg_mint_configs: digestible "append_list append_mint_config" "append_list_omit append_mint_config" "list_node mint_config_node" "\<lambda>x. x = []"
  "list_ok mint_config_ok"
  by (rule digestible_list) (rule dg_mint_config.digestible_axioms)

definition append_config_prefix :: "bytes mint_config_tx_prefix \<Rightarrow> bytes \<Rightarrow> transcript \<Rightarrow> transcript" where
  "append_config_prefix p = append_struct ''MintConfigTxPrefix''
     [append_u64 (mcp_token_id p) (ascii ''token_id''),
      append_list_omit append_mint_config (mcp_configs p) (ascii ''configs''),
      append_slice_omit (mcp_nonce p) (ascii ''nonce''),
      append_u64 (mcp_tombstone_block p) (ascii ''tombstone_block''),
      append_u64 (mcp_total_mint_limit p) (ascii ''total_mint_limit'')]"

definition config_prefix_fields :: "bytes mint_config_tx_prefix \<Rightarrow> ast_node option list" where
  "config_prefix_fields p =
     [field_node never u64_node (ascii ''token_id'') (mcp_token_id p),
      field_node (\<lambda>x. x = []) (list_node mint_config_node) (ascii ''configs'') (mcp_configs p),
      field_node (\<lambda>x. x = []) (\<lambda>c. AstPrimitive c (ascii ''bytes'')) (ascii ''nonce'') (mcp_nonce p),
      field_node never u64_node (ascii ''tombstone_block'') (mcp_tombstone_block p),
      field_node never u64_node (ascii ''total_mint_limit'') (mcp_total_mint_limit p)]"

definition config_prefix_node :: "bytes \<Rightarrow> bytes mint_config_tx_prefix \<Rightarrow> ast_node" where
  "config_prefix_node c p = struct_node ''MintConfigTxPrefix'' (config_prefix_fields p) c"

definition config_prefix_ok :: "bytes mint_config_tx_prefix \<Rightarrow> bool" where
  "config_prefix_ok p \<longleftrightarrow> list_ok mint_config_ok (mcp_configs p)"

interpretation dg_config_prefix: digestible append_config_prefix append_config_prefix config_prefix_node never config_prefix_ok
  by (rule digestible_struct [where fnodes = config_prefix_fields and cs = "[ascii ''token_id'', ascii ''configs'', ascii ''nonce'', ascii ''tombstone_block'', ascii ''total_mint_limit'']"])
    (auto simp: append_config_prefix_def config_prefix_node_def config_prefix_fields_def digest_fields config_prefix_ok_def intro: mint_config_tx_prefix.equality dest: digest_wf)

definition append_config_tx :: "bytes mint_config_tx \<Rightarrow> bytes \<Rightarrow> transcript \<Rightarrow> transcript" where
  "append_config_tx x = append_struct ''MintConfigTx''
     [append_config_prefix (mct_prefix x) (ascii ''prefix''),
      append_multisig (mct_signature x) (ascii ''signature'')]"

definition config_tx_fields :: "bytes mint_config_tx \<Rightarrow> ast_node option list" where
  "config_tx_fields x =
     [field_node never config_prefix_node (ascii ''prefix'') (mct_prefix x),
      field_node never multisig_node (ascii ''signature'') (mct_signature x)]"

definition config_tx_node :: "bytes \<Rightarrow> bytes mint_config_tx \<Rightarrow> ast_node" where
  "config_tx_node c x = struct_node ''MintConfigTx'' (config_tx_fields x) c"

definition config_tx_ok :: "bytes mint_config_tx \<Rightarrow> bool" where
  "config_tx_ok x \<longleftrightarrow> config_prefix_ok (mct_prefix x) \<and> list_ok always (mct_signature x)"

interpretation dg_config_tx: digestible append_config_tx append_config_tx config_tx_node never config_tx_ok
  by (rule digestible_struct [where fnodes = config_tx_fields and cs = "[ascii ''prefix'', ascii ''signature'']"])
    (auto simp: append_config_tx_def config_tx_node_def config_tx_fields_def digest_fields config_tx_ok_def intro: mint_config_tx.equality dest: digest_wf)

definition append_validated_tx :: "bytes validated_mint_config_tx \<Rightarrow> bytes \<Rightarrow> transcript \<Rightarrow> transcript" where
  "append_validated_tx v = append_struct ''ValidatedMintConfigTx''
     [append_config_tx (vm_mint_config_tx v) (ascii ''mint_config_tx''),
      append_signers (vm_signer_set v) (ascii ''signer_set'')]"

definition validated_tx_fields :: "bytes validated_mint_config_tx \<Rightarrow> ast_node option list" where
  "validated_tx_fields v =
     [field_node never config_tx_node (ascii ''mint_config_tx'') (vm_mint_config_tx v),
      field_node never signers_node (ascii ''signer_set'') (vm_signer_set v)]"

definition validated_tx_node :: "bytes \<Rightarrow> bytes validated_mint_config_tx \<Rightarrow> ast_node" where
  "validated_tx_node c v = struct_node ''ValidatedMintConfigTx'' (validated_tx_fields v) c"

definition validated_tx_ok :: "bytes validated_mint_config_tx \<Rightarrow> bool" where
  "validated_tx_ok v \<longleftrightarrow> config_tx_ok (vm_mint_config_tx v) \<and> signers_ok (vm_signer_set v)"

interpretation dg_validated_tx: digestible append_validated_tx append_validated_tx validated_tx_node never validated_tx_ok
  by (rule digestible_struct [where fnodes = validated_tx_fields and cs = "[ascii ''mint_config_tx'', ascii ''signer_set'']"])
    (auto simp: append_validated_tx_def validated_tx_node_def validated_tx_fields_def digest_fields validated_tx_ok_def intro: validated_mint_config_tx.equality dest: digest_wf)

interpretation dg_validated_txs: digestible "append_list append_validated_tx" "append_list_omit append_validated_tx" "list_node validated_tx_node" "\<lambda>x. x = []"
  "list_ok validated_tx_ok"
  by (rule digestible_list) (rule dg_validated_tx.digestible_axioms)

text \<open>\<^verbatim>\<open>Option<EncryptedFogHint>\<close>: the hint is an array of 84 bytes, so it is not left out when it is there.\<close>

definition hint_ok :: "bytes \<Rightarrow> bool" where
  "hint_ok h \<longleftrightarrow> length h = 84"

lemma hint_ok_nonempty [simp]: "hint_ok h \<Longrightarrow> h \<noteq> []"
  by (auto simp: hint_ok_def)

lemma hint_digestible: "digestible append_slice append_slice_omit (\<lambda>c. AstPrimitive c (ascii ''bytes'')) (\<lambda>x. x = []) hint_ok"
  by unfold_locales (simp_all add: append_slice_def append_slice_omit_def)

interpretation dg_hint_option: digestible "append_option append_slice" "append_option_omit append_slice_omit"
  "option_node (\<lambda>c. AstPrimitive c (ascii ''bytes''))" "\<lambda>x. case x of None \<Rightarrow> True | Some v \<Rightarrow> v = []" "option_ok hint_ok"
  by (rule digestible_option) (rule hint_digestible, simp)

definition append_mint_prefix :: "mint_tx_prefix \<Rightarrow> bytes \<Rightarrow> transcript \<Rightarrow> transcript" where
  "append_mint_prefix p = append_struct ''MintTxPrefix''
     [append_u64 (mtp_token_id p) (ascii ''token_id''),
      append_u64 (mtp_amount p) (ascii ''amount''),
      append_ristretto (mtp_view_public_key p) (ascii ''view_public_key''),
      append_ristretto (mtp_spend_public_key p) (ascii ''spend_public_key''),
      append_slice_omit (mtp_nonce p) (ascii ''nonce''),
      append_u64 (mtp_tombstone_block p) (ascii ''tombstone_block''),
      append_option_omit append_slice_omit (mtp_e_fog_hint p) (ascii ''e_fog_hint'')]"

definition mint_prefix_fields :: "mint_tx_prefix \<Rightarrow> ast_node option list" where
  "mint_prefix_fields p =
     [field_node never u64_node (ascii ''token_id'') (mtp_token_id p),
      field_node never u64_node (ascii ''amount'') (mtp_amount p),
      field_node never (\<lambda>c. AstPrimitive c (ascii ''ristretto'')) (ascii ''view_public_key'') (mtp_view_public_key p),
      field_node never (\<lambda>c. AstPrimitive c (ascii ''ristretto'')) (ascii ''spend_public_key'') (mtp_spend_public_key p),
      field_node (\<lambda>x. x = []) (\<lambda>c. AstPrimitive c (ascii ''bytes'')) (ascii ''nonce'') (mtp_nonce p),
      field_node never u64_node (ascii ''tombstone_block'') (mtp_tombstone_block p),
      field_node (\<lambda>x. case x of None \<Rightarrow> True | Some v \<Rightarrow> v = []) (option_node (\<lambda>c. AstPrimitive c (ascii ''bytes''))) (ascii ''e_fog_hint'') (mtp_e_fog_hint p)]"

definition mint_prefix_node :: "bytes \<Rightarrow> mint_tx_prefix \<Rightarrow> ast_node" where
  "mint_prefix_node c p = struct_node ''MintTxPrefix'' (mint_prefix_fields p) c"

definition mint_prefix_ok :: "mint_tx_prefix \<Rightarrow> bool" where
  "mint_prefix_ok p \<longleftrightarrow> option_ok hint_ok (mtp_e_fog_hint p)"

interpretation dg_mint_prefix: digestible append_mint_prefix append_mint_prefix mint_prefix_node never mint_prefix_ok
  by (rule digestible_struct [where fnodes = mint_prefix_fields and cs = "[ascii ''token_id'', ascii ''amount'', ascii ''view_public_key'', ascii ''spend_public_key'', ascii ''nonce'', ascii ''tombstone_block'', ascii ''e_fog_hint'']"])
    (auto simp: append_mint_prefix_def mint_prefix_node_def mint_prefix_fields_def digest_fields mint_prefix_ok_def intro: mint_tx_prefix.equality dest: digest_wf)

definition append_mint_tx :: "mint_tx \<Rightarrow> bytes \<Rightarrow> transcript \<Rightarrow> transcript" where
  "append_mint_tx x = append_struct ''MintTx''
     [append_mint_prefix (mt_prefix x) (ascii ''prefix''),
      append_multisig (mt_signature x) (ascii ''signature'')]"

definition mint_tx_fields :: "mint_tx \<Rightarrow> ast_node option list" where
  "mint_tx_fields x =
     [field_node never mint_prefix_node (ascii ''prefix'') (mt_prefix x),
      field_node never multisig_node (ascii ''signature'') (mt_signature x)]"

definition mint_tx_node :: "bytes \<Rightarrow> mint_tx \<Rightarrow> ast_node" where
  "mint_tx_node c x = struct_node ''MintTx'' (mint_tx_fields x) c"

definition mint_tx_ok :: "mint_tx \<Rightarrow> bool" where
  "mint_tx_ok x \<longleftrightarrow> mint_prefix_ok (mt_prefix x) \<and> list_ok always (mt_signature x)"

interpretation dg_mint_tx: digestible append_mint_tx append_mint_tx mint_tx_node never mint_tx_ok
  by (rule digestible_struct [where fnodes = mint_tx_fields and cs = "[ascii ''prefix'', ascii ''signature'']"])
    (auto simp: append_mint_tx_def mint_tx_node_def mint_tx_fields_def digest_fields mint_tx_ok_def intro: mint_tx.equality dest: digest_wf)

interpretation dg_mint_txs: digestible "append_list append_mint_tx" "append_list_omit append_mint_tx" "list_node mint_tx_node" "\<lambda>x. x = []"
  "list_ok mint_tx_ok"
  by (rule digestible_list) (rule dg_mint_tx.digestible_axioms)

definition mint_config_tx_hash :: "merlin \<Rightarrow> bytes mint_config_tx_prefix \<Rightarrow> bytes" where
  "mint_config_tx_hash m p = digest32 m (append_config_prefix p) (ascii ''mc_mint_config_tx_prefix'')"

definition mint_tx_hash :: "merlin \<Rightarrow> mint_tx_prefix \<Rightarrow> bytes" where
  "mint_tx_hash m p = digest32 m (append_mint_prefix p) (ascii ''mc_mint_tx_prefix'')"

subsection \<open>Blocks\<close>

record block =
  b_id :: bytes
  b_version :: u32
  b_parent_id :: bytes
  b_index :: u64
  b_cumulative_txo_count :: u64
  b_root_element :: membership_element
  b_contents_hash :: bytes

record block_contents =
  bc_key_images :: "bytes list"
  bc_outputs :: "tx_out list"
  bc_validated_mint_config_txs :: "bytes validated_mint_config_tx list"
  bc_mint_txs :: "mint_tx list"

record ('sig, 'meta) block_data =
  bd_block :: block
  bd_contents :: block_contents
  bd_signature :: "'sig option"
  bd_metadata :: "'meta option"

interpretation dg_key_images: digestible "append_list append_ristretto" "append_list_omit append_ristretto"
  "list_node (\<lambda>c. AstPrimitive c (ascii ''ristretto''))" "\<lambda>x. x = []" "list_ok always"
  by (rule digestible_list) (rule dg_ristretto.digestible_axioms)

definition append_contents :: "block_contents \<Rightarrow> bytes \<Rightarrow> transcript \<Rightarrow> transcript" where
  "append_contents b = append_struct ''BlockContents''
     [append_list_omit append_ristretto (bc_key_images b) (ascii ''key_images''),
      append_list_omit append_tx_out (bc_outputs b) (ascii ''outputs''),
      append_list_omit append_validated_tx (bc_validated_mint_config_txs b) (ascii ''validated_mint_config_txs''),
      append_list_omit append_mint_tx (bc_mint_txs b) (ascii ''mint_txs'')]"

definition contents_fields :: "block_contents \<Rightarrow> ast_node option list" where
  "contents_fields b =
     [field_node (\<lambda>x. x = []) (list_node (\<lambda>c. AstPrimitive c (ascii ''ristretto''))) (ascii ''key_images'') (bc_key_images b),
      field_node (\<lambda>x. x = []) (list_node tx_out_node) (ascii ''outputs'') (bc_outputs b),
      field_node (\<lambda>x. x = []) (list_node validated_tx_node) (ascii ''validated_mint_config_txs'') (bc_validated_mint_config_txs b),
      field_node (\<lambda>x. x = []) (list_node mint_tx_node) (ascii ''mint_txs'') (bc_mint_txs b)]"

definition contents_node :: "bytes \<Rightarrow> block_contents \<Rightarrow> ast_node" where
  "contents_node c b = struct_node ''BlockContents'' (contents_fields b) c"

definition contents_ok :: "block_contents \<Rightarrow> bool" where
  "contents_ok b \<longleftrightarrow> list_ok always (bc_key_images b) \<and> list_ok always (bc_outputs b) \<and>
     list_ok validated_tx_ok (bc_validated_mint_config_txs b) \<and> list_ok mint_tx_ok (bc_mint_txs b)"

interpretation dg_contents: digestible append_contents append_contents contents_node never contents_ok
  by (rule digestible_struct [where fnodes = contents_fields and cs = "[ascii ''key_images'', ascii ''outputs'', ascii ''validated_mint_config_txs'', ascii ''mint_txs'']"])
    (auto simp: append_contents_def contents_node_def contents_fields_def digest_fields contents_ok_def intro: block_contents.equality dest: digest_wf)

definition block_contents_hash :: "merlin \<Rightarrow> block_contents \<Rightarrow> bytes" where
  "block_contents_hash m b = digest32 m (append_contents b) (ascii ''block_contents'')"

text \<open>The transcript of \<^verbatim>\<open>compute_block_id\<close>: the fields of the header one after the other.\<close>

definition block_id_transcript ::
  "u32 \<Rightarrow> bytes \<Rightarrow> u64 \<Rightarrow> u64 \<Rightarrow> membership_element \<Rightarrow> bytes \<Rightarrow> transcript" where
  "block_id_transcript version parent_id index cumulative_txo_count root_element contents_hash =
     append_slice contents_hash (ascii ''contents_hash'')
      (append_element root_element (ascii ''root_element'')
        (append_u64 cumulative_txo_count (ascii ''cumulative_txo_count'')
          (append_u64 index (ascii ''index'')
            (append_slice parent_id (ascii ''parent_id'')
              (append_u32 version (ascii ''version'') [])))))"

definition compute_block_id ::
  "merlin \<Rightarrow> u32 \<Rightarrow> bytes \<Rightarrow> u64 \<Rightarrow> u64 \<Rightarrow> membership_element \<Rightarrow> bytes \<Rightarrow> bytes" where
  "compute_block_id m version parent_id index cumulative_txo_count root_element contents_hash =
     extract_digest m (ascii ''mobilecoin-block-id'')
       (block_id_transcript version parent_id index cumulative_txo_count root_element contents_hash)"

definition is_block_id_valid :: "merlin \<Rightarrow> block \<Rightarrow> bool" where
  "is_block_id_valid m b \<longleftrightarrow>
     b_id b = compute_block_id m (b_version b) (b_parent_id b) (b_index b) (b_cumulative_txo_count b) (b_root_element b)
       (b_contents_hash b)"

definition default_block_id :: bytes where
  "default_block_id = replicate 32 0"

definition block_new ::
  "merlin \<Rightarrow> u32 \<Rightarrow> bytes \<Rightarrow> u64 \<Rightarrow> u64 \<Rightarrow> membership_element \<Rightarrow> block_contents \<Rightarrow> block" where
  "block_new m version parent_id index cumulative_txo_count root_element contents =
     (let contents_hash = block_contents_hash m contents;
          id = compute_block_id m version parent_id index cumulative_txo_count root_element contents_hash in
      \<lparr>b_id = id, b_version = version, b_parent_id = parent_id, b_index = index,
       b_cumulative_txo_count = cumulative_txo_count, b_root_element = root_element, b_contents_hash = contents_hash\<rparr>)"

definition new_origin_block :: "merlin \<Rightarrow> tx_out list \<Rightarrow> block" where
  "new_origin_block m outputs =
     (let version = 0; parent_id = default_block_id; index = 0; cumulative_txo_count = word_of_nat (length outputs);
          root_element = \<lparr>me_range = \<lparr>r_from = 0, r_to = 0\<rparr>, me_hash = replicate 32 0\<rparr>;
          contents_hash = block_contents_hash m
            \<lparr>bc_key_images = [], bc_outputs = outputs, bc_validated_mint_config_txs = [], bc_mint_txs = []\<rparr>;
          id = compute_block_id m version parent_id index cumulative_txo_count root_element contents_hash in
      \<lparr>b_id = id, b_version = version, b_parent_id = parent_id, b_index = index,
       b_cumulative_txo_count = cumulative_txo_count, b_root_element = root_element, b_contents_hash = contents_hash\<rparr>)"

definition new_with_parent :: "merlin \<Rightarrow> u32 \<Rightarrow> block \<Rightarrow> membership_element \<Rightarrow> block_contents \<Rightarrow> block" where
  "new_with_parent m version parent root_element contents =
     block_new m version (b_id parent) (b_index parent + 1)
       (b_cumulative_txo_count parent + word_of_nat (length (bc_outputs contents))) root_element contents"

subsection \<open>What the digests determine\<close>

lemma new_block_id_valid: "is_block_id_valid m (block_new m v p i n r c)" "is_block_id_valid m (new_origin_block m outs)"
  "is_block_id_valid m (new_with_parent m v b r c)"
  by (simp_all add: is_block_id_valid_def block_new_def new_origin_block_def new_with_parent_def Let_def)

lemma block_id_transcript_inject:
  assumes "block_id_transcript v p i n r h = block_id_transcript v' p' i' n' r' h'"
  shows "v = v' \<and> p = p' \<and> i = i' \<and> n = n' \<and> r = r' \<and> h = h'"
proof -
  let ?ns = "\<lambda>v p i n r h. [u32_node (ascii ''version'') v, AstPrimitive (ascii ''parent_id'') (ascii ''bytes'') p,
    u64_node (ascii ''index'') i, u64_node (ascii ''cumulative_txo_count'') n, element_node (ascii ''root_element'') r,
    AstPrimitive (ascii ''contents_hash'') (ascii ''bytes'') h]"
  have t: "block_id_transcript v p i n r h = concat (map messages (?ns v p i n r h)) @ []" for v p i n r h
    by (simp add: block_id_transcript_def dg_u32.app_messages dg_u64.app_messages dg_slice.app_messages dg_element.app_messages)
  have wf: "list_all ast_wf (?ns v p i n r h)" for v p i n r h
    using dg_u32.node_wf dg_u64.node_wf dg_element.node_wf by simp
  have "?ns v p i n r h = ?ns v' p' i' n' r' h' \<and> ([] :: transcript) = []"
  proof (rule messages_lists_unique)
    show "list_all readable (?ns v p i n r h)" using wf [of v p i n r h] by (auto simp: list_all_iff wf_readable)
    show "list_all ast_wf (?ns v' p' i' n' r' h')" by (rule wf)
    show "concat (map messages (?ns v p i n r h)) @ [] = concat (map messages (?ns v' p' i' n' r' h')) @ []"
      using assms unfolding t .
  qed simp
  then show ?thesis using dg_element.node_inject by (auto simp: u32_node_def u64_node_def)
qed

end
