(* ===== verification/Ledger_Db.thy ===== *)
theory Ledger_Db
  imports Ledger_Mint_Store Ledger_Membership Blockchain_Digest
begin

section \<open>The ledger database (\<^verbatim>\<open>ledger/db/src/ledger_db.rs\<close>)\<close>

text \<open>
  The chain of blocks with its databases and stores. \<^verbatim>\<open>append_block\<close> writes in a transaction that is
  committed at its end; some of its checks read the committed database (\<open>self\<close>) and not the transaction, so
  both states are arguments of the steps. Digests, codecs and the verification of signatures are
  fields of the record of external functions. Metrics, telemetry and the opening of files are not modelled.
\<close>

subsection \<open>What is outside\<close>

text \<open>
  Merlin, Blake2b, the verification of one signature and the protobuf codecs are crates outside the repository or code
  the build generates. The stores get the environments built from them.
\<close>

record tx_outs_by_block_value =
  tv_first_tx_out_index :: u64
  tv_num_tx_outs :: u64

record ('sig, 'meta) ledger_env =
  le_merlin :: merlin
  le_blake2b256 :: "bytes \<Rightarrow> bytes"
  le_verify :: "bytes \<Rightarrow> bytes \<Rightarrow> bytes \<Rightarrow> bool"
  le_tx_out :: "tx_out codec"
  le_mint_codecs :: "bytes mint_codecs"
  le_block :: "block codec"
  le_signature :: "'sig codec"
  le_metadata :: "'meta codec"
  le_key_images :: "bytes list codec"
  le_tx_outs :: "tx_outs_by_block_value codec"

definition le_txo :: "('sig, 'meta) ledger_env \<Rightarrow> tx_out txo_env" where
  "le_txo E = \<lparr>blake2b256 = le_blake2b256 E, tx_out_hash = tx_out_hash32 (le_merlin E), public_key = out_public_key,
     encode = enc (le_tx_out E), decode = dec (le_tx_out E)\<rparr>"

definition le_mint :: "('sig, 'meta) ledger_env \<Rightarrow> bytes mint_env" where
  "le_mint E = \<lparr>mx_verify = le_verify E, mx_hash_config = mint_config_tx_hash (le_merlin E),
     mx_hash_tx = mint_tx_hash (le_merlin E)\<rparr>"

subsection \<open>The database\<close>

record ledger_db =
  ld_counts :: database
  ld_blocks :: database
  ld_block_signatures :: database
  ld_block_metadata :: database
  ld_key_images :: database
  ld_key_images_by_block :: database
  ld_tx_out_store :: tx_out_store
  ld_tx_outs_by_block :: database
  ld_block_number_by_tx_out_index :: database
  ld_mint_config_store :: mint_config_store
  ld_mint_tx_store :: mint_tx_store

definition NUM_BLOCKS_KEY :: bytes where
  "NUM_BLOCKS_KEY = ascii ''num_blocks''"

definition ledger_create :: ledger_db where
  "ledger_create =
     \<lparr>ld_counts = lm_put Map.empty NUM_BLOCKS_KEY (u64_to_key_bytes 0), ld_blocks = Map.empty,
      ld_block_signatures = Map.empty, ld_block_metadata = Map.empty, ld_key_images = Map.empty,
      ld_key_images_by_block = Map.empty, ld_tx_out_store = tx_out_store_create, ld_tx_outs_by_block = Map.empty,
      ld_block_number_by_tx_out_index = Map.empty, ld_mint_config_store = mint_config_store_create,
      ld_mint_tx_store = mint_tx_store_create\<rparr>"

definition num_blocks :: "ledger_db \<Rightarrow> u64 ledger" where
  "num_blocks L = and_then (lm_get (ld_counts L) NUM_BLOCKS_KEY) (\<lambda>bs. of_run (key_bytes_to_u64 bs))"

definition num_txos :: "ledger_db \<Rightarrow> u64 ledger" where
  "num_txos L = num_tx_outs (ld_tx_out_store L)"

definition get_block :: "('sig, 'meta) ledger_env \<Rightarrow> ledger_db \<Rightarrow> u64 \<Rightarrow> block ledger" where
  "get_block E L block_number = lm_get_dec (le_block E) (ld_blocks L) (u64_to_key_bytes block_number)"

definition get_block_signature :: "('sig, 'meta) ledger_env \<Rightarrow> ledger_db \<Rightarrow> u64 \<Rightarrow> 'sig ledger" where
  "get_block_signature E L block_number = lm_get_dec (le_signature E) (ld_block_signatures L) (u64_to_key_bytes block_number)"

definition get_block_metadata :: "('sig, 'meta) ledger_env \<Rightarrow> ledger_db \<Rightarrow> u64 \<Rightarrow> 'meta ledger" where
  "get_block_metadata E L block_number = lm_get_dec (le_metadata E) (ld_block_metadata L) (u64_to_key_bytes block_number)"

definition get_block_contents :: "('sig, 'meta) ledger_env \<Rightarrow> ledger_db \<Rightarrow> u64 \<Rightarrow> block_contents ledger" where
  "get_block_contents E L block_number =
     and_then (lm_get_dec (le_tx_outs E) (ld_tx_outs_by_block L) (u64_to_key_bytes block_number)) (\<lambda>value.
     and_then (try_map (get_tx_out_by_index (le_txo E) (ld_tx_out_store L))
         (map word_of_nat [unat (tv_first_tx_out_index value)..<unat (tv_first_tx_out_index value + tv_num_tx_outs value)]))
       (\<lambda>outputs.
     and_then (lm_get_dec (le_key_images E) (ld_key_images_by_block L) (u64_to_key_bytes block_number)) (\<lambda>images.
     and_then (get_validated_mint_config_txs_by_block_index (le_mint_codecs E) block_number (ld_mint_config_store L)) (\<lambda>configs.
     and_then (get_mint_txs_by_block_index (le_mint_codecs E) block_number (ld_mint_tx_store L)) (\<lambda>mint_txs.
     Ok \<lparr>bc_key_images = images, bc_outputs = outputs, bc_validated_mint_config_txs = configs,
         bc_mint_txs = mint_txs\<rparr>)))))"

text \<open>\<^verbatim>\<open>Err(NotFound)\<close> read as \<^verbatim>\<open>None\<close>.\<close>

definition optional :: "'a ledger \<Rightarrow> 'a option ledger" where
  "optional r = (case r of Ok a \<Rightarrow> Ok (Some a) | Err e \<Rightarrow> (if e = NotFound then Ok None else Err e) | Panic \<Rightarrow> Panic)"

definition get_block_data ::
  "('sig, 'meta) ledger_env \<Rightarrow> ledger_db \<Rightarrow> u64 \<Rightarrow> ('sig, 'meta) block_data ledger" where
  "get_block_data E L block_number =
     and_then (get_block E L block_number) (\<lambda>block.
     and_then (get_block_contents E L block_number) (\<lambda>contents.
     and_then (optional (get_block_signature E L block_number)) (\<lambda>signature.
     and_then (optional (get_block_metadata E L block_number)) (\<lambda>metadata.
     Ok \<lparr>bd_block = block, bd_contents = contents, bd_signature = signature, bd_metadata = metadata\<rparr>))))"

definition get_block_index_by_tx_out_index :: "ledger_db \<Rightarrow> u64 \<Rightarrow> u64 ledger" where
  "get_block_index_by_tx_out_index L tx_out_index =
     and_then (lm_get (ld_block_number_by_tx_out_index L) (u64_to_key_bytes tx_out_index)) (\<lambda>bs. of_run (key_bytes_to_u64 bs))"

definition contains_tx_out_public_key :: "ledger_db \<Rightarrow> bytes \<Rightarrow> bool ledger" where
  "contains_tx_out_public_key L tx_out_public_key =
     (case get_tx_out_index_by_public_key (ld_tx_out_store L) tx_out_public_key of
        Ok _ \<Rightarrow> Ok True | Err e \<Rightarrow> (if e = NotFound then Ok False else Err e) | Panic \<Rightarrow> Panic)"

definition from_le_bytes :: "bytes \<Rightarrow> u64" where
  "from_le_bytes bs = from_be_bytes (rev bs)"

definition check_key_image :: "ledger_db \<Rightarrow> bytes \<Rightarrow> u64 option ledger" where
  "check_key_image L key_image =
     (case ld_key_images L key_image of
        Some db_bytes \<Rightarrow> if length db_bytes = 8 then Ok (Some (from_le_bytes db_bytes)) else Panic
      | None \<Rightarrow> Ok None)"

definition contains_key_image :: "ledger_db \<Rightarrow> bytes \<Rightarrow> bool ledger" where
  "contains_key_image L key_image = and_then (check_key_image L key_image) (\<lambda>x. Ok (x \<noteq> None))"

definition get_key_images_by_block :: "('sig, 'meta) ledger_env \<Rightarrow> ledger_db \<Rightarrow> u64 \<Rightarrow> bytes list ledger" where
  "get_key_images_by_block E L block_number =
     lm_get_dec (le_key_images E) (ld_key_images_by_block L) (u64_to_key_bytes block_number)"

definition get_tx_out_proof_of_memberships ::
  "('sig, 'meta) ledger_env \<Rightarrow> ledger_db \<Rightarrow> u64 list \<Rightarrow> membership_proof list ledger" where
  "get_tx_out_proof_of_memberships E L indexes =
     try_map (get_merkle_proof_of_membership (le_txo E) (ld_tx_out_store L)) indexes"

definition get_root_tx_out_membership_element ::
  "('sig, 'meta) ledger_env \<Rightarrow> ledger_db \<Rightarrow> membership_element ledger" where
  "get_root_tx_out_membership_element E L =
     and_then (num_tx_outs (ld_tx_out_store L)) (\<lambda>num.
     if num = 0 then Err NoOutputs
     else and_then (get_root_merkle_hash (le_txo E) (ld_tx_out_store L)) (\<lambda>root_merkle_hash.
     and_then (ok_or CapacityExceeded (checked_next_power_of_two num)) (\<lambda>p.
     and_then (ledger_range 0 (p - 1)) (\<lambda>range.
     Ok \<lparr>me_range = range, me_hash = root_merkle_hash\<rparr>))))"

definition get_latest_block :: "('sig, 'meta) ledger_env \<Rightarrow> ledger_db \<Rightarrow> block ledger" where
  "get_latest_block E L = and_then (num_blocks L) (\<lambda>n. if n = 0 then Err NotFound else get_block E L (n - 1))"

subsection \<open>Appending a block\<close>

text \<open>\<^verbatim>\<open>Result::is_err\<close>.\<close>

definition outcome_is_err :: "('e, 'a) outcome \<Rightarrow> bool" where
  "outcome_is_err r = (case r of Err _ \<Rightarrow> True | _ \<Rightarrow> False)"

definition validate_position :: "('sig, 'meta) ledger_env \<Rightarrow> ledger_db \<Rightarrow> block \<Rightarrow> unit ledger" where
  "validate_position E self block =
     and_then (num_blocks self) (\<lambda>n.
     if n = 0 then
       if b_version block \<noteq> 0 then Err (InvalidBlockVersion (b_version block))
       else if b_index block \<noteq> 0 then Err (InvalidBlockIndex (b_index block))
       else if b_parent_id block \<noteq> default_block_id then Err (InvalidParentBlockID (b_id block))
       else Ok ()
     else and_then (get_block E self (n - 1)) (\<lambda>last_block.
       if b_version block < b_version last_block \<or> b_version block > BLOCK_VERSION_MAX
       then Err (InvalidBlockVersion (b_version block))
       else if b_index block \<noteq> n then Err (InvalidBlockIndex (b_index block))
       else if b_parent_id block \<noteq> b_id last_block then Err (InvalidParentBlockID (b_parent_id block))
       else Ok ()))"

definition validate_append_block ::
  "('sig, 'meta) ledger_env \<Rightarrow> ledger_db \<Rightarrow> block \<Rightarrow> block_contents \<Rightarrow> 'meta option \<Rightarrow> ledger_db \<Rightarrow> unit ledger" where
  "validate_append_block E self block contents metadata T =
     and_then (validate_position E self block) (\<lambda>_.
     let has_mint_config_txs = (bc_validated_mint_config_txs contents \<noteq> []);
         has_minting_txs = (bc_validated_mint_config_txs contents \<noteq> [] \<or> bc_mint_txs contents \<noteq> []) in
     if bc_outputs contents = [] \<and> \<not> has_mint_config_txs then Err NoOutputs
     else if length (bc_outputs contents) < length (bc_mint_txs contents) then Err TooFewOutputs
     else if b_index block \<noteq> 0 \<and> bc_key_images contents = [] \<and> \<not> has_minting_txs then Err NoKeyImages
     else if b_contents_hash block \<noteq> block_contents_hash (le_merlin E) contents then Err InvalidBlockContents
     else if list_ex (\<lambda>out. outcome_is_err (get_masked_amount out)) (bc_outputs contents) then Err MissingMaskedAmount
     else
       and_then (try_each (\<lambda>k. and_then (check_key_image T k) (\<lambda>x.
           if x \<noteq> None then Err KeyImageAlreadySpent else Ok ())) (bc_key_images contents)) (\<lambda>_.
       and_then (try_each (\<lambda>out. and_then (contains_tx_out_public_key T (out_public_key out)) (\<lambda>x.
           if x then Err DuplicateOutputPublicKey else Ok ())) (bc_outputs contents)) (\<lambda>_.
       if \<not> is_block_id_valid (le_merlin E) block then Err (InvalidBlockID (b_id block))
       else
         and_then (try_each (\<lambda>tx. and_then (check_mint_tx_nonce (mtp_token_id (mt_prefix tx)) (mtp_nonce (mt_prefix tx))
             (ld_mint_tx_store T)) (\<lambda>x. if x \<noteq> None then Err DuplicateMintTx else Ok ())) (bc_mint_txs contents)) (\<lambda>_.
         and_then (try_each (\<lambda>v. and_then (check_mint_config_tx_nonce (config_token v)
             (mcp_nonce (mct_prefix (vm_mint_config_tx v))) (ld_mint_config_store T))
             (\<lambda>x. if x \<noteq> None then Err DuplicateMintConfigTx else Ok ())) (bc_validated_mint_config_txs contents)) (\<lambda>_.
         and_then (map_err (\<lambda>_. InvalidBlockVersion (b_version block)) (block_version_try_from (b_version block)))
           (\<lambda>block_version.
         if require_block_metadata block_version \<and> metadata = None then Err BlockMetadataRequired
         else Ok ()))))))"

definition write_key_image :: "ledger_db \<Rightarrow> u64 \<Rightarrow> ledger_db \<Rightarrow> bytes \<Rightarrow> ledger_db ledger" where
  "write_key_image self block_index T key_image =
     and_then (contains_key_image self key_image) (\<lambda>spent.
     if spent then Err KeyImageAlreadySpent
     else Ok (T\<lparr>ld_key_images := lm_put (ld_key_images T) key_image (to_le_bytes 8 block_index)\<rparr>))"

definition write_key_images ::
  "('sig, 'meta) ledger_env \<Rightarrow> ledger_db \<Rightarrow> u64 \<Rightarrow> bytes list \<Rightarrow> ledger_db \<Rightarrow> ledger_db ledger" where
  "write_key_images E self block_index images T =
     and_then (try_fold (write_key_image self block_index) T images) (\<lambda>T.
     Ok (T\<lparr>ld_key_images_by_block :=
       lm_put (ld_key_images_by_block T) (u64_to_key_bytes block_index) (enc (le_key_images E) images)\<rparr>))"

definition write_tx_out ::
  "('sig, 'meta) ledger_env \<Rightarrow> ledger_db \<Rightarrow> bytes \<Rightarrow> ledger_db \<Rightarrow> tx_out \<Rightarrow> ledger_db ledger" where
  "write_tx_out E self block_index_bytes T out =
     and_then (contains_tx_out_public_key self (out_public_key out)) (\<lambda>found.
     if found then Err DuplicateOutputPublicKey
     else and_then (tx_out_store_push (le_txo E) (ld_tx_out_store T) out) (\<lambda>(tx_out_index, s).
     and_then (lm_put_new (ld_block_number_by_tx_out_index T) (u64_to_key_bytes tx_out_index) block_index_bytes) (\<lambda>db.
     Ok (T\<lparr>ld_tx_out_store := s, ld_block_number_by_tx_out_index := db\<rparr>))))"

definition write_tx_outs ::
  "('sig, 'meta) ledger_env \<Rightarrow> ledger_db \<Rightarrow> u64 \<Rightarrow> tx_out list \<Rightarrow> ledger_db \<Rightarrow> ledger_db ledger" where
  "write_tx_outs E self block_index outs T =
     and_then (num_tx_outs (ld_tx_out_store T)) (\<lambda>next_tx_out_index.
     let bs = enc (le_tx_outs E) \<lparr>tv_first_tx_out_index = next_tx_out_index, tv_num_tx_outs = word_of_nat (length outs)\<rparr> in
     try_fold (write_tx_out E self (u64_to_key_bytes block_index))
       (T\<lparr>ld_tx_outs_by_block := lm_put (ld_tx_outs_by_block T) (u64_to_key_bytes block_index) bs\<rparr>) outs)"

definition write_block ::
  "('sig, 'meta) ledger_env \<Rightarrow> block \<Rightarrow> 'sig option \<Rightarrow> 'meta option \<Rightarrow> ledger_db \<Rightarrow> ledger_db ledger" where
  "write_block E block signature metadata T =
     and_then (lm_get (ld_counts T) NUM_BLOCKS_KEY) (\<lambda>bs.
     and_then (of_run (key_bytes_to_u64 bs)) (\<lambda>num_blocks_before.
     let k = u64_to_key_bytes (b_index block) in
     Ok (T\<lparr>ld_counts := lm_put (ld_counts T) NUM_BLOCKS_KEY (u64_to_key_bytes (num_blocks_before + 1)),
           ld_blocks := lm_put (ld_blocks T) k (enc (le_block E) block),
           ld_block_signatures := (case signature of
               Some s \<Rightarrow> lm_put (ld_block_signatures T) k (enc (le_signature E) s) | None \<Rightarrow> ld_block_signatures T),
           ld_block_metadata := (case metadata of
               Some m \<Rightarrow> lm_put (ld_block_metadata T) k (enc (le_metadata E) m) | None \<Rightarrow> ld_block_metadata T)\<rparr>)))"

definition append_block ::
  "('sig, 'meta) ledger_env \<Rightarrow> ledger_db \<Rightarrow> block \<Rightarrow> block_contents \<Rightarrow> 'sig option \<Rightarrow> 'meta option \<Rightarrow>
   ledger_db ledger" where
  "append_block E self block contents signature metadata =
     and_then (validate_append_block E self block contents metadata self) (\<lambda>_.
     and_then (write_key_images E self (b_index block) (bc_key_images contents) self) (\<lambda>T.
     and_then (write_tx_outs E self (b_index block) (bc_outputs contents) T) (\<lambda>T.
     and_then (write_mint_txs (le_mint E) (le_mint_codecs E) (b_index block) (bc_mint_txs contents)
         (ld_mint_config_store T, ld_mint_tx_store T)) (\<lambda>(cs, ts).
     and_then (write_validated_mint_config_txs (le_mint_codecs E) (b_index block) (bc_validated_mint_config_txs contents) cs)
       (\<lambda>cs.
     write_block E block signature metadata (T\<lparr>ld_mint_config_store := cs, ld_mint_tx_store := ts\<rparr>))))))"

definition append_block_data ::
  "('sig, 'meta) ledger_env \<Rightarrow> ledger_db \<Rightarrow> ('sig, 'meta) block_data \<Rightarrow> ledger_db ledger" where
  "append_block_data E L d = append_block E L (bd_block d) (bd_contents d) (bd_signature d) (bd_metadata d)"
end
