(* ===== verification/Ledger_Db_Inv.thy ===== *)
theory Ledger_Db_Inv
  imports Ledger_Db
begin

section \<open>The ledger as a sequence of blocks\<close>

text \<open>
  The abstract ledger is the list of the block data that were appended. \<open>ledger_rep\<close> says what each database holds
  of it; it is established by the creation of the database and kept by every successful \<^verbatim>\<open>append_block\<close>.
\<close>

subsection \<open>What the databases hold\<close>

definition ledger_env_ok :: "('sig, 'meta) ledger_env \<Rightarrow> bool" where
  "ledger_env_ok E \<longleftrightarrow> env_ok (le_txo E) \<and> codec_ok (le_block E) \<and> codec_ok (le_signature E) \<and> codec_ok (le_metadata E) \<and>
     codec_ok (le_key_images E) \<and> codec_ok (le_tx_outs E) \<and> codec_ok (mk_active (le_mint_codecs E)) \<and>
     codec_ok (mk_configs (le_mint_codecs E)) \<and> codec_ok (mk_mints (le_mint_codecs E))"

abbreviation outputs_of :: "('sig, 'meta) block_data \<Rightarrow> tx_out list" where
  "outputs_of d \<equiv> bc_outputs (bd_contents d)"

abbreviation images_of :: "('sig, 'meta) block_data \<Rightarrow> bytes list" where
  "images_of d \<equiv> bc_key_images (bd_contents d)"

abbreviation mints_of :: "('sig, 'meta) block_data \<Rightarrow> mint_tx list" where
  "mints_of d \<equiv> bc_mint_txs (bd_contents d)"

abbreviation configs_of :: "('sig, 'meta) block_data \<Rightarrow> bytes validated_mint_config_tx list" where
  "configs_of d \<equiv> bc_validated_mint_config_txs (bd_contents d)"

definition all_outputs :: "('sig, 'meta) block_data list \<Rightarrow> tx_out list" where
  "all_outputs hist = concat (map outputs_of hist)"

text \<open>The block of each output, and the range of the outputs of each block.\<close>

definition output_blocks :: "('sig, 'meta) block_data list \<Rightarrow> u64 list" where
  "output_blocks hist = concat (map (\<lambda>i. replicate (length (outputs_of (hist ! i))) (word_of_nat i)) [0..<length hist])"

definition output_ranges :: "('sig, 'meta) block_data list \<Rightarrow> tx_outs_by_block_value list" where
  "output_ranges hist = map (\<lambda>i. \<lparr>tv_first_tx_out_index = word_of_nat (length (all_outputs (take i hist))),
     tv_num_tx_outs = word_of_nat (length (outputs_of (hist ! i)))\<rparr>) [0..<length hist]"

text \<open>The items of all blocks with the index of their block, the newest block first.\<close>

definition by_block ::
  "(u64 \<Rightarrow> ('sig, 'meta) block_data \<Rightarrow> 'a list) \<Rightarrow> ('sig, 'meta) block_data list \<Rightarrow> 'a list" where
  "by_block f hist = concat (map (\<lambda>i. f (word_of_nat i) (hist ! i)) (rev [0..<length hist]))"

abbreviation spent :: "('sig, 'meta) block_data list \<Rightarrow> (bytes \<times> u64) list" where
  "spent \<equiv> by_block (\<lambda>i d. map (\<lambda>k. (k, i)) (images_of d))"

abbreviation mint_nonces :: "('sig, 'meta) block_data list \<Rightarrow> ((bytes \<times> u64) \<times> u64) list" where
  "mint_nonces \<equiv> by_block (\<lambda>i d. rev (map (mint_nonce i) (mints_of d)))"

abbreviation config_nonces :: "('sig, 'meta) block_data list \<Rightarrow> ((bytes \<times> u64) \<times> u64) list" where
  "config_nonces \<equiv> by_block (\<lambda>i d. rev (map (config_nonce i) (configs_of d)))"

text \<open>The checks every block passes when it is appended to the blocks before it.\<close>

definition linked :: "('sig, 'meta) ledger_env \<Rightarrow> ('sig, 'meta) block_data list \<Rightarrow> ('sig, 'meta) block_data \<Rightarrow> bool" where
  "linked E hist d \<longleftrightarrow> (let b = bd_block d in
     b_index b = word_of_nat (length hist) \<and> b_version b \<le> BLOCK_VERSION_MAX \<and>
     (if hist = [] then b_version b = 0 \<and> b_parent_id b = default_block_id
      else b_version (bd_block (last hist)) \<le> b_version b \<and> b_parent_id b = b_id (bd_block (last hist))) \<and>
     is_block_id_valid (le_merlin E) b \<and> b_contents_hash b = block_contents_hash (le_merlin E) (bd_contents d))"

definition populated :: "('sig, 'meta) block_data \<Rightarrow> bool" where
  "populated d \<longleftrightarrow> (outputs_of d \<noteq> [] \<or> configs_of d \<noteq> []) \<and> length (mints_of d) \<le> length (outputs_of d) \<and>
     (b_index (bd_block d) = 0 \<or> images_of d \<noteq> [] \<or> configs_of d \<noteq> [] \<or> mints_of d \<noteq> []) \<and>
     list_all (\<lambda>out. out_masked_amount out \<noteq> None) (outputs_of d) \<and>
     (require_block_metadata (b_version (bd_block d)) \<longrightarrow> bd_metadata d \<noteq> None)"

definition unspent :: "('sig, 'meta) block_data list \<Rightarrow> ('sig, 'meta) block_data \<Rightarrow> bool" where
  "unspent hist d \<longleftrightarrow> set (images_of d) \<inter> fst ` set (spent hist) = {}"

definition chain_ok :: "('sig, 'meta) ledger_env \<Rightarrow> ('sig, 'meta) block_data list \<Rightarrow> bool" where
  "chain_ok E hist \<longleftrightarrow> (\<forall>i < length hist. linked E (take i hist) (hist ! i) \<and> populated (hist ! i) \<and> unspent (take i hist) (hist ! i))"

text \<open>The databases keyed by the index of a block.\<close>

definition block_logs :: "('sig, 'meta) ledger_env \<Rightarrow> ('sig, 'meta) block_data list \<Rightarrow> ledger_db \<Rightarrow> bool" where
  "block_logs E hist L \<longleftrightarrow>
     holds u64_to_key_bytes (ld_blocks L) (log_of (\<lambda>d. Some (enc (le_block E) (bd_block d))) hist) \<and>
     holds u64_to_key_bytes (ld_block_signatures L) (log_of (\<lambda>d. map_option (enc (le_signature E)) (bd_signature d)) hist) \<and>
     holds u64_to_key_bytes (ld_block_metadata L) (log_of (\<lambda>d. map_option (enc (le_metadata E)) (bd_metadata d)) hist) \<and>
     holds u64_to_key_bytes (ld_key_images_by_block L) (log_of (\<lambda>d. Some (enc (le_key_images E) (images_of d))) hist) \<and>
     holds u64_to_key_bytes (ld_tx_outs_by_block L) (log_of (\<lambda>v. Some (enc (le_tx_outs E) v)) (output_ranges hist)) \<and>
     holds u64_to_key_bytes (validated_mint_config_txs_by_block (ld_mint_config_store L))
       (log_of (\<lambda>d. Some (enc (mk_configs (le_mint_codecs E)) (configs_of d))) hist) \<and>
     holds u64_to_key_bytes (mint_txs_by_block (ld_mint_tx_store L))
       (log_of (\<lambda>d. Some (enc (mk_mints (le_mint_codecs E)) (mints_of d))) hist)"

definition ledger_rep :: "('sig, 'meta) ledger_env \<Rightarrow> ('sig, 'meta) block_data list \<Rightarrow> ledger_db \<Rightarrow> bool" where
  "ledger_rep E hist L \<longleftrightarrow> length hist < 2 ^ 64 \<and> chain_ok E hist \<and>
     ld_counts L NUM_BLOCKS_KEY = Some (u64_to_key_bytes (word_of_nat (length hist))) \<and> block_logs E hist L \<and>
     (\<forall>k. ld_key_images L k = map_option (to_le_bytes 8) (map_of (spent hist) k)) \<and>
     store_rep (le_txo E) (all_outputs hist) (ld_tx_out_store L) \<and>
     holds u64_to_key_bytes (ld_block_number_by_tx_out_index L) (log_of (\<lambda>i. Some (u64_to_key_bytes i)) (output_blocks hist)) \<and>
     nonces_rep (block_index_by_mint_tx_nonce_and_token_id (ld_mint_tx_store L)) (mint_nonces hist) \<and>
     nonces_rep (block_index_by_mint_config_tx_nonce_and_token_id (ld_mint_config_store L)) (config_nonces hist)"

lemma ledger_rep_create: "ledger_rep E [] ledger_create"
  by (simp add: ledger_rep_def block_logs_def chain_ok_def ledger_create_def lm_put_def by_block_def all_outputs_def
      output_blocks_def output_ranges_def index_db.holds_empty store_rep_create nonces_rep_empty mint_config_store_create_def
      mint_tx_store_create_def)

subsection \<open>The lists when a block is added\<close>

lemma all_outputs_snoc [simp]: "all_outputs (hist @ [d]) = all_outputs hist @ outputs_of d"
  by (simp add: all_outputs_def)

lemma output_blocks_snoc:
  "output_blocks (hist @ [d]) = output_blocks hist @ replicate (length (outputs_of d)) (word_of_nat (length hist))"
  by (auto simp: output_blocks_def nth_append intro!: arg_cong [of _ _ concat])

lemma output_ranges_snoc:
  "output_ranges (hist @ [d]) = output_ranges hist @
     [\<lparr>tv_first_tx_out_index = word_of_nat (length (all_outputs hist)), tv_num_tx_outs = word_of_nat (length (outputs_of d))\<rparr>]"
  by (simp add: output_ranges_def nth_append cong: map_cong)

lemma by_block_snoc: "by_block f (hist @ [d]) = f (word_of_nat (length hist)) d @ by_block f hist"
  by (auto simp: by_block_def nth_append intro!: arg_cong [of _ _ concat])

lemma length_output_ranges [simp]: "length (output_ranges hist) = length hist"
  by (simp add: output_ranges_def)

lemma length_output_blocks: "length (output_blocks hist) = length (all_outputs hist)"
  by (induction hist rule: rev_induct) (simp_all add: output_blocks_snoc, simp add: output_blocks_def all_outputs_def)

lemma chain_ok_snoc:
  "chain_ok E (hist @ [d]) \<longleftrightarrow> chain_ok E hist \<and> linked E hist d \<and> populated d \<and> unspent hist d"
  by (auto simp: chain_ok_def nth_append less_Suc_eq)

subsection \<open>Reading\<close>

lemma from_le_bytes_inverse [simp]: "from_le_bytes (to_le_bytes 8 v) = v"
proof -
  have "rev (to_le_bytes 8 v) = u64_to_key_bytes v"
    by (simp add: to_le_bytes_def u64_to_key_bytes_def rev_map upt_rec)
  then show ?thesis by (simp add: from_le_bytes_def from_be_bytes_key)
qed

lemma lm_get_dec_Some: "codec_ok c \<Longrightarrow> db k = Some (enc c x) \<Longrightarrow> lm_get_dec c db k = Ok x"
  by (simp add: lm_get_dec_def lm_get_def)

lemma lm_get_dec_None: "db k = None \<Longrightarrow> lm_get_dec c db k = Err NotFound"
  by (simp add: lm_get_dec_def lm_get_def)

lemma ledger_rep_num_blocks:
  "ledger_rep E hist L \<Longrightarrow> num_blocks L = Ok (word_of_nat (length hist))"
  by (simp add: ledger_rep_def num_blocks_def lm_get_def)

lemma ledger_rep_get_block:
  assumes "ledger_env_ok E" and "ledger_rep E hist L" and "i < length hist"
  shows "get_block E L (word_of_nat i) = Ok (bd_block (hist ! i))"
proof -
  have "ld_blocks L (u64_to_key_bytes (word_of_nat i)) = Some (enc (le_block E) (bd_block (hist ! i)))"
    using assms(2,3) log_get [of "ld_blocks L" "\<lambda>d. Some (enc (le_block E) (bd_block d))" hist i]
    by (simp add: ledger_rep_def block_logs_def)
  with assms(1) show ?thesis by (simp add: get_block_def lm_get_dec_Some ledger_env_ok_def)
qed

lemma ledger_rep_key_image:
  assumes "ledger_rep E hist L"
  shows "check_key_image L k = Ok (map_of (spent hist) k)"
    and "contains_key_image L k = Ok (k \<in> fst ` set (spent hist))"
proof -
  have k: "ld_key_images L k = map_option (to_le_bytes 8) (map_of (spent hist) k)" using assms by (simp add: ledger_rep_def)
  show c: "check_key_image L k = Ok (map_of (spent hist) k)"
    by (simp add: check_key_image_def k split: option.split)
  have "map_of (spent hist) k \<noteq> None \<longleftrightarrow> k \<in> fst ` set (spent hist)" by (simp add: map_of_eq_None_iff)
  then show "contains_key_image L k = Ok (k \<in> fst ` set (spent hist))" by (simp add: contains_key_image_def c)
qed

lemma le_txo_simps [simp]: "public_key (le_txo E) = out_public_key" "tx_out_hash (le_txo E) = tx_out_hash32 (le_merlin E)"
  by (simp_all add: le_txo_def)

lemma store_rep_contains_key:
  assumes "store_rep (le_txo E) xs (ld_tx_out_store L)"
  shows "contains_tx_out_public_key L k = Ok (k \<in> set (map out_public_key xs))"
proof -
  have m: "tx_out_index_by_public_key (ld_tx_out_store L) = index_map out_public_key xs"
    using assms by (simp add: store_rep_def)
  show ?thesis
  proof (cases "k \<in> set (map out_public_key xs)")
    case True
    then obtain i where i: "i < length xs" "k = out_public_key (xs ! i)" by (auto simp: in_set_conv_nth)
    have "distinct (map out_public_key xs)" using assms by (simp add: store_rep_def)
    from index_map_lookup [OF this i(1)] True show ?thesis
      by (simp add: contains_tx_out_public_key_def get_tx_out_index_by_public_key_def lm_get_def m i(2))
  next
    case False
    then have "index_map out_public_key xs k = None" by (simp add: index_map_eq_None)
    with False show ?thesis by (simp add: contains_tx_out_public_key_def get_tx_out_index_by_public_key_def lm_get_def m)
  qed
qed

subsection \<open>The checks of an append\<close>

lemma validate_position_Ok:
  assumes E: "ledger_env_ok E" and rep: "ledger_rep E hist L"
  shows "validate_position E L b = Ok () \<longleftrightarrow> b_index b = word_of_nat (length hist) \<and> b_version b \<le> BLOCK_VERSION_MAX \<and>
     (if hist = [] then b_version b = 0 \<and> b_parent_id b = default_block_id
      else b_version (bd_block (last hist)) \<le> b_version b \<and> b_parent_id b = b_id (bd_block (last hist)))"
proof (cases "hist = []")
  case True
  with ledger_rep_num_blocks [OF rep] show ?thesis by (auto simp: validate_position_def)
next
  case False
  have len: "length hist < 2 ^ 64" using rep by (simp add: ledger_rep_def)
  with False have n: "(word_of_nat (length hist) :: u64) \<noteq> 0" "(word_of_nat (length hist) :: u64) - 1 = word_of_nat (length hist - 1)"
    using unat_of_nat_u64 [OF len] by (auto simp: of_nat_diff Suc_le_eq)
  have "get_block E L (word_of_nat (length hist - 1)) = Ok (bd_block (last hist))"
    using ledger_rep_get_block [OF E rep, of "length hist - 1"] False by (simp add: last_conv_nth)
  then show ?thesis using False
    by (auto simp: validate_position_def ledger_rep_num_blocks [OF rep] n not_less not_le)
qed

definition fresh :: "('sig, 'meta) block_data list \<Rightarrow> ('sig, 'meta) block_data \<Rightarrow> bool" where
  "fresh hist d \<longleftrightarrow> set (map out_public_key (outputs_of d)) \<inter> set (map out_public_key (all_outputs hist)) = {} \<and>
     set (map (fst \<circ> mint_nonce 0) (mints_of d)) \<inter> fst ` set (mint_nonces hist) = {} \<and>
     set (map (fst \<circ> config_nonce 0) (configs_of d)) \<inter> fst ` set (config_nonces hist) = {}"

lemma unit_eq_ex: "(\<exists>z :: unit. x = f z \<and> P z) \<longleftrightarrow> x = f () \<and> P ()"
  by simp

lemma nonce_check_Ok:
  assumes "nonces_rep (block_index_by_mint_tx_nonce_and_token_id s) used"
  shows "check_mint_tx_nonce t nonce s = Ok None \<longleftrightarrow> (nonce, t) \<notin> fst ` set used"
  using check_mint_tx_nonce_rep [OF assms] by (cases "(nonce, t) \<in> fst ` set used") force+

lemma config_nonce_check_Ok:
  assumes "nonces_rep (block_index_by_mint_config_tx_nonce_and_token_id s) used"
  shows "check_mint_config_tx_nonce t nonce s = Ok None \<longleftrightarrow> (nonce, t) \<notin> fst ` set used"
  using check_mint_config_tx_nonce_rep [OF assms] by (cases "(nonce, t) \<in> fst ` set used") force+

lemma validate_append_block_Ok:
  assumes E: "ledger_env_ok E" and rep: "ledger_rep E hist L"
  shows "validate_append_block E L (bd_block d) (bd_contents d) (bd_metadata d) L = Ok () \<longleftrightarrow>
    linked E hist d \<and> populated d \<and> unspent hist d \<and> fresh hist d"
proof -
  let ?b = "bd_block d" and ?c = "bd_contents d"
  have images: "list_all (\<lambda>k. check_key_image L k = Ok None) (images_of d) \<longleftrightarrow> unspent hist d"
    by (auto simp: ledger_rep_key_image [OF rep] unspent_def list_all_iff map_of_eq_None_iff)
  have outs: "list_all (\<lambda>out. \<exists>z. contains_tx_out_public_key L (out_public_key out) = Ok z \<and> \<not> z) (outputs_of d) \<longleftrightarrow>
      set (map out_public_key (outputs_of d)) \<inter> set (map out_public_key (all_outputs hist)) = {}"
    using rep store_rep_contains_key [of E "all_outputs hist" L] by (auto simp: ledger_rep_def list_all_iff)
  have mints: "list_all (\<lambda>tx. check_mint_tx_nonce (mtp_token_id (mt_prefix tx)) (mtp_nonce (mt_prefix tx)) (ld_mint_tx_store L) = Ok None) (mints_of d) \<longleftrightarrow>
      set (map (fst \<circ> mint_nonce 0) (mints_of d)) \<inter> fst ` set (mint_nonces hist) = {}"
    using rep nonce_check_Ok [of "ld_mint_tx_store L" "mint_nonces hist"]
    by (auto simp: ledger_rep_def list_all_iff mint_nonce_def)
  have configs: "list_all (\<lambda>v. check_mint_config_tx_nonce (config_token v) (mcp_nonce (mct_prefix (vm_mint_config_tx v)))
        (ld_mint_config_store L) = Ok None) (configs_of d) \<longleftrightarrow>
      set (map (fst \<circ> config_nonce 0) (configs_of d)) \<inter> fst ` set (config_nonces hist) = {}"
    using rep config_nonce_check_Ok [of "ld_mint_config_store L" "config_nonces hist"]
    by (auto simp: ledger_rep_def list_all_iff config_nonce_def)
  have amounts: "list_ex (\<lambda>out. outcome_is_err (get_masked_amount out)) (outputs_of d) \<longleftrightarrow>
      \<not> list_all (\<lambda>out. out_masked_amount out \<noteq> None) (outputs_of d)"
    by (auto simp: list_ex_iff list_all_iff outcome_is_err_def get_masked_amount_def ok_or_def split: option.splits)
  have version: "map_err f (block_version_try_from v) = Ok w \<longleftrightarrow> v \<le> BLOCK_VERSION_MAX \<and> w = v" for f :: "_ \<Rightarrow> ledger_error" and v w
    by (auto simp: block_version_try_from_def)
  have iff: "(if b then Err e else x) = Ok y \<longleftrightarrow> \<not> b \<and> x = Ok y" for b and e :: ledger_error and x and y :: unit
    by simp
  have "validate_append_block E L ?b ?c (bd_metadata d) L = Ok () \<longleftrightarrow> validate_position E L ?b = Ok () \<and>
     \<not> (outputs_of d = [] \<and> \<not> configs_of d \<noteq> []) \<and> \<not> length (outputs_of d) < length (mints_of d) \<and>
     \<not> (b_index ?b \<noteq> 0 \<and> images_of d = [] \<and> \<not> (configs_of d \<noteq> [] \<or> mints_of d \<noteq> [])) \<and>
     \<not> b_contents_hash ?b \<noteq> block_contents_hash (le_merlin E) ?c \<and>
     list_all (\<lambda>out. out_masked_amount out \<noteq> None) (outputs_of d) \<and> unspent hist d \<and>
     set (map out_public_key (outputs_of d)) \<inter> set (map out_public_key (all_outputs hist)) = {} \<and>
     is_block_id_valid (le_merlin E) ?b \<and>
     set (map (fst \<circ> mint_nonce 0) (mints_of d)) \<inter> fst ` set (mint_nonces hist) = {} \<and>
     set (map (fst \<circ> config_nonce 0) (configs_of d)) \<inter> fst ` set (config_nonces hist) = {} \<and>
     b_version ?b \<le> BLOCK_VERSION_MAX \<and> \<not> (require_block_metadata (b_version ?b) \<and> bd_metadata d = None)"
    unfolding images [symmetric] outs [symmetric] mints [symmetric] configs [symmetric]
      validate_append_block_def Let_def and_then_eq_Ok iff amounts version unit_eq_ex try_each_Ok by simp
  then show ?thesis
    unfolding validate_position_Ok [OF E rep] linked_def populated_def fresh_def Let_def
    by (cases "hist = []"; simp only: not_less if_True if_False; argo)
qed

subsection \<open>The writes of an append\<close>

definition put_images :: "u64 \<Rightarrow> bytes list \<Rightarrow> database \<Rightarrow> database" where
  "put_images i ks db = fold (\<lambda>k db. lm_put db k (to_le_bytes 8 i)) ks db"

lemma put_images_lookup: "put_images i ks db k = (if k \<in> set ks then Some (to_le_bytes 8 i) else db k)"
  unfolding put_images_def by (induction ks arbitrary: db) (auto simp: lm_put_def)

lemma write_key_image_eq:
  "write_key_image self i T k = Ok U \<longleftrightarrow>
    contains_key_image self k = Ok False \<and> U = T\<lparr>ld_key_images := lm_put (ld_key_images T) k (to_le_bytes 8 i)\<rparr>"
  by (auto simp: write_key_image_def and_then_eq_Ok split: if_splits)

lemma write_key_images_eq:
  "write_key_images E self i ks T = Ok T' \<longleftrightarrow> list_all (\<lambda>k. contains_key_image self k = Ok False) ks \<and>
    T' = T\<lparr>ld_key_images := put_images i ks (ld_key_images T),
      ld_key_images_by_block := lm_put (ld_key_images_by_block T) (u64_to_key_bytes i) (enc (le_key_images E) ks)\<rparr>"
proof -
  have "try_fold (write_key_image self i) T ks = Ok U \<longleftrightarrow> list_all (\<lambda>k. contains_key_image self k = Ok False) ks \<and>
      U = T\<lparr>ld_key_images := put_images i ks (ld_key_images T)\<rparr>" for U
  proof (induction ks arbitrary: T)
    case (Cons k ks)
    show ?case by (auto simp: write_key_image_eq and_then_eq_Ok Cons put_images_def)
  qed (auto simp: put_images_def)
  then show ?thesis by (auto simp: write_key_images_def and_then_eq_Ok)
qed

lemma log_put_new_next:
  assumes "length ys < 2 ^ 64" and "holds u64_to_key_bytes db (log_of (\<lambda>y. Some (u64_to_key_bytes y)) ys)"
    and "lm_put_new db (u64_to_key_bytes (word_of_nat (length ys))) (u64_to_key_bytes y) = Ok db'"
  shows "holds u64_to_key_bytes db' (log_of (\<lambda>y. Some (u64_to_key_bytes y)) (ys @ [y]))"
  using log_put_new [OF assms(1) _ assms(2,3)] by simp

lemma write_tx_out_Ok:
  assumes "write_tx_out E self bs T out = Ok U"
  obtains j s db where "tx_out_store_push (le_txo E) (ld_tx_out_store T) out = Ok (j, s)"
    and "lm_put_new (ld_block_number_by_tx_out_index T) (u64_to_key_bytes j) bs = Ok db"
    and "U = T\<lparr>ld_tx_out_store := s, ld_block_number_by_tx_out_index := db\<rparr>"
  using assms by (auto simp: write_tx_out_def and_then_eq_Ok split: if_splits prod.splits)

lemma write_tx_outs_fold:
  assumes E: "env_ok (le_txo E)" and "store_rep (le_txo E) xs (ld_tx_out_store T)"
    and "holds u64_to_key_bytes (ld_block_number_by_tx_out_index T) (log_of (\<lambda>y. Some (u64_to_key_bytes y)) ys)"
    and "length ys = length xs" and "try_fold (write_tx_out E self (u64_to_key_bytes i)) T outs = Ok T'"
  shows "\<exists>s db. T' = T\<lparr>ld_tx_out_store := s, ld_block_number_by_tx_out_index := db\<rparr> \<and> store_rep (le_txo E) (xs @ outs) s \<and>
    holds u64_to_key_bytes db (log_of (\<lambda>y. Some (u64_to_key_bytes y)) (ys @ replicate (length outs) i))"
  using assms(2-5)
proof (induction outs arbitrary: T xs ys)
  case Nil
  then show ?case by (intro exI [of _ "ld_tx_out_store T"] exI [of _ "ld_block_number_by_tx_out_index T"]) simp
next
  case (Cons out outs)
  from Cons.prems(4) obtain U where U: "write_tx_out E self (u64_to_key_bytes i) T out = Ok U"
    and "try_fold (write_tx_out E self (u64_to_key_bytes i)) U outs = Ok T'" by (auto simp: and_then_eq_Ok)
  with write_tx_out_Ok [OF U] obtain j s db where p: "tx_out_store_push (le_txo E) (ld_tx_out_store T) out = Ok (j, s)"
    and db: "lm_put_new (ld_block_number_by_tx_out_index T) (u64_to_key_bytes j) (u64_to_key_bytes i) = Ok db"
    and rest: "try_fold (write_tx_out E self (u64_to_key_bytes i))
      (T\<lparr>ld_tx_out_store := s, ld_block_number_by_tx_out_index := db\<rparr>) outs = Ok T'"
    by metis
  note s = push_Ok [OF E Cons.prems(1) p]
  have "length ys < 2 ^ 64" using Cons.prems(1,3) by (simp add: store_rep_def)
  from log_put_new_next [OF this Cons.prems(2)] db s(1) Cons.prems(3)
  have "holds u64_to_key_bytes db (log_of (\<lambda>y. Some (u64_to_key_bytes y)) (ys @ [i]))" by simp
  with Cons.IH [of "xs @ [out]" "T\<lparr>ld_tx_out_store := s, ld_block_number_by_tx_out_index := db\<rparr>" "ys @ [i]"] s(2) Cons.prems(3) rest
  show ?case by (auto simp: replicate_app_Cons_same)
qed

lemma write_tx_outs_rep:
  assumes E: "env_ok (le_txo E)" and rep: "store_rep (le_txo E) xs (ld_tx_out_store T)"
    and "holds u64_to_key_bytes (ld_block_number_by_tx_out_index T) (log_of (\<lambda>y. Some (u64_to_key_bytes y)) ys)"
    and "length ys = length xs" and w: "write_tx_outs E self i outs T = Ok T'"
  obtains s db where "T' = T\<lparr>ld_tx_outs_by_block := lm_put (ld_tx_outs_by_block T) (u64_to_key_bytes i) (enc (le_tx_outs E)
        \<lparr>tv_first_tx_out_index = word_of_nat (length xs), tv_num_tx_outs = word_of_nat (length outs)\<rparr>),
      ld_tx_out_store := s, ld_block_number_by_tx_out_index := db\<rparr>"
    and "store_rep (le_txo E) (xs @ outs) s"
    and "holds u64_to_key_bytes db (log_of (\<lambda>y. Some (u64_to_key_bytes y)) (ys @ replicate (length outs) i))"
proof -
  let ?T = "T\<lparr>ld_tx_outs_by_block := lm_put (ld_tx_outs_by_block T) (u64_to_key_bytes i) (enc (le_tx_outs E)
      \<lparr>tv_first_tx_out_index = word_of_nat (length xs), tv_num_tx_outs = word_of_nat (length outs)\<rparr>)\<rparr>"
  have "try_fold (write_tx_out E self (u64_to_key_bytes i)) ?T outs = Ok T'"
    using w store_rep_num(1) [OF rep] by (simp add: write_tx_outs_def Let_def)
  from write_tx_outs_fold [OF E _ _ _ this, of xs ys] assms(2-4) that show ?thesis by auto
qed

lemma write_block_eq:
  assumes "ld_counts T NUM_BLOCKS_KEY = Some (u64_to_key_bytes (word_of_nat n))"
  shows "write_block E b sg md T = Ok (T\<lparr>ld_counts := lm_put (ld_counts T) NUM_BLOCKS_KEY (u64_to_key_bytes (word_of_nat (Suc n))),
    ld_blocks := lm_put (ld_blocks T) (u64_to_key_bytes (b_index b)) (enc (le_block E) b),
    ld_block_signatures := (case sg of Some s \<Rightarrow> lm_put (ld_block_signatures T) (u64_to_key_bytes (b_index b)) (enc (le_signature E) s)
      | None \<Rightarrow> ld_block_signatures T),
    ld_block_metadata := (case md of Some m \<Rightarrow> lm_put (ld_block_metadata T) (u64_to_key_bytes (b_index b)) (enc (le_metadata E) m)
      | None \<Rightarrow> ld_block_metadata T)\<rparr>)"
  using assms by (simp add: write_block_def lm_get_def Let_def add.commute)

lemma log_put_option:
  assumes "length hist < 2 ^ 64" and "holds u64_to_key_bytes db (log_of (\<lambda>d. map_option e (f d)) hist)"
  shows "holds u64_to_key_bytes (case f b of Some s \<Rightarrow> lm_put db (u64_to_key_bytes (word_of_nat (length hist))) (e s) | None \<Rightarrow> db)
    (log_of (\<lambda>d. map_option e (f d)) (hist @ [b]))"
  using log_put [OF assms(1) _ assms(2)] log_skip [OF assms(1) _ assms(2)] by (cases "f b") simp_all

subsection \<open>Appending a block\<close>

lemma append_block_data_Ok:
  assumes "append_block_data E L d = Ok L'"
  obtains T1 T2 cs ts cs' where
    "validate_append_block E L (bd_block d) (bd_contents d) (bd_metadata d) L = Ok ()"
    and "write_key_images E L (b_index (bd_block d)) (images_of d) L = Ok T1"
    and "write_tx_outs E L (b_index (bd_block d)) (outputs_of d) T1 = Ok T2"
    and "write_mint_txs (le_mint E) (le_mint_codecs E) (b_index (bd_block d)) (mints_of d)
      (ld_mint_config_store T2, ld_mint_tx_store T2) = Ok (cs, ts)"
    and "write_validated_mint_config_txs (le_mint_codecs E) (b_index (bd_block d)) (configs_of d) cs = Ok cs'"
    and "write_block E (bd_block d) (bd_signature d) (bd_metadata d) (T2\<lparr>ld_mint_config_store := cs', ld_mint_tx_store := ts\<rparr>) = Ok L'"
  using assms by (auto simp: append_block_data_def append_block_def and_then_eq_Ok)

text \<open>The state after an append, where \<^term>\<open>s\<close>, \<^term>\<open>db\<close>, \<^term>\<open>cs\<close> and \<^term>\<open>ts\<close> are the new stores.\<close>

definition appended ::
  "('sig, 'meta) ledger_env \<Rightarrow> ('sig, 'meta) block_data list \<Rightarrow> ('sig, 'meta) block_data \<Rightarrow> ledger_db \<Rightarrow>
   tx_out_store \<Rightarrow> database \<Rightarrow> mint_config_store \<Rightarrow> mint_tx_store \<Rightarrow> ledger_db" where
  "appended E hist d L s db cs ts = (let k = u64_to_key_bytes (word_of_nat (length hist)) in
     L\<lparr>ld_counts := lm_put (ld_counts L) NUM_BLOCKS_KEY (u64_to_key_bytes (word_of_nat (Suc (length hist)))),
       ld_blocks := lm_put (ld_blocks L) k (enc (le_block E) (bd_block d)),
       ld_block_signatures := (case bd_signature d of Some s \<Rightarrow> lm_put (ld_block_signatures L) k (enc (le_signature E) s)
         | None \<Rightarrow> ld_block_signatures L),
       ld_block_metadata := (case bd_metadata d of Some m \<Rightarrow> lm_put (ld_block_metadata L) k (enc (le_metadata E) m)
         | None \<Rightarrow> ld_block_metadata L),
       ld_key_images := put_images (word_of_nat (length hist)) (images_of d) (ld_key_images L),
       ld_key_images_by_block := lm_put (ld_key_images_by_block L) k (enc (le_key_images E) (images_of d)),
       ld_tx_outs_by_block := lm_put (ld_tx_outs_by_block L) k (enc (le_tx_outs E)
         \<lparr>tv_first_tx_out_index = word_of_nat (length (all_outputs hist)), tv_num_tx_outs = word_of_nat (length (outputs_of d))\<rparr>),
       ld_tx_out_store := s, ld_block_number_by_tx_out_index := db, ld_mint_config_store := cs, ld_mint_tx_store := ts\<rparr>)"

lemma append_state:
  assumes E: "ledger_env_ok E" and rep: "ledger_rep E hist L" and app: "append_block_data E L d = Ok L'"
  obtains s db cs ts cs' where "L' = appended E hist d L s db cs' ts"
    and "linked E hist d" "populated d" "unspent hist d" "fresh hist d"
    and "store_rep (le_txo E) (all_outputs (hist @ [d])) s"
    and "holds u64_to_key_bytes db (log_of (\<lambda>y. Some (u64_to_key_bytes y)) (output_blocks (hist @ [d])))"
    and "write_mint_txs (le_mint E) (le_mint_codecs E) (word_of_nat (length hist)) (mints_of d)
      (ld_mint_config_store L, ld_mint_tx_store L) = Ok (cs, ts)"
    and "write_validated_mint_config_txs (le_mint_codecs E) (word_of_nat (length hist)) (configs_of d) cs = Ok cs'"
proof -
  let ?i = "word_of_nat (length hist) :: u64"
  from append_block_data_Ok [OF app] obtain T1 T2 cs ts cs' where
      v: "validate_append_block E L (bd_block d) (bd_contents d) (bd_metadata d) L = Ok ()"
    and k: "write_key_images E L (b_index (bd_block d)) (images_of d) L = Ok T1"
    and out: "write_tx_outs E L (b_index (bd_block d)) (outputs_of d) T1 = Ok T2"
    and m: "write_mint_txs (le_mint E) (le_mint_codecs E) (b_index (bd_block d)) (mints_of d)
      (ld_mint_config_store T2, ld_mint_tx_store T2) = Ok (cs, ts)"
    and c: "write_validated_mint_config_txs (le_mint_codecs E) (b_index (bd_block d)) (configs_of d) cs = Ok cs'"
    and b: "write_block E (bd_block d) (bd_signature d) (bd_metadata d) (T2\<lparr>ld_mint_config_store := cs', ld_mint_tx_store := ts\<rparr>) = Ok L'"
    by blast
  note chk = v [unfolded validate_append_block_Ok [OF E rep]]
  then have i: "b_index (bd_block d) = ?i" by (simp add: linked_def Let_def)
  note R = rep [unfolded ledger_rep_def block_logs_def]
  have T1: "T1 = L\<lparr>ld_key_images := put_images ?i (images_of d) (ld_key_images L),
      ld_key_images_by_block := lm_put (ld_key_images_by_block L) (u64_to_key_bytes ?i) (enc (le_key_images E) (images_of d))\<rparr>"
    using k by (simp add: write_key_images_eq i)
  have E': "env_ok (le_txo E)" using E by (simp add: ledger_env_ok_def)
  have "store_rep (le_txo E) (all_outputs hist) (ld_tx_out_store T1)"
    and "holds u64_to_key_bytes (ld_block_number_by_tx_out_index T1) (log_of (\<lambda>y. Some (u64_to_key_bytes y)) (output_blocks hist))"
    using R by (simp_all add: T1)
  from write_tx_outs_rep [OF E' this length_output_blocks out [unfolded i]] obtain s db where
    T2: "T2 = T1\<lparr>ld_tx_outs_by_block := lm_put (ld_tx_outs_by_block T1) (u64_to_key_bytes ?i) (enc (le_tx_outs E)
        \<lparr>tv_first_tx_out_index = word_of_nat (length (all_outputs hist)), tv_num_tx_outs = word_of_nat (length (outputs_of d))\<rparr>),
      ld_tx_out_store := s, ld_block_number_by_tx_out_index := db\<rparr>"
    and s: "store_rep (le_txo E) (all_outputs hist @ outputs_of d) s"
    and db: "holds u64_to_key_bytes db (log_of (\<lambda>y. Some (u64_to_key_bytes y)) (output_blocks hist @ replicate (length (outputs_of d)) ?i))"
    by blast
  have "ld_counts (T2\<lparr>ld_mint_config_store := cs', ld_mint_tx_store := ts\<rparr>) NUM_BLOCKS_KEY = Some (u64_to_key_bytes ?i)"
    using R by (simp add: T2 T1)
  note w = b [unfolded write_block_eq [OF this] outcome.inject]
  have L': "L' = appended E hist d L s db cs' ts"
    unfolding w [symmetric] by (rule ledger_db.equality; cases "bd_signature d"; cases "bd_metadata d") (simp_all add: T2 T1 i appended_def Let_def)
  have "ld_mint_config_store T2 = ld_mint_config_store L" "ld_mint_tx_store T2 = ld_mint_tx_store L" by (simp_all add: T2 T1)
  note m = m [unfolded this i]
  have "linked E hist d" "populated d" "unspent hist d" "fresh hist d" using chk by blast+
  then show ?thesis
    by (rule that [OF L' _ _ _ _ s [folded all_outputs_snoc] db [folded output_blocks_snoc] m c [unfolded i]])
qed

lemma append_logs:
  assumes l: "length hist < 2 ^ 64" and logs: "block_logs E hist L"
    and m: "lm_put_new (mint_txs_by_block (ld_mint_tx_store L)) (u64_to_key_bytes (word_of_nat (length hist)))
      (enc (mk_mints (le_mint_codecs E)) (mints_of d)) = Ok (mint_txs_by_block ts)"
    and c: "lm_put_new (validated_mint_config_txs_by_block (ld_mint_config_store L)) (u64_to_key_bytes (word_of_nat (length hist)))
      (enc (mk_configs (le_mint_codecs E)) (configs_of d)) = Ok (validated_mint_config_txs_by_block cs)"
  shows "block_logs E (hist @ [d]) (appended E hist d L s db cs ts)"
proof -
  note R = logs [unfolded block_logs_def] and A = appended_def Let_def
  have "holds u64_to_key_bytes (validated_mint_config_txs_by_block cs)
      (log_of (\<lambda>d. Some (enc (mk_configs (le_mint_codecs E)) (configs_of d))) (hist @ [d]))"
    by (rule log_put_new [OF l _ _ c]) (use R in simp_all)
  moreover have "holds u64_to_key_bytes (mint_txs_by_block ts)
      (log_of (\<lambda>d. Some (enc (mk_mints (le_mint_codecs E)) (mints_of d))) (hist @ [d]))"
    by (rule log_put_new [OF l _ _ m]) (use R in simp_all)
  moreover have "holds u64_to_key_bytes (ld_tx_outs_by_block (appended E hist d L s db cs ts))
      (log_of (\<lambda>v. Some (enc (le_tx_outs E) v)) (output_ranges (hist @ [d])))"
    using R l log_put [of "output_ranges hist" "\<lambda>v. Some (enc (le_tx_outs E) v)"] by (simp add: A output_ranges_snoc)
  ultimately show ?thesis using R
    unfolding block_logs_def by (simp add: A log_put [OF l] log_put_option [OF l])
qed

lemma spent_snoc:
  "map_of (spent (hist @ [d])) k = (if k \<in> set (images_of d) then Some (word_of_nat (length hist)) else map_of (spent hist) k)"
  by (simp add: by_block_snoc map_add_def map_of_map_restrict restrict_map_def split: option.split)

lemma append_rep:
  assumes E: "ledger_env_ok E" and rep: "ledger_rep E hist L" and len: "Suc (length hist) < 2 ^ 64"
    and app: "append_block_data E L d = Ok L'"
  shows "ledger_rep E (hist @ [d]) L'"
proof -
  from rep have R: "block_logs E hist L" "chain_ok E hist" "\<forall>k. ld_key_images L k = map_option (to_le_bytes 8) (map_of (spent hist) k)"
      "nonces_rep (block_index_by_mint_tx_nonce_and_token_id (ld_mint_tx_store L)) (mint_nonces hist)"
      "nonces_rep (block_index_by_mint_config_tx_nonce_and_token_id (ld_mint_config_store L)) (config_nonces hist)"
    unfolding ledger_rep_def by blast+
  obtain s db cs ts cs' where L': "L' = appended E hist d L s db cs' ts"
    and chk: "linked E hist d" "populated d" "unspent hist d" "fresh hist d"
    and s: "store_rep (le_txo E) (all_outputs (hist @ [d])) s"
    and db: "holds u64_to_key_bytes db (log_of (\<lambda>y. Some (u64_to_key_bytes y)) (output_blocks (hist @ [d])))"
    and m: "write_mint_txs (le_mint E) (le_mint_codecs E) (word_of_nat (length hist)) (mints_of d)
      (ld_mint_config_store L, ld_mint_tx_store L) = Ok (cs, ts)"
    and c: "write_validated_mint_config_txs (le_mint_codecs E) (word_of_nat (length hist)) (configs_of d) cs = Ok cs'"
    by (rule append_state [OF E rep app])
  note A = appended_def Let_def
  note mf = write_mint_txs_frame [OF m R(4)]
  note cf = write_configs_frame [OF c, unfolded mf(3,4), OF R(5)]
  have logs: "block_logs E (hist @ [d]) L'"
    unfolding L' using len by (intro append_logs R(1) mf(1) cf(1)) simp
  have images: "\<forall>k. ld_key_images L' k = map_option (to_le_bytes 8) (map_of (spent (hist @ [d])) k)"
    using R(3) by (simp add: L' A put_images_lookup spent_snoc)
  have chain: "chain_ok E (hist @ [d])" using R(2) chk by (simp add: chain_ok_snoc)
  have stores: "ld_tx_out_store L' = s" "ld_block_number_by_tx_out_index L' = db" "ld_mint_config_store L' = cs'"
      "ld_mint_tx_store L' = ts" "ld_counts L' NUM_BLOCKS_KEY = Some (u64_to_key_bytes (word_of_nat (length (hist @ [d]))))"
    by (simp_all add: L' A lm_put_def)
  have "nonces_rep (block_index_by_mint_tx_nonce_and_token_id ts) (mint_nonces (hist @ [d]))"
    "nonces_rep (block_index_by_mint_config_tx_nonce_and_token_id cs') (config_nonces (hist @ [d]))"
    using mf(2) cf(2) by (simp_all add: by_block_snoc)
  then show ?thesis
    unfolding ledger_rep_def stores using len chain logs images s db by (intro conjI) simp_all
qed

text \<open>Blocks appended one after the other to an empty database.\<close>

definition append_all :: "('sig, 'meta) ledger_env \<Rightarrow> ('sig, 'meta) block_data list \<Rightarrow> ledger_db ledger" where
  "append_all E hist = try_fold (append_block_data E) ledger_create hist"

lemma append_all_snoc: "append_all E (hist @ [d]) = and_then (append_all E hist) (\<lambda>L. append_block_data E L d)"
  by (simp add: append_all_def try_fold_append)

lemma append_all_rep:
  assumes "ledger_env_ok E"
  shows "append_all E hist = Ok L \<Longrightarrow> length hist < 2 ^ 64 \<Longrightarrow> ledger_rep E hist L"
proof (induction hist arbitrary: L rule: rev_induct)
  case Nil
  then show ?case using ledger_rep_create [of E] by (simp add: append_all_def)
next
  case (snoc d hist)
  from snoc.prems(1) obtain L0 where L0: "append_all E hist = Ok L0" "append_block_data E L0 d = Ok L"
    by (auto simp: append_all_snoc and_then_eq_Ok)
  with append_rep [OF assms snoc.IH [OF L0(1)] _ L0(2)] snoc.prems(2) show ?case by simp
qed

end
