(* ===== verification/Tx_Ledger_Context.thy ===== *)
theory Tx_Ledger_Context
  imports Tx_Validation Ledger_Membership
begin

section \<open>Transactions against the ledger\<close>

text \<open>
  The membership checks of a transaction together with the store they are about. A client obtains the proofs
  of its ring elements from the store at some time; a validator later takes, for each of them, the store's own
  proof of the output with the highest index the client's proof knows, rolls it back to the time
  the client saw, and compares root hashes. Honest proofs pass, and what passes is in the ledger.
\<close>

lemma path_elements_wf:
  assumes "i < 2 ^ D" and "D \<le> 63"
  shows "list_all (\<lambda>e. r_from (me_range e) \<le> r_to (me_range e)) (path_elements E xs i D)"
proof -
  have i: "(i + 1) * 2 ^ 0 \<le> (2 :: nat) ^ 63" using path_block_bound [of i D 0] assms by simp
  have "(sibling (i div 2 ^ d) + 1) * 2 ^ d \<le> 2 ^ 63" if "d < D" for d
    using sibling_block_bound [OF assms(1) that assms(2)] .
  with i show ?thesis
    by (auto simp: path_elements_def tree_element_def list_all_iff intro: node_range_wf)
qed

text \<open>The root proof for a highest index, rolled back: the root hash at the time it was the highest.\<close>

lemma rolled_back_root:
  assumes E: "env_ok E" and s: "push_all E xs = Ok s" and h: "h < length xs"
  shows "\<exists>r d root. get_merkle_proof_of_membership E s (word_of_nat h) = Ok r \<and> derive_proof_at_index E r = Ok d \<and>
    compute_implied_merkle_root E d = Ok root \<and> me_hash root = merkle_root E (take (h + 1) xs) \<and>
    list_all (\<lambda>e. r_from (me_range e) \<le> r_to (me_range e)) (mp_elements r)"
proof -
  note rep = push_all_rep [OF E s]
  let ?D = "ceil_log2 (length xs)" and ?ys = "take (h + 1) xs" and ?d = "ceil_log2 (h + 1)"
  have len: "length xs \<le> 2 ^ 63" using rep by (simp add: store_rep_def)
  have D: "?D \<le> 63" "h < 2 ^ ?D" using ceil_log2_le [OF len] ceil_log2_bounds(1) [of "length xs"] h by linarith+
  have ys: "length ?ys = h + 1" using h by simp
  have d: "?d \<le> 63" "h < 2 ^ ?d"
    using ceil_log2_le [of "h + 1" 63] ceil_log2_bounds(1) [of "h + 1"] h len by linarith+
  have "me_hash (tree_element E ?ys ?d 0) = merkle_root E ?ys"
    using ys by (simp add: tree_element_def merkle_root_def)
  moreover have "compute_implied_merkle_root E \<lparr>mp_index = word_of_nat h, mp_highest_index = word_of_nat h,
      mp_elements = path_elements E ?ys h ?d\<rparr> = Ok (tree_element E ?ys ?d 0)"
    using ys d by (intro implied_root_path) simp_all
  ultimately show ?thesis
    using membership_rep [OF E rep h] derive_path [OF h D(2,1)] path_elements_wf [OF D(2,1)] by simp
qed

subsection \<open>Honest proofs pass\<close>

text \<open>\<^term>\<open>p\<close> is the proof the store issued for \<^term>\<open>out\<close> when it held the first \<open>h + 1\<close> outputs.\<close>

definition issued :: "'out txo_env \<Rightarrow> 'out list \<Rightarrow> 'out \<Rightarrow> membership_proof \<Rightarrow> bool" where
  "issued E xs out p \<longleftrightarrow>
     (\<exists>i h s0. i \<le> h \<and> h < length xs \<and> out = xs ! i \<and> push_all E (take (h + 1) xs) = Ok s0 \<and>
        get_merkle_proof_of_membership E s0 (word_of_nat i) = Ok p)"

lemma issued_valid:
  assumes E: "env_ok E" and s: "push_all E xs = Ok s" and p: "issued E xs out p"
  shows "\<exists>r. get_merkle_proof_of_membership E s (mp_highest_index p) = Ok r \<and>
    validate_membership_proof E ((out, p), r) = Ok () \<and>
    list_all (\<lambda>e. r_from (me_range e) \<le> r_to (me_range e)) (mp_elements r)"
proof -
  obtain i h s0 where i: "i \<le> h" "h < length xs" "out = xs ! i" and s0: "push_all E (take (h + 1) xs) = Ok s0"
    and get: "get_merkle_proof_of_membership E s0 (word_of_nat i) = Ok p"
    using p unfolding issued_def by blast
  note rep = push_all_rep [OF E s0]
  let ?ys = "take (h + 1) xs" and ?d = "ceil_log2 (h + 1)"
  have ys: "length ?ys = h + 1" using i by simp
  have p: "p = \<lparr>mp_index = word_of_nat i, mp_highest_index = word_of_nat h, mp_elements = path_elements E ?ys i ?d\<rparr>"
    using membership_rep [OF E rep, of i] get i ys by simp
  have "h + 1 \<le> 2 ^ 63" using rep ys by (simp add: store_rep_def)
  then have "?d \<le> 63" by (rule ceil_log2_le)
  then have "is_membership_proof_valid E (?ys ! i) p (merkle_root E ?ys) = Ok True"
    unfolding p merkle_root_def ys
    using ys i ceil_log2_bounds(1) [of "h + 1"] by (intro path_proof_valid) linarith+
  then have valid: "is_membership_proof_valid E out p (merkle_root E ?ys) = Ok True" using i by simp
  from rolled_back_root [OF E s i(2)] valid show ?thesis
    by (auto simp: validate_membership_proof_def p)
qed

lemma highest_indices_ring:
  assumes "list_all (\<lambda>i. length (in_ring i) = length (in_proofs i)) (px_inputs px)"
  shows "get_membership_proof_highest_indices px = map (\<lambda>(_, p). mp_highest_index p) (ring_elements px)"
proof -
  have "list_all (\<lambda>i. length (in_ring i) = length (in_proofs i)) is \<Longrightarrow>
      concat (map (\<lambda>i. map mp_highest_index (in_proofs i)) is) =
      map (\<lambda>(_, p). mp_highest_index p) (concat (map (\<lambda>i. zip (in_ring i) (in_proofs i)) is))" for "is"
  proof (induction "is")
    case (Cons i "is")
    have "map (\<lambda>(_, p). mp_highest_index p) (zip (in_ring i) (in_proofs i)) =
        map mp_highest_index (map snd (zip (in_ring i) (in_proofs i)))"
      by (simp add: case_prod_beta)
    with Cons show ?case by (simp del: map_map)
  qed simp
  with assms show ?thesis by (simp add: get_membership_proof_highest_indices_def ring_elements_def)
qed

text \<open>C37. Whenever every ring element of a transaction comes with a proof that the store issued for it at some
  time, the store has proofs for all the highest indices those proofs name, and with them as root proofs
  the validation of membership proofs accepts the transaction, however much the ledger has grown in
  between.\<close>

theorem honest_proofs_validate:
  assumes "env_ok E" and "push_all E xs = Ok s"
    and "list_all (\<lambda>i. length (in_ring i) = length (in_proofs i)) (px_inputs px)"
    and "list_all (\<lambda>(out, p). issued E xs out p) (ring_elements px)"
  shows "\<exists>root_proofs.
    try_map (get_merkle_proof_of_membership E s) (get_membership_proof_highest_indices px) = Ok root_proofs \<and>
    (validate_membership_proofs E px root_proofs :: 'se tx_result) = Ok ()"
proof -
  let ?ok = "\<lambda>(out, p) r. get_merkle_proof_of_membership E s (mp_highest_index p) = Ok r \<and>
    (validate_membership_proof E ((out, p), r) :: 'se tx_result) = Ok () \<and>
    list_all (\<lambda>e. r_from (me_range e) \<le> r_to (me_range e)) (mp_elements r)"
  have "\<exists>rs. list_all2 ?ok es rs" if "list_all (\<lambda>(out, p). issued E xs out p) es" for es
    using that
  proof (induction es)
    case (Cons e es)
    then obtain rs where "list_all2 ?ok es rs" by auto
    moreover obtain out p r where "e = (out, p)" "?ok e r"
      using Cons.prems issued_valid [OF assms(1,2)] by (cases e) fastforce
    ultimately have "list_all2 ?ok (e # es) (r # rs)" by simp
    then show ?case by blast
  qed (rule exI [of _ "[]"], simp)
  with assms(4) obtain rs where rs: "list_all2 ?ok (ring_elements px) rs" by blast
  have "try_map (get_merkle_proof_of_membership E s) (map (\<lambda>(_, p). mp_highest_index p) (ring_elements px)) = Ok rs"
    unfolding try_map_eq_Ok list_all2_map1 using rs by (rule list_all2_mono) auto
  moreover have "list_all (\<lambda>r. list_all (\<lambda>e. r_from (me_range e) \<le> r_to (me_range e)) (mp_elements r)) rs"
    using rs by (auto simp: list_all2_conv_all_nth list_all_length)
  moreover have "list_all (\<lambda>p. (validate_membership_proof E p :: 'se tx_result) = Ok ()) (zip (ring_elements px) rs)"
    using rs by (auto simp: list_all2_conv_all_nth list_all_length case_prod_beta)
  ultimately show ?thesis
    using assms(3) list_all2_lengthD [OF rs]
    by (auto simp: validate_membership_proofs_def highest_indices_ring [OF assms(3)] outcome_simps try_each_Ok
        list_all_iff list_ex_iff not_less)
qed
subsection \<open>What passes is in the ledger\<close>

text \<open>The strings hashed for the trees of the store at all times and for the proofs of a transaction.\<close>

definition hashed_strings :: "tx_out txo_env \<Rightarrow> tx_out list \<Rightarrow> tx_prefix \<Rightarrow> bytes set" where
  "hashed_strings E xs px =
     (\<Union>h \<in> {..<length xs}. tree_preimages E (take (h + 1) xs) (ceil_log2 (h + 1)) 0) \<union>
     (\<Union>(out, p) \<in> set (ring_elements px). proof_preimages E out p)"

definition proofs_wf :: "tx_prefix \<Rightarrow> bool" where
  "proofs_wf px \<longleftrightarrow> list_all (\<lambda>(_, p). list_all (\<lambda>e. is_hash (me_hash e)) (mp_elements p)) (ring_elements px)"

lemma issued_root_bound:
  assumes "store_rep E xs s" and "get_merkle_proof_of_membership E s h = Ok r"
  shows "unat h < length xs"
  using assms store_rep_num [OF assms(1)]
  by (auto simp: get_merkle_proof_of_membership_def word_le_nat_alt split: if_split_asm)

lemma element_in_ledger:
  assumes E: "env_ok E" and s: "push_all E xs = Ok s" and r: "get_merkle_proof_of_membership E s h = Ok r"
    and v: "validate_membership_proof E ((out, p), r) = Ok ()" and e: "(out, p) \<in> set (ring_elements px)"
    and inj: "inj_on (blake2b256 E) (hashed_strings E xs px)" and wf: "proofs_wf px"
  shows "\<exists>y \<in> set xs. tx_out_hash E y = tx_out_hash E out"
proof -
  have h: "unat h < length xs" by (rule issued_root_bound [OF push_all_rep [OF E s] r])
  let ?h = "unat h" let ?ys = "take (?h + 1) xs"
  have ys: "length ?ys = ?h + 1" using h by simp
  from rolled_back_root [OF E s h] r v have "is_membership_proof_valid E out p (merkle_root E ?ys) = Ok True"
    by (auto simp: validate_membership_proof_def outcome_simps split: if_split_asm)
  then have valid: "is_membership_proof_valid E out p (merkle_hash E ?ys (ceil_log2 (?h + 1)) 0) = Ok True"
    unfolding merkle_root_def ys .
  have "tree_preimages E ?ys (ceil_log2 (?h + 1)) 0 \<union> proof_preimages E out p \<subseteq> hashed_strings E xs px"
    using h e unfolding hashed_strings_def by blast
  moreover have "list_all (\<lambda>e. is_hash (me_hash e)) (mp_elements p)"
    using wf e by (auto simp: proofs_wf_def list_all_iff)
  moreover have "blake_ok E" using E by (simp add: env_ok_def)
  ultimately have "\<exists>y \<in> set ?ys. tx_out_hash E y = tx_out_hash E out"
    by (intro proof_sound [OF valid inj])
  then show ?thesis by (auto dest: in_set_takeD)
qed

text \<open>C36. If the validation of membership proofs accepts a transaction with root proofs that the store issued, for whatever
  indices, and the hash function has no collision among the strings hashed for the trees of the store and for
  the proofs of the transaction, then the store holds an output with the hash of every ring element of every input
  and finds it by that hash: no transaction spends an output that is not in the ledger.\<close>

theorem ring_elements_in_ledger:
  assumes "env_ok E" and "push_all E xs = Ok s"
    and "try_map (get_merkle_proof_of_membership E s) indices = Ok root_proofs"
    and "(validate_membership_proofs E px root_proofs :: 'se tx_result) = Ok ()"
    and "inj_on (blake2b256 E) (hashed_strings E xs px)" and "proofs_wf px"
    and "i \<in> set (px_inputs px)" and "out \<in> set (in_ring i)"
  shows "\<exists>index y. get_tx_out_index_by_hash s (tx_out_hash E out) = Ok index \<and> get_tx_out_by_index E s index = Ok y \<and>
    tx_out_hash E y = tx_out_hash E out"
proof -
  from assms(4) have len: "length (in_ring i) = length (in_proofs i)" "length (ring_elements px) = length root_proofs"
    and each: "list_all (\<lambda>p. (validate_membership_proof E p :: 'se tx_result) = Ok ()) (zip (ring_elements px) root_proofs)"
    using assms(7) by (auto simp: validate_membership_proofs_def outcome_simps try_each_Ok list_all_iff split: if_split_asm)
  obtain p where e: "(out, p) \<in> set (ring_elements px)"
    using assms(7,8) len(1) by (fastforce simp: ring_elements_def in_set_zip in_set_conv_nth)
  then obtain k where k: "k < length (ring_elements px)" "ring_elements px ! k = (out, p)"
    by (auto simp: in_set_conv_nth)
  from assms(3) have "list_all2 (\<lambda>h r. get_merkle_proof_of_membership E s h = Ok r) indices root_proofs"
    by (simp add: try_map_eq_Ok)
  then have r: "get_merkle_proof_of_membership E s (indices ! k) = Ok (root_proofs ! k)"
    using k(1) len(2) by (simp add: list_all2_conv_all_nth)
  have "(validate_membership_proof E ((out, p), root_proofs ! k) :: 'se tx_result) = Ok ()"
    using each k len(2) unfolding list_all_length by (metis length_zip min.idem nth_zip)
  from element_in_ledger [OF assms(1,2) r this e assms(5,6)]
  obtain j where "j < length xs" "tx_out_hash E (xs ! j) = tx_out_hash E out" by (auto simp: in_set_conv_nth)
  with store_rep_lookups [OF assms(1) push_all_rep [OF assms(1,2)], of j] show ?thesis by auto
qed

subsection \<open>An instance for the examples\<close>

text \<open>A codec for outputs: their fields as byte strings, each byte preceded by 1 and each string ended by 0.\<close>

fun enc_bytes :: "bytes \<Rightarrow> bytes" where
  "enc_bytes [] = [0]"
| "enc_bytes (b # bs) = 1 # b # enc_bytes bs"

fun dec_all :: "bytes \<Rightarrow> bytes \<Rightarrow> bytes list" where
  "dec_all acc [] = []"
| "dec_all acc [x] = [acc]"
| "dec_all acc (x # b # r) = (if x = 0 then acc # dec_all [] (b # r) else dec_all (acc @ [b]) r)"

lemma dec_all_enc: "dec_all acc (enc_bytes bs @ r) = (acc @ bs) # dec_all [] r"
proof (induction bs arbitrary: acc)
  case Nil
  then show ?case by (cases r) auto
qed simp

lemma dec_all_concat: "dec_all [] (concat (map enc_bytes fs)) = fs"
  by (induction fs) (simp_all add: dec_all_enc)

definition out_fields :: "tx_out \<Rightarrow> bytes list" where
  "out_fields out =
     [out_target_key out, out_public_key out, out_e_fog_hint out] @
     (case out_e_memo out of None \<Rightarrow> [[], []] | Some m \<Rightarrow> [[1], m]) @
     (case out_masked_amount out of None \<Rightarrow> [[], [], [], []]
      | Some (MaskedAmountV1 f) \<Rightarrow> [[1], ma_commitment f, u64_to_key_bytes (ma_masked_value f), ma_masked_token_id f]
      | Some (MaskedAmountV2 f) \<Rightarrow> [[2], ma_commitment f, u64_to_key_bytes (ma_masked_value f), ma_masked_token_id f])"

definition out_of_fields :: "bytes list \<Rightarrow> tx_out option" where
  "out_of_fields fs = (case fs of [t, p, h, mt, m, vt, c, v, k] \<Rightarrow>
     Some \<lparr>out_masked_amount = (if vt = [] then None else Some ((if vt = [1] then MaskedAmountV1 else MaskedAmountV2)
             \<lparr>ma_commitment = c, ma_masked_value = from_be_bytes v, ma_masked_token_id = k\<rparr>)),
           out_target_key = t, out_public_key = p, out_e_fog_hint = h, out_e_memo = (if mt = [] then None else Some m)\<rparr>
   | _ \<Rightarrow> None)"

lemma out_of_fields_inverse: "out_of_fields (out_fields out) = Some out"
  by (cases out) (auto simp: out_of_fields_def out_fields_def from_be_bytes_key split: option.split masked_amount.split)

definition ex_tx_env :: "tx_out txo_env" where
  "ex_tx_env = \<lparr>blake2b256 = ex_blake, tx_out_hash = \<lambda>out. ex_blake (out_public_key out), public_key = out_public_key,
     encode = \<lambda>out. concat (map enc_bytes (out_fields out)), decode = \<lambda>bs. out_of_fields (dec_all [] bs)\<rparr>"

lemma ex_tx_env_ok: "env_ok ex_tx_env"
  by (simp add: env_ok_def blake_ok_def is_hash_def ex_tx_env_def ex_blake_def dec_all_concat out_of_fields_inverse)

definition ex_out :: "u8 \<Rightarrow> tx_out" where
  "ex_out k = \<lparr>out_masked_amount = Some (MaskedAmountV2 \<lparr>ma_commitment = [k], ma_masked_value = 7, ma_masked_token_id = replicate 8 0\<rparr>),
     out_target_key = [k], out_public_key = [k], out_e_fog_hint = [], out_e_memo = Some []\<rparr>"

lemma ex_push: "\<exists>s. push_all ex_tx_env (map ex_out [1, 2, 3]) = Ok s" "\<exists>s. push_all ex_tx_env (map ex_out [1, 2]) = Ok s"
  by (rule push_all_returns [OF ex_tx_env_ok]; simp; code_simp)+

definition ex_proof :: membership_proof where
  "ex_proof = \<lparr>mp_index = 1, mp_highest_index = 1, mp_elements = path_elements ex_tx_env (map ex_out [1, 2]) 1 1\<rparr>"

definition ex_prefix :: tx_prefix where
  "ex_prefix = \<lparr>px_inputs = [\<lparr>in_ring = [ex_out 2], in_proofs = [ex_proof], in_input_rules = None\<rparr>],
     px_outputs = [], px_fee = 0, px_tombstone_block = 0, px_fee_token_id = 0\<rparr>"

lemma ceil_log2_2: "ceil_log2 2 = 1" "ceil_log2 (Suc (Suc 0)) = 1"
proof -
  show "ceil_log2 2 = 1" unfolding ceil_log2_def by (rule Least_equality) (simp, rule ccontr, auto simp: not_le)
  then show "ceil_log2 (Suc (Suc 0)) = 1" by (simp add: numeral_2_eq_2)
qed

lemma ex_issued: "issued ex_tx_env (map ex_out ([1, 2] @ zs)) (ex_out 2) ex_proof"
proof -
  obtain s where s: "push_all ex_tx_env (map ex_out [1, 2]) = Ok s" using ex_push(2) by blast
  have "get_merkle_proof_of_membership ex_tx_env s 1 = Ok ex_proof"
    using membership_rep [OF ex_tx_env_ok push_all_rep [OF ex_tx_env_ok s], of 1]
    by (simp add: ex_proof_def ceil_log2_2)
  with s show ?thesis unfolding issued_def by (intro exI [of _ 1] exI [of _ s]) simp
qed

theorem honest_proofs_validate_witness:
  "\<exists>s root_proofs. push_all ex_tx_env (map ex_out [1, 2, 3]) = Ok s \<and>
    try_map (get_merkle_proof_of_membership ex_tx_env s) [1] = Ok root_proofs \<and>
    (validate_membership_proofs ex_tx_env ex_prefix root_proofs :: unit tx_result) = Ok ()"
proof -
  obtain s where s: "push_all ex_tx_env (map ex_out [1, 2, 3]) = Ok s" using ex_push(1) by blast
  have "list_all (\<lambda>i. length (in_ring i) = length (in_proofs i)) (px_inputs ex_prefix)" by (simp add: ex_prefix_def)
  moreover have "list_all (\<lambda>(out, p). issued ex_tx_env (map ex_out [1, 2, 3]) out p) (ring_elements ex_prefix)"
    using ex_issued [of "[3]"] by (simp add: ring_elements_def ex_prefix_def)
  moreover have "get_membership_proof_highest_indices ex_prefix = [1]"
    by (simp add: get_membership_proof_highest_indices_def ex_prefix_def ex_proof_def)
  ultimately show ?thesis using s honest_proofs_validate [OF ex_tx_env_ok s, of ex_prefix] by auto
qed

definition ex_tx_preimages :: "bytes list" where
  "ex_tx_preimages =
     (let leaf = (\<lambda>k. TXOUT_MERKLE_LEAF_DOMAIN_TAG @ tx_out_hash ex_tx_env (ex_out k)) in
      [leaf 1, leaf 2, TXOUT_MERKLE_NODE_DOMAIN_TAG @ hash_leaf ex_tx_env (ex_out 1) @ hash_leaf ex_tx_env (ex_out 2)])"

lemma ex_trees:
  assumes "h < 2"
  shows "tree_preimages ex_tx_env (take (h + 1) (map ex_out [1, 2])) (ceil_log2 (h + 1)) 0 \<subseteq> set ex_tx_preimages"
proof -
  have "ceil_log2 1 = 0" by (simp add: ceil_log2_def)
  with assms show ?thesis
    by (cases h) (auto simp: less_Suc_eq numeral_2_eq_2 ceil_log2_2 ex_tx_preimages_def Let_def)
qed

lemma ex_proof_strings: "proof_preimages ex_tx_env (ex_out 2) ex_proof \<subseteq> set ex_tx_preimages"
  by (simp add: proof_preimages_def ex_proof_def path_elements_def tree_element_def node_range_def sibling_def
      compose_adjacent_membership_elements_def ex_tx_preimages_def Let_def)

lemma ex_hashed_strings: "hashed_strings ex_tx_env (map ex_out [1, 2]) ex_prefix \<subseteq> set ex_tx_preimages"
  unfolding hashed_strings_def
proof (intro Un_least UN_least)
  fix h assume "h \<in> {..<length (map ex_out [1, 2])}"
  then have "h < 2" by simp
  then show "tree_preimages ex_tx_env (take (h + 1) (map ex_out [1, 2])) (ceil_log2 (h + 1)) 0 \<subseteq> set ex_tx_preimages"
    by (rule ex_trees)
next
  fix e assume "e \<in> set (ring_elements ex_prefix)"
  then have "e = (ex_out 2, ex_proof)" by (simp add: ring_elements_def ex_prefix_def)
  then show "(case e of (out, p) \<Rightarrow> proof_preimages ex_tx_env out p) \<subseteq> set ex_tx_preimages"
    using ex_proof_strings by simp
qed

lemma ex_tx_preimages_distinct: "distinct (map (blake2b256 ex_tx_env) ex_tx_preimages)"
  by code_simp

lemma ex_tx_no_collision: "inj_on (blake2b256 ex_tx_env) (hashed_strings ex_tx_env (map ex_out [1, 2]) ex_prefix)"
proof (rule inj_on_subset [OF _ ex_hashed_strings])
  show "inj_on (blake2b256 ex_tx_env) (set ex_tx_preimages)"
    using ex_tx_preimages_distinct by (simp add: distinct_map)
qed

lemma ex_proofs_wf: "proofs_wf ex_prefix"
  using merkle_hash_is_hash [of ex_tx_env "map ex_out [1, 2]"] ex_tx_env_ok
  by (simp add: proofs_wf_def ring_elements_def ex_prefix_def ex_proof_def path_elements_def tree_element_def env_ok_def
      del: merkle_hash.simps)

theorem ring_elements_in_ledger_witness:
  "\<exists>s r index y. push_all ex_tx_env (map ex_out [1, 2]) = Ok s \<and>
    (validate_membership_proofs ex_tx_env ex_prefix [r] :: unit tx_result) = Ok () \<and>
    get_tx_out_index_by_hash s (tx_out_hash ex_tx_env (ex_out 2)) = Ok index \<and>
    get_tx_out_by_index ex_tx_env s index = Ok y \<and> tx_out_hash ex_tx_env y = tx_out_hash ex_tx_env (ex_out 2)"
proof -
  obtain s where s: "push_all ex_tx_env (map ex_out [1, 2]) = Ok s" using ex_push(2) by blast
  from issued_valid [OF ex_tx_env_ok s] ex_issued [of "[]"] obtain r
    where r: "get_merkle_proof_of_membership ex_tx_env s 1 = Ok r"
      "(validate_membership_proof ex_tx_env ((ex_out 2, ex_proof), r) :: unit tx_result) = Ok ()"
      "list_all (\<lambda>e. r_from (me_range e) \<le> r_to (me_range e)) (mp_elements r)"
    by (fastforce simp: ex_proof_def)
  have v: "(validate_membership_proofs ex_tx_env ex_prefix [r] :: unit tx_result) = Ok ()"
    using r(2,3) by (auto simp: validate_membership_proofs_def ring_elements_def ex_prefix_def list_ex_iff list_all_iff not_less)
  have "try_map (get_merkle_proof_of_membership ex_tx_env s) [1] = Ok [r]" using r(1) by simp
  from ring_elements_in_ledger [OF ex_tx_env_ok s this v ex_tx_no_collision ex_proofs_wf] s v show ?thesis
    by (fastforce simp: ex_prefix_def)
qed

end
