(* ===== verification/Ledger_Example.thy ===== *)
theory Ledger_Example
  imports Ledger_Db_Inv Tx_Ledger_Context
begin

section \<open>An environment for the examples\<close>

text \<open>
  Codecs, a transcript hash and a signature check on which the databases can be run. The codecs frame their fields; the
  ones of the program are generated by prost. The hash of a transcript is the framed transcript itself, so it
  has no collisions, and every signature by a listed key is accepted.
\<close>

subsection \<open>Codecs\<close>

definition frame :: "bytes list \<Rightarrow> bytes" where
  "frame fs = concat (map enc_bytes fs)"

definition unframe :: "bytes \<Rightarrow> bytes list" where
  "unframe bs = dec_all [] bs"

lemma unframe_frame [simp]: "unframe (frame fs) = fs"
  by (simp add: unframe_def frame_def dec_all_concat)

lemma frame_inject [simp]: "frame fs = frame gs \<longleftrightarrow> fs = gs"
  by (metis unframe_frame)

lemma length_enc_bytes [simp]: "length (enc_bytes bs) = 2 * length bs + 1"
  by (induction bs) auto

lemma length_frame: "f \<in> set fs \<Longrightarrow> length f < length (frame fs)"
  by (induction fs) (auto simp: frame_def)

definition bytes_codec :: "bytes codec" where
  "bytes_codec = \<lparr>enc = \<lambda>bs. bs, dec = Some\<rparr>"

definition u64_codec :: "u64 codec" where
  "u64_codec = \<lparr>enc = u64_to_key_bytes, dec = \<lambda>bs. Some (from_be_bytes bs)\<rparr>"

definition u32_codec :: "u32 codec" where
  "u32_codec = \<lparr>enc = \<lambda>w. u64_to_key_bytes (ucast w), dec = \<lambda>bs. Some (ucast (from_be_bytes bs :: u64))\<rparr>"

definition pair_codec :: "'a codec \<Rightarrow> 'b codec \<Rightarrow> ('a \<times> 'b) codec" where
  "pair_codec a b = \<lparr>enc = \<lambda>(x, y). frame [enc a x, enc b y], dec = \<lambda>bs. (case unframe bs of
     [x, y] \<Rightarrow> (case (dec a x, dec b y) of (Some x, Some y) \<Rightarrow> Some (x, y) | _ \<Rightarrow> None) | _ \<Rightarrow> None)\<rparr>"

definition list_codec :: "'a codec \<Rightarrow> 'a list codec" where
  "list_codec c = \<lparr>enc = \<lambda>xs. frame (map (enc c) xs), dec = \<lambda>bs. those (map (dec c) (unframe bs))\<rparr>"

definition option_codec :: "'a codec \<Rightarrow> 'a option codec" where
  "option_codec c = \<lparr>enc = \<lambda>x. (case x of None \<Rightarrow> frame [] | Some x \<Rightarrow> frame [enc c x]), dec = \<lambda>bs. (case unframe bs of
     [] \<Rightarrow> Some None | x # _ \<Rightarrow> map_option Some (dec c x))\<rparr>"

definition via_codec :: "('b \<Rightarrow> 'a) \<Rightarrow> ('a \<Rightarrow> 'b) \<Rightarrow> 'a codec \<Rightarrow> 'b codec" where
  "via_codec f g c = \<lparr>enc = \<lambda>x. enc c (f x), dec = \<lambda>bs. map_option g (dec c bs)\<rparr>"

lemma those_map_Some: "(\<And>x. x \<in> set xs \<Longrightarrow> f x = Some (g x)) \<Longrightarrow> those (map f xs) = Some (map g xs)"
  by (induction xs) simp_all

lemma basic_codecs_ok [simp]: "codec_ok bytes_codec" "codec_ok u64_codec" "codec_ok u32_codec"
proof -
  show "codec_ok u32_codec" unfolding codec_ok_def
  proof
    fix w :: u32
    have "ucast (ucast w :: u64) = w" by (rule bit_word_eqI) (simp add: bit_simps)
    then show "dec u32_codec (enc u32_codec w) = Some w" by (simp add: u32_codec_def from_be_bytes_key)
  qed
qed (simp_all add: codec_ok_def bytes_codec_def u64_codec_def from_be_bytes_key)

lemma codecs_ok [intro]:
  "codec_ok a \<Longrightarrow> codec_ok b \<Longrightarrow> codec_ok (pair_codec a b)"
  "codec_ok a \<Longrightarrow> codec_ok (list_codec a)"
  "codec_ok a \<Longrightarrow> codec_ok (option_codec a)"
  "codec_ok a \<Longrightarrow> (\<And>x. g (f x) = x) \<Longrightarrow> codec_ok (via_codec f g a)"
proof -
  show "codec_ok (pair_codec a b)" if "codec_ok a" "codec_ok b" using that by (auto simp: codec_ok_def pair_codec_def)
  show "codec_ok (list_codec a)" if "codec_ok a"
    using that those_map_Some [of _ "dec a \<circ> enc a" id] by (simp add: codec_ok_def list_codec_def)
  show "codec_ok (option_codec a)" if "codec_ok a"
    using that by (auto simp: codec_ok_def option_codec_def split: option.split)
  show "codec_ok (via_codec f g a)" if "codec_ok a" "\<And>x. g (f x) = x" using that by (simp add: codec_ok_def via_codec_def)
qed

text \<open>Signer sets nest, so their decoder recurses into the frames; the length of the bytes bounds the depth.\<close>

fun enc_signers :: "bytes signer_set \<Rightarrow> bytes" where
  "enc_signers (SignerSet ks ms t) = frame [frame ks, frame (map enc_signers ms), enc u32_codec t]"

fun dec_signers :: "nat \<Rightarrow> bytes \<Rightarrow> bytes signer_set option" where
  "dec_signers 0 bs = None"
| "dec_signers (Suc n) bs = (case unframe bs of
     [ks, ms, t] \<Rightarrow> (case (those (map (dec_signers n) (unframe ms)), dec u32_codec t) of
        (Some ms, Some t) \<Rightarrow> Some (SignerSet (unframe ks) ms t) | _ \<Rightarrow> None)
   | _ \<Rightarrow> None)"

lemma dec_enc_signers: "length (enc_signers s) < n \<Longrightarrow> dec_signers n (enc_signers s) = Some s"
proof (induction s arbitrary: n)
  case (SignerSet ks ms t)
  then obtain k where n: "n = Suc k" by (cases n) auto
  have "length (enc_signers m) < k" if "m \<in> set ms" for m
  proof -
    have "length (enc_signers m) < length (frame (map enc_signers ms))" using that by (intro length_frame) simp
    also have "\<dots> < length (enc_signers (SignerSet ks ms t))" by (simp add: length_frame)
    finally show ?thesis using SignerSet.prems n by simp
  qed
  then have "those (map (dec_signers k) (map enc_signers ms)) = Some (map id ms)"
    using SignerSet.IH by (simp add: those_map_Some)
  then show ?case by (simp add: n)
qed

definition signers_codec :: "bytes signer_set codec" where
  "signers_codec = \<lparr>enc = enc_signers, dec = \<lambda>bs. dec_signers (Suc (length bs)) bs\<rparr>"

lemma signers_codec_ok [simp]: "codec_ok signers_codec"
  by (simp add: codec_ok_def signers_codec_def dec_enc_signers del: dec_signers.simps)

subsection \<open>The codecs of the ledger\<close>

definition config_codec :: "bytes mint_config codec" where
  "config_codec = via_codec (\<lambda>c. (mc_token_id c, mc_signer_set c, mc_mint_limit c))
     (\<lambda>(t, s, l). \<lparr>mc_token_id = t, mc_signer_set = s, mc_mint_limit = l\<rparr>)
     (pair_codec u64_codec (pair_codec signers_codec u64_codec))"

definition config_tx_codec :: "bytes mint_config_tx codec" where
  "config_tx_codec = via_codec
     (\<lambda>x. let p = mct_prefix x in
        (mcp_token_id p, mcp_configs p, mcp_nonce p, mcp_tombstone_block p, mcp_total_mint_limit p, mct_signature x))
     (\<lambda>(t, cs, n, b, l, s). \<lparr>mct_prefix = \<lparr>mcp_token_id = t, mcp_configs = cs, mcp_nonce = n, mcp_tombstone_block = b,
        mcp_total_mint_limit = l\<rparr>, mct_signature = s\<rparr>)
     (pair_codec u64_codec (pair_codec (list_codec config_codec) (pair_codec bytes_codec (pair_codec u64_codec
       (pair_codec u64_codec (list_codec bytes_codec))))))"

definition validated_codec :: "bytes validated_mint_config_tx codec" where
  "validated_codec = via_codec (\<lambda>v. (vm_mint_config_tx v, vm_signer_set v)) (\<lambda>(x, s). \<lparr>vm_mint_config_tx = x, vm_signer_set = s\<rparr>)
     (pair_codec config_tx_codec signers_codec)"

definition active_codec :: "bytes active_mint_configs codec" where
  "active_codec = via_codec
     (\<lambda>a. (map (\<lambda>c. (am_mint_config c, am_total_minted c)) (ams_configs a), ams_mint_config_tx a))
     (\<lambda>(cs, x). \<lparr>ams_configs = map (\<lambda>(c, n). \<lparr>am_mint_config = c, am_total_minted = n\<rparr>) cs, ams_mint_config_tx = x\<rparr>)
     (pair_codec (list_codec (pair_codec config_codec u64_codec)) config_tx_codec)"

definition mint_tx_codec :: "mint_tx codec" where
  "mint_tx_codec = via_codec
     (\<lambda>x. let p = mt_prefix x in (mtp_token_id p, mtp_amount p, mtp_view_public_key p, mtp_spend_public_key p, mtp_nonce p,
        mtp_tombstone_block p, mtp_e_fog_hint p, mt_signature x))
     (\<lambda>(t, a, v, k, n, b, h, s). \<lparr>mt_prefix = \<lparr>mtp_token_id = t, mtp_amount = a, mtp_view_public_key = v,
        mtp_spend_public_key = k, mtp_nonce = n, mtp_tombstone_block = b, mtp_e_fog_hint = h\<rparr>, mt_signature = s\<rparr>)
     (pair_codec u64_codec (pair_codec u64_codec (pair_codec bytes_codec (pair_codec bytes_codec (pair_codec bytes_codec
       (pair_codec u64_codec (pair_codec (option_codec bytes_codec) (list_codec bytes_codec))))))))"

definition block_codec :: "block codec" where
  "block_codec = via_codec
     (\<lambda>b. (b_id b, b_version b, b_parent_id b, b_index b, b_cumulative_txo_count b,
        (r_from (me_range (b_root_element b)), r_to (me_range (b_root_element b)), me_hash (b_root_element b)), b_contents_hash b))
     (\<lambda>(i, v, p, n, c, (f, t, h), ch). \<lparr>b_id = i, b_version = v, b_parent_id = p, b_index = n, b_cumulative_txo_count = c,
        b_root_element = \<lparr>me_range = \<lparr>r_from = f, r_to = t\<rparr>, me_hash = h\<rparr>, b_contents_hash = ch\<rparr>)
     (pair_codec bytes_codec (pair_codec u32_codec (pair_codec bytes_codec (pair_codec u64_codec (pair_codec u64_codec
       (pair_codec (pair_codec u64_codec (pair_codec u64_codec bytes_codec)) bytes_codec))))))"

definition out_range_codec :: "tx_outs_by_block_value codec" where
  "out_range_codec = via_codec (\<lambda>v. (tv_first_tx_out_index v, tv_num_tx_outs v))
     (\<lambda>(f, n). \<lparr>tv_first_tx_out_index = f, tv_num_tx_outs = n\<rparr>) (pair_codec u64_codec u64_codec)"

lemma config_codec_ok [simp]: "codec_ok config_codec"
  unfolding config_codec_def by (intro codecs_ok) simp_all

lemma config_tx_codec_ok [simp]: "codec_ok config_tx_codec"
  unfolding config_tx_codec_def by (intro codecs_ok) (simp_all add: Let_def)

lemma active_codec_ok [simp]: "codec_ok active_codec"
  unfolding active_codec_def by (intro codecs_ok) (simp_all add: comp_def map_idI)

lemma record_codecs_ok [simp]: "codec_ok validated_codec" "codec_ok mint_tx_codec"
  "codec_ok block_codec" "codec_ok out_range_codec"
  unfolding validated_codec_def mint_tx_codec_def block_codec_def out_range_codec_def
  by (intro codecs_ok; simp add: Let_def)+

subsection \<open>The environment\<close>

definition ex_merlin :: merlin where
  "ex_merlin label ts chal = frame (label # chal # concat (map (\<lambda>(c, bs). [c, bs]) ts))"

lemma pairs_inject: "concat (map (\<lambda>(c, bs). [c, bs]) ts) = concat (map (\<lambda>(c, bs). [c, bs]) us) \<Longrightarrow> ts = us"
proof (induction ts arbitrary: us)
  case Nil
  then show ?case by (cases us) auto
next
  case (Cons t ts)
  then show ?case by (cases t; cases us) auto
qed

lemma ex_merlin_inject: "ex_merlin l ts c = ex_merlin l' us c' \<longleftrightarrow> l = l' \<and> ts = us \<and> c = c'"
  using pairs_inject by (auto simp: ex_merlin_def)

definition ex_ledger :: "(bytes, bytes) ledger_env" where
  "ex_ledger = \<lparr>le_merlin = ex_merlin, le_blake2b256 = ex_blake, le_verify = \<lambda>key message signature. signature = key,
     le_tx_out = \<lparr>enc = encode ex_tx_env, dec = decode ex_tx_env\<rparr>,
     le_mint_codecs = \<lparr>mk_active = active_codec, mk_configs = list_codec validated_codec, mk_mints = list_codec mint_tx_codec\<rparr>,
     le_block = block_codec, le_signature = bytes_codec, le_metadata = bytes_codec, le_key_images = list_codec bytes_codec,
     le_tx_outs = out_range_codec\<rparr>"

lemma ex_ledger_ok: "ledger_env_ok ex_ledger"
  using ex_tx_env_ok
  by (auto simp: ledger_env_ok_def ex_ledger_def le_txo_def env_ok_def blake_ok_def ex_tx_env_def)

end
