(* ===== verification/Ledger_Chain.thy ===== *)
theory Ledger_Chain
  imports Ledger_Example
begin

section \<open>The chain of blocks\<close>

text \<open>
  What a ledger built by appends guarantees to its readers: the data of each block is read back as it was appended, the
  blocks form a chain, a key image is in at most one block, the amounts minted stay within the limits, and an
  append succeeds exactly when the block fits the blocks before it. The examples at the end give the databases
  concrete codecs and hash functions.
\<close>

subsection \<open>Reading blocks\<close>

lemma all_outputs_split:
  assumes "i < length hist"
  shows "all_outputs hist = all_outputs (take i hist) @ outputs_of (hist ! i) @ all_outputs (drop (Suc i) hist)"
proof -
  have "all_outputs (take i hist @ hist ! i # drop (Suc i) hist) =
      all_outputs (take i hist) @ outputs_of (hist ! i) @ all_outputs (drop (Suc i) hist)"
    by (simp add: all_outputs_def)
  then show ?thesis using id_take_nth_drop [OF assms] by simp
qed

lemma ledger_rep_outputs:
  assumes E: "ledger_env_ok E" and rep: "ledger_rep E hist L" and i: "i < length hist"
  defines "a \<equiv> length (all_outputs (take i hist))" and "n \<equiv> length (outputs_of (hist ! i))"
  shows "try_map (get_tx_out_by_index (le_txo E) (ld_tx_out_store L))
      (map word_of_nat [unat (word_of_nat a :: u64)..<unat (word_of_nat a + word_of_nat n :: u64)]) = Ok (outputs_of (hist ! i))"
proof -
  have s: "store_rep (le_txo E) (all_outputs hist) (ld_tx_out_store L)" using rep by (simp add: ledger_rep_def)
  note sp = all_outputs_split [OF i]
  have "a + n \<le> length (all_outputs hist)" using sp by (simp add: a_def n_def)
  then have le: "a + n \<le> 2 ^ 63" using s by (simp add: store_rep_def)
  have u: "unat (word_of_nat a :: u64) = a" "unat (word_of_nat a + word_of_nat n :: u64) = a + n"
    using le unat_of_nat_u64 [of a] unat_of_nat_u64 [of "a + n"] by simp_all
  have "get_tx_out_by_index (le_txo E) (ld_tx_out_store L) (word_of_nat (a + j)) = Ok (outputs_of (hist ! i) ! j)" if "j < n" for j
  proof -
    have "all_outputs hist ! (a + j) = outputs_of (hist ! i) ! j" using that sp by (simp add: a_def n_def nth_append)
    moreover have "a + j < length (all_outputs hist)" using that sp by (simp add: a_def n_def)
    ultimately show ?thesis using store_rep_lookups(1) [OF _ s, of "a + j"] E by (simp add: ledger_env_ok_def)
  qed
  then show ?thesis
    unfolding u by (auto simp: try_map_eq_Ok list_all2_conv_all_nth n_def)
qed

lemma ledger_rep_contents:
  assumes E: "ledger_env_ok E" and rep: "ledger_rep E hist L" and i: "i < length hist"
  shows "get_block_contents E L (word_of_nat i) = Ok (bd_contents (hist ! i))"
proof -
  have len: "length hist \<le> 2 ^ 64" and logs: "block_logs E hist L" using rep by (simp_all add: ledger_rep_def)
  note R = logs [unfolded block_logs_def] and get = log_get [OF _ i len]
  have "ld_tx_outs_by_block L (u64_to_key_bytes (word_of_nat i)) = Some (enc (le_tx_outs E) (output_ranges hist ! i))"
    using R log_get [of "ld_tx_outs_by_block L" "\<lambda>v. Some (enc (le_tx_outs E) v)" "output_ranges hist" i] i len by simp
  moreover have "ld_key_images_by_block L (u64_to_key_bytes (word_of_nat i)) = Some (enc (le_key_images E) (images_of (hist ! i)))"
    using R get [of "ld_key_images_by_block L" "\<lambda>d. Some (enc (le_key_images E) (images_of d))"] by simp
  moreover have "validated_mint_config_txs_by_block (ld_mint_config_store L) (u64_to_key_bytes (word_of_nat i)) =
      Some (enc (mk_configs (le_mint_codecs E)) (configs_of (hist ! i)))"
    using R get [of "validated_mint_config_txs_by_block (ld_mint_config_store L)" "\<lambda>d. Some (enc (mk_configs (le_mint_codecs E)) (configs_of d))"] by simp
  moreover have "mint_txs_by_block (ld_mint_tx_store L) (u64_to_key_bytes (word_of_nat i)) =
      Some (enc (mk_mints (le_mint_codecs E)) (mints_of (hist ! i)))"
    using R get [of "mint_txs_by_block (ld_mint_tx_store L)" "\<lambda>d. Some (enc (mk_mints (le_mint_codecs E)) (mints_of d))"] by simp
  moreover have "output_ranges hist ! i = \<lparr>tv_first_tx_out_index = word_of_nat (length (all_outputs (take i hist))),
      tv_num_tx_outs = word_of_nat (length (outputs_of (hist ! i)))\<rparr>"
    using i by (simp add: output_ranges_def)
  ultimately show ?thesis
    using E ledger_rep_outputs [OF E rep i]
    by (simp add: get_block_contents_def lm_get_dec_Some ledger_env_ok_def get_validated_mint_config_txs_by_block_index_def
        get_mint_txs_by_block_index_def)
qed

lemma optional_get:
  assumes "codec_ok c" and "db k = map_option (enc c) x"
  shows "optional (lm_get_dec c db k) = Ok x"
  using assms by (cases x) (simp_all add: lm_get_dec_Some lm_get_dec_None optional_def)

lemma ledger_rep_data:
  assumes E: "ledger_env_ok E" and rep: "ledger_rep E hist L" and i: "i < length hist"
  shows "get_block_data E L (word_of_nat i) = Ok (hist ! i)"
proof -
  have len: "length hist \<le> 2 ^ 64" and logs: "block_logs E hist L" using rep by (simp_all add: ledger_rep_def)
  note R = logs [unfolded block_logs_def] and get = log_get [OF _ i len]
  have "ld_block_signatures L (u64_to_key_bytes (word_of_nat i)) = map_option (enc (le_signature E)) (bd_signature (hist ! i))"
    using R get [of "ld_block_signatures L" "\<lambda>d. map_option (enc (le_signature E)) (bd_signature d)"] by simp
  moreover have "ld_block_metadata L (u64_to_key_bytes (word_of_nat i)) = map_option (enc (le_metadata E)) (bd_metadata (hist ! i))"
    using R get [of "ld_block_metadata L" "\<lambda>d. map_option (enc (le_metadata E)) (bd_metadata d)"] by simp
  ultimately show ?thesis
    using E ledger_rep_get_block [OF E rep i] ledger_rep_contents [OF E rep i]
    by (simp add: get_block_data_def get_block_signature_def get_block_metadata_def optional_get ledger_env_ok_def)
qed

lemma ledger_rep_beyond:
  assumes rep: "ledger_rep E hist L" and i: "length hist \<le> unat i"
  shows "get_block_data E L i = Err NotFound"
proof -
  have "block_logs E hist L" using rep by (simp add: ledger_rep_def)
  then have h: "holds u64_to_key_bytes (ld_blocks L) (log_of (\<lambda>d. Some (enc (le_block E) (bd_block d))) hist)"
    unfolding block_logs_def by blast
  have "ld_blocks L (u64_to_key_bytes i) = None" using index_db.holds_get [OF h, of i] i by (simp add: log_of_def)
  then show ?thesis by (simp add: get_block_data_def get_block_def lm_get_dec_None)
qed

subsection \<open>When an append succeeds\<close>

text \<open>The outputs of all blocks together differ in public key and in hash and fit into the Merkle tree.\<close>

definition outputs_fit :: "('sig, 'meta) ledger_env \<Rightarrow> tx_out list \<Rightarrow> bool" where
  "outputs_fit E outs \<longleftrightarrow> length outs \<le> 2 ^ 63 \<and> distinct (map out_public_key outs) \<and>
     distinct (map (tx_out_hash32 (le_merlin E)) outs)"

lemma log_put_new_free:
  "length hist < 2 ^ 64 \<Longrightarrow> holds u64_to_key_bytes db (log_of f hist) \<Longrightarrow>
   \<exists>db'. lm_put_new db (u64_to_key_bytes (word_of_nat (length hist))) v = Ok db'"
  using index_db.put_new_free [of db "log_of f hist"] log_of_next [of hist f] by blast

lemma write_tx_outs_returns:
  assumes E: "env_ok (le_txo E)" and "store_rep (le_txo E) xs (ld_tx_out_store T)"
    and "holds u64_to_key_bytes (ld_block_number_by_tx_out_index T) (log_of (\<lambda>y. Some (u64_to_key_bytes y)) ys)"
    and "length ys = length xs" and "outputs_fit E (xs @ outs)"
    and "list_all (\<lambda>out. contains_tx_out_public_key self (out_public_key out) = Ok False) outs"
  shows "\<exists>T'. try_fold (write_tx_out E self (u64_to_key_bytes i)) T outs = Ok T'"
  using assms(2-6)
proof (induction outs arbitrary: T xs ys)
  case (Cons out outs)
  let ?n = "word_of_nat (length xs) :: u64"
  have fit: "length xs < 2 ^ 63" "tx_out_hash (le_txo E) out \<notin> set (map (tx_out_hash (le_txo E)) xs)"
      "public_key (le_txo E) out \<notin> set (map (public_key (le_txo E)) xs)"
    using Cons.prems(4) by (auto simp: outputs_fit_def)
  from push_rep [OF E Cons.prems(1) fit] obtain s where
    s: "tx_out_store_push (le_txo E) (ld_tx_out_store T) out = Ok (?n, s)" "store_rep (le_txo E) (xs @ [out]) s" by blast
  have len: "length ys < 2 ^ 64" using fit(1) Cons.prems(3) by simp
  obtain db where db: "lm_put_new (ld_block_number_by_tx_out_index T) (u64_to_key_bytes ?n) (u64_to_key_bytes i) = Ok db"
    using log_put_new_free [OF len Cons.prems(2)] Cons.prems(3) by auto
  let ?T = "T\<lparr>ld_tx_out_store := s, ld_block_number_by_tx_out_index := db\<rparr>"
  have "write_tx_out E self (u64_to_key_bytes i) T out = Ok ?T"
    using Cons.prems(5) s(1) db by (simp add: write_tx_out_def)
  moreover have "holds u64_to_key_bytes db (log_of (\<lambda>y. Some (u64_to_key_bytes y)) (ys @ [i]))"
    using log_put_new_next [OF len Cons.prems(2)] db Cons.prems(3) by simp
  ultimately show ?case
    using Cons.IH [of "xs @ [out]" ?T "ys @ [i]"] s(2) Cons.prems(3-5) by simp
qed simp

lemma write_tx_outs_frame:
  assumes "write_tx_outs E self i outs T = Ok T'"
  shows "ld_mint_config_store T' = ld_mint_config_store T" "ld_mint_tx_store T' = ld_mint_tx_store T" "ld_counts T' = ld_counts T"
proof -
  have "ld_mint_config_store T' = ld_mint_config_store T \<and> ld_mint_tx_store T' = ld_mint_tx_store T \<and> ld_counts T' = ld_counts T"
    if "try_fold (write_tx_out E self bs) T outs = Ok T'" for bs T
    using that
  proof (induction outs arbitrary: T)
    case (Cons out outs)
    then show ?case by (auto simp: and_then_eq_Ok elim!: write_tx_out_Ok)
  qed simp
  from this [of "u64_to_key_bytes i"] assms
  show "ld_mint_config_store T' = ld_mint_config_store T" "ld_mint_tx_store T' = ld_mint_tx_store T" "ld_counts T' = ld_counts T"
    by (auto simp: write_tx_outs_def Let_def and_then_eq_Ok)
qed

lemma next_block_free:
  assumes "ledger_rep E hist L"
  shows "\<exists>db. lm_put_new (mint_txs_by_block (ld_mint_tx_store L)) (u64_to_key_bytes (word_of_nat (length hist))) v = Ok db"
    and "\<exists>db. lm_put_new (validated_mint_config_txs_by_block (ld_mint_config_store L)) (u64_to_key_bytes (word_of_nat (length hist))) v = Ok db"
proof -
  have len: "length hist < 2 ^ 64" and logs: "block_logs E hist L" using assms by (simp_all add: ledger_rep_def)
  note R = logs [unfolded block_logs_def]
  show "\<exists>db. lm_put_new (mint_txs_by_block (ld_mint_tx_store L)) (u64_to_key_bytes (word_of_nat (length hist))) v = Ok db"
    "\<exists>db. lm_put_new (validated_mint_config_txs_by_block (ld_mint_config_store L)) (u64_to_key_bytes (word_of_nat (length hist))) v = Ok db"
    using R log_put_new_free [OF len] by blast+
qed

lemma mint_free_stores:
  assumes rep: "ledger_rep E hist L"
  obtains cs ts where "write_mint_txs (le_mint E) (le_mint_codecs E) (word_of_nat (length hist)) []
      (ld_mint_config_store L, ld_mint_tx_store L) = Ok (ld_mint_config_store L, ts)"
    and "write_validated_mint_config_txs (le_mint_codecs E) (word_of_nat (length hist)) [] (ld_mint_config_store L) = Ok cs"
proof -
  obtain db db' where "lm_put_new (mint_txs_by_block (ld_mint_tx_store L)) (u64_to_key_bytes (word_of_nat (length hist)))
      (enc (mk_mints (le_mint_codecs E)) []) = Ok db"
    and "lm_put_new (validated_mint_config_txs_by_block (ld_mint_config_store L))
      (u64_to_key_bytes (word_of_nat (length hist))) (enc (mk_configs (le_mint_codecs E)) []) = Ok db'"
    using next_block_free [OF rep] by metis
  then show ?thesis
    using that [of "ld_mint_tx_store L\<lparr>mint_txs_by_block := db\<rparr>"]
    by (simp add: write_mint_txs_def write_validated_mint_config_txs_def)
qed

lemma append_returns:
  assumes E: "ledger_env_ok E" and rep: "ledger_rep E hist L"
    and chk: "linked E hist d" "populated d" "unspent hist d" "fresh hist d" "outputs_fit E (all_outputs (hist @ [d]))"
    and m: "write_mint_txs (le_mint E) (le_mint_codecs E) (word_of_nat (length hist)) (mints_of d)
      (ld_mint_config_store L, ld_mint_tx_store L) = Ok (cs, ts)"
    and c: "write_validated_mint_config_txs (le_mint_codecs E) (word_of_nat (length hist)) (configs_of d) cs = Ok cs'"
  shows "\<exists>L'. append_block_data E L d = Ok L'"
proof -
  let ?i = "word_of_nat (length hist) :: u64"
  have i: "b_index (bd_block d) = ?i" using chk(1) by (simp add: linked_def Let_def)
  have E': "env_ok (le_txo E)" using E by (simp add: ledger_env_ok_def)
  have R: "store_rep (le_txo E) (all_outputs hist) (ld_tx_out_store L)"
      "holds u64_to_key_bytes (ld_block_number_by_tx_out_index L) (log_of (\<lambda>y. Some (u64_to_key_bytes y)) (output_blocks hist))"
      "ld_counts L NUM_BLOCKS_KEY = Some (u64_to_key_bytes ?i)"
    using rep by (simp_all add: ledger_rep_def)
  have v: "validate_append_block E L (bd_block d) (bd_contents d) (bd_metadata d) L = Ok ()"
    unfolding validate_append_block_Ok [OF E rep] using chk(1-4) by blast
  let ?T1 = "L\<lparr>ld_key_images := put_images ?i (images_of d) (ld_key_images L),
      ld_key_images_by_block := lm_put (ld_key_images_by_block L) (u64_to_key_bytes ?i) (enc (le_key_images E) (images_of d))\<rparr>"
  have k: "write_key_images E L ?i (images_of d) L = Ok ?T1"
    using chk(3) by (auto simp: write_key_images_eq list_all_iff ledger_rep_key_image [OF rep] unspent_def)
  let ?T = "?T1\<lparr>ld_tx_outs_by_block := lm_put (ld_tx_outs_by_block L) (u64_to_key_bytes ?i) (enc (le_tx_outs E)
      \<lparr>tv_first_tx_out_index = word_of_nat (length (all_outputs hist)), tv_num_tx_outs = word_of_nat (length (outputs_of d))\<rparr>)\<rparr>"
  have "list_all (\<lambda>out. contains_tx_out_public_key L (out_public_key out) = Ok False) (outputs_of d)"
    using chk(4) by (auto simp: list_all_iff store_rep_contains_key [OF R(1)] fresh_def)
  then obtain T2 where T2: "try_fold (write_tx_out E L (u64_to_key_bytes ?i)) ?T (outputs_of d) = Ok T2"
    using write_tx_outs_returns [OF E' _ _ length_output_blocks, of hist ?T "outputs_of d" L] R(1,2) chk(5) by auto
  have w: "write_tx_outs E L ?i (outputs_of d) ?T1 = Ok T2"
    using T2 store_rep_num(1) [OF R(1)] by (simp add: write_tx_outs_def Let_def)
  note f = write_tx_outs_frame [OF w, simplified]
  have "ld_counts (T2\<lparr>ld_mint_config_store := cs', ld_mint_tx_store := ts\<rparr>) NUM_BLOCKS_KEY = Some (u64_to_key_bytes ?i)"
    using R(3) f(3) by simp
  from write_block_eq [OF this] obtain L' where "write_block E (bd_block d) (bd_signature d) (bd_metadata d)
      (T2\<lparr>ld_mint_config_store := cs', ld_mint_tx_store := ts\<rparr>) = Ok L'" by blast
  with v k w m c f(1,2) show ?thesis by (simp add: append_block_data_def append_block_def i)
qed

lemma append_accepted:
  assumes E: "ledger_env_ok E" and rep: "ledger_rep E hist L"
  shows "(\<exists>L'. append_block_data E L d = Ok L') \<longleftrightarrow> linked E hist d \<and> populated d \<and> unspent hist d \<and> fresh hist d \<and>
    outputs_fit E (all_outputs (hist @ [d])) \<and>
    (\<exists>cs ts cs'. write_mint_txs (le_mint E) (le_mint_codecs E) (word_of_nat (length hist)) (mints_of d)
        (ld_mint_config_store L, ld_mint_tx_store L) = Ok (cs, ts) \<and>
      write_validated_mint_config_txs (le_mint_codecs E) (word_of_nat (length hist)) (configs_of d) cs = Ok cs')"
    (is "_ \<longleftrightarrow> ?ok")
proof
  show ?ok if "\<exists>L'. append_block_data E L d = Ok L'"
  proof -
    from that obtain L' where app: "append_block_data E L d = Ok L'" by blast
    obtain s db cs ts cs' where chk: "linked E hist d" "populated d" "unspent hist d" "fresh hist d"
      and s: "store_rep (le_txo E) (all_outputs (hist @ [d])) s"
      and m: "write_mint_txs (le_mint E) (le_mint_codecs E) (word_of_nat (length hist)) (mints_of d)
        (ld_mint_config_store L, ld_mint_tx_store L) = Ok (cs, ts)"
      and c: "write_validated_mint_config_txs (le_mint_codecs E) (word_of_nat (length hist)) (configs_of d) cs = Ok cs'"
      by (rule append_state [OF E rep app])
    have "outputs_fit E (all_outputs (hist @ [d]))" using s by (simp add: outputs_fit_def store_rep_def)
    with chk m c show ?thesis by (intro conjI exI)
  qed
  show "\<exists>L'. append_block_data E L d = Ok L'" if ?ok
    using that by (elim conjE exE) (rule append_returns [OF E rep])
qed

subsection \<open>Minting\<close>

text \<open>
  What each token has minted since its configurations were last set, and the transaction that set them. The configurations
  of a block take effect after its minting transactions.
\<close>

definition minted :: "('sig, 'meta) block_data list \<Rightarrow> u64 \<Rightarrow> nat" where
  "minted hist = foldl (\<lambda>n d. reset_minted (foldl add_minted n (mints_of d)) (configs_of d)) (\<lambda>_. 0) hist"

definition current_configs :: "('sig, 'meta) block_data list \<Rightarrow> u64 \<rightharpoonup> bytes mint_config_tx" where
  "current_configs hist = foldl (\<lambda>c v. c(config_token v \<mapsto> vm_mint_config_tx v)) Map.empty (concat (map configs_of hist))"

definition mint_limit :: "('sig, 'meta) block_data list \<Rightarrow> u64 \<Rightarrow> nat" where
  "mint_limit hist t = (case current_configs hist t of None \<Rightarrow> 0 | Some tx \<Rightarrow> unat (mcp_total_mint_limit (mct_prefix tx)))"

definition configs_rep :: "'p mint_codecs \<Rightarrow> (u64 \<rightharpoonup> 'p mint_config_tx) \<Rightarrow> mint_config_store \<Rightarrow> bool" where
  "configs_rep K c s \<longleftrightarrow> (\<forall>t. \<exists>r. get_active_mint_configs K t s = Ok r \<and> c t = map_option ams_mint_config_tx r)"

lemma configs_rep_put:
  assumes "codec_ok (mk_active K)" and "configs_rep K c s"
  shows "configs_rep K (c(t \<mapsto> ams_mint_config_tx a)) (s\<lparr>active_mint_configs_by_token_id :=
      lm_put (active_mint_configs_by_token_id s) (u64_to_key_bytes t) (enc (mk_active K) a)\<rparr>)"
  using assms by (simp add: configs_rep_def get_active_put)

lemma configs_rep_frame:
  "active_mint_configs_by_token_id s' = active_mint_configs_by_token_id s \<Longrightarrow> configs_rep K c s' = configs_rep K c s"
  by (simp add: configs_rep_def get_active_mint_configs_def)

lemma update_total_minted_configs:
  assumes K: "codec_ok (mk_active K)" and u: "update_total_minted K mc m s = Ok s'" and rep: "configs_rep K c s"
  shows "configs_rep K c s'"
proof -
  from u obtain a where a: "get_active_mint_configs K (mc_token_id mc) s = Ok (Some a)"
    and s': "s' = s\<lparr>active_mint_configs_by_token_id := lm_put (active_mint_configs_by_token_id s) (u64_to_key_bytes (mc_token_id mc))
      (enc (mk_active K) (a\<lparr>ams_configs := set_first_minted mc m (ams_configs a)\<rparr>))\<rparr>"
    by (auto simp: update_total_minted_def outcome_simps Let_def split: if_split_asm)
  have "\<exists>r. get_active_mint_configs K (mc_token_id mc) s = Ok r \<and> c (mc_token_id mc) = map_option ams_mint_config_tx r"
    using rep by (simp add: configs_rep_def)
  then have "c(mc_token_id mc \<mapsto> ams_mint_config_tx a) = c" using a by auto
  with configs_rep_put [OF K rep, of "mc_token_id mc" "a\<lparr>ams_configs := set_first_minted mc m (ams_configs a)\<rparr>"] s'
  show ?thesis by simp
qed

lemma write_mint_txs_configs:
  assumes K: "codec_ok (mk_active K)" and w: "write_mint_txs M K i txs (cs, ts) = Ok (cs', ts')" and rep: "configs_rep K c cs"
  shows "configs_rep K c cs'"
proof -
  have "configs_rep K c (fst stores')"
    if "try_fold (write_mint_tx M K bs) stores txs = Ok stores'" "configs_rep K c (fst stores)" for bs stores stores'
    using that
  proof (induction txs arbitrary: stores)
    case (Cons tx txs)
    from Cons.prems(1) obtain st where st: "write_mint_tx M K bs stores tx = Ok st" "try_fold (write_mint_tx M K bs) st txs = Ok stores'"
      by (auto simp: and_then_eq_Ok)
    then obtain a m where "update_total_minted K a m (fst stores) = Ok (fst st)"
      by (cases stores) (auto simp: write_mint_tx_def outcome_simps)
    from Cons.IH [OF st(2) update_total_minted_configs [OF K this Cons.prems(2)]] show ?case .
  qed simp
  moreover from w obtain db where
    "try_fold (write_mint_tx M K (u64_to_key_bytes i)) (cs, ts\<lparr>mint_txs_by_block := db\<rparr>) txs = Ok (cs', ts')"
    by (auto simp: write_mint_txs_def Let_def outcome_simps)
  ultimately show ?thesis using rep by fastforce
qed

lemma write_configs_configs:
  assumes K: "codec_ok (mk_active K)" and w: "write_validated_mint_config_txs K i vs s = Ok s'" and rep: "configs_rep K c s"
  shows "configs_rep K (foldl (\<lambda>c v. c(config_token v \<mapsto> vm_mint_config_tx v)) c vs) s'"
proof -
  let ?f = "\<lambda>bs s v. let tx = vm_mint_config_tx v in and_then (check_mint_config tx) (\<lambda>_.
      and_then (write_config_nonce tx s bs) (\<lambda>s. Ok (write_active_mint_configs_by_token_id K tx s)))"
  have "configs_rep K (foldl (\<lambda>c v. c(config_token v \<mapsto> vm_mint_config_tx v)) c vs) s'"
    if "try_fold (?f bs) s vs = Ok s'" "configs_rep K c s" for bs s c
    using that
  proof (induction vs arbitrary: s c)
    case (Cons v vs)
    let ?tx = "vm_mint_config_tx v"
    from Cons.prems(1) obtain db where
      rest: "try_fold (?f bs) (write_active_mint_configs_by_token_id K ?tx
        (s\<lparr>block_index_by_mint_config_tx_nonce_and_token_id := db\<rparr>)) vs = Ok s'"
      by (auto simp: Let_def write_config_nonce_def outcome_simps)
    have "configs_rep K c (s\<lparr>block_index_by_mint_config_tx_nonce_and_token_id := db\<rparr>)"
      using Cons.prems(2) configs_rep_frame [of "s\<lparr>block_index_by_mint_config_tx_nonce_and_token_id := db\<rparr>" s K c] by simp
    from configs_rep_put [OF K this, of "config_token v" "active_mint_configs_from ?tx"]
    have "configs_rep K (c(config_token v \<mapsto> ?tx)) (write_active_mint_configs_by_token_id K ?tx
        (s\<lparr>block_index_by_mint_config_tx_nonce_and_token_id := db\<rparr>))"
      by (simp add: write_active_mint_configs_by_token_id_def active_mint_configs_from_def)
    from Cons.IH [OF rest this] show ?case by simp
  qed simp
  moreover from w obtain db where "try_fold (?f (u64_to_key_bytes i)) (s\<lparr>validated_mint_config_txs_by_block := db\<rparr>) vs = Ok s'"
    by (auto simp: write_validated_mint_config_txs_def Let_def outcome_simps)
  moreover have "configs_rep K c (s\<lparr>validated_mint_config_txs_by_block := db\<rparr>)" for db
    using rep configs_rep_frame [of "s\<lparr>validated_mint_config_txs_by_block := db\<rparr>" s K c] by simp
  ultimately show ?thesis by blast
qed

lemma minting_limit:
  assumes "minting_inv K n s" and "configs_rep K c s"
  shows "n t \<le> (case c t of None \<Rightarrow> 0 | Some tx \<Rightarrow> unat (mcp_total_mint_limit (mct_prefix tx)))"
proof -
  obtain r where r: "get_active_mint_configs K t s = Ok r" "c t = map_option ams_mint_config_tx r"
    using assms(2) by (auto simp: configs_rep_def)
  moreover have "minting_at K t (n t) s" using assms(1) by (simp add: minting_inv_def)
  ultimately show ?thesis by (cases r) (simp_all add: minting_at_def active_wf_def total_mint_limit_def)
qed

lemma append_minting:
  assumes E: "ledger_env_ok E" and rep: "ledger_rep E hist L" and app: "append_block_data E L d = Ok L'"
    and inv: "minting_inv (le_mint_codecs E) (minted hist) (ld_mint_config_store L)"
      "configs_rep (le_mint_codecs E) (current_configs hist) (ld_mint_config_store L)"
    and dist: "list_all distinct_configs (configs_of d)"
  shows "foldl add_minted (minted hist) (mints_of d) t \<le> mint_limit hist t"
    and "minting_inv (le_mint_codecs E) (minted (hist @ [d])) (ld_mint_config_store L')"
    and "configs_rep (le_mint_codecs E) (current_configs (hist @ [d])) (ld_mint_config_store L')"
proof -
  have K: "codec_ok (mk_active (le_mint_codecs E))" using E by (simp add: ledger_env_ok_def)
  obtain s db cs ts cs' where L': "L' = appended E hist d L s db cs' ts"
    and m: "write_mint_txs (le_mint E) (le_mint_codecs E) (word_of_nat (length hist)) (mints_of d)
      (ld_mint_config_store L, ld_mint_tx_store L) = Ok (cs, ts)"
    and c: "write_validated_mint_config_txs (le_mint_codecs E) (word_of_nat (length hist)) (configs_of d) cs = Ok cs'"
    by (rule append_state [OF E rep app])
  note mi = write_mint_txs_inv [OF K m inv(1)] write_mint_txs_configs [OF K m inv(2)]
  show "foldl add_minted (minted hist) (mints_of d) t \<le> mint_limit hist t"
    using minting_limit [OF mi] by (simp add: mint_limit_def)
  have "ld_mint_config_store L' = cs'" by (simp add: L' appended_def Let_def)
  with write_configs_inv [OF K c mi(1) dist] write_configs_configs [OF K c mi(2)]
  show "minting_inv (le_mint_codecs E) (minted (hist @ [d])) (ld_mint_config_store L')"
    "configs_rep (le_mint_codecs E) (current_configs (hist @ [d])) (ld_mint_config_store L')"
    by (simp_all add: minted_def current_configs_def)
qed

end
