(* ===== verification/Ledger_Guarantees.thy ===== *)
theory Ledger_Guarantees
  imports Ledger_Chain
begin

section \<open>What the ledger guarantees\<close>

text \<open>
  The properties of a ledger that was built by appends, over its list of blocks, with the examples on which each is
  applied.
\<close>

subsection \<open>A small chain\<close>

text \<open>The next block of an example chain, with the given contents.\<close>

definition ex_next :: "(bytes, bytes) block_data list \<Rightarrow> block_contents \<Rightarrow> (bytes, bytes) block_data" where
  "ex_next hist c =
     \<lparr>bd_block = block_new ex_merlin 0 (if hist = [] then default_block_id else b_id (bd_block (last hist)))
        (word_of_nat (length hist)) (word_of_nat (length (all_outputs hist) + length (bc_outputs c)))
        \<lparr>me_range = \<lparr>r_from = 0, r_to = 0\<rparr>, me_hash = replicate 32 0\<rparr> c,
      bd_contents = c, bd_signature = Some [7], bd_metadata = None\<rparr>"

definition ex_contents :: "bytes list \<Rightarrow> u8 list \<Rightarrow> block_contents" where
  "ex_contents images outs =
     \<lparr>bc_key_images = images, bc_outputs = map ex_out outs, bc_validated_mint_config_txs = [], bc_mint_txs = []\<rparr>"

lemma ex_next_simps [simp]:
  "bd_contents (ex_next hist c) = c" "b_version (bd_block (ex_next hist c)) = 0"
  "b_index (bd_block (ex_next hist c)) = word_of_nat (length hist)"
  by (simp_all add: ex_next_def block_new_def Let_def)

lemma ex_next_linked:
  assumes "hist \<noteq> [] \<Longrightarrow> b_version (bd_block (last hist)) = 0"
  shows "linked ex_ledger hist (ex_next hist c)"
proof -
  have "is_block_id_valid ex_merlin (bd_block (ex_next hist c))" by (simp add: ex_next_def new_block_id_valid)
  then show ?thesis using assms by (auto simp: linked_def Let_def ex_ledger_def ex_next_def block_new_def)
qed

lemma ex_out_inject [simp]: "ex_out a = ex_out b \<longleftrightarrow> a = b"
  by (auto simp: ex_out_def)

lemma tx_out_hash_ex: "tx_out_hash32 ex_merlin x = tx_out_hash32 ex_merlin y \<Longrightarrow> x = y"
  unfolding tx_out_hash32_def by (rule dg_tx_out.digest_inject) (auto simp: inj_on_def ex_merlin_inject)

lemma ex_outputs_fit:
  assumes "distinct ks" and "length ks \<le> 2 ^ 63"
  shows "outputs_fit ex_ledger (map ex_out ks)"
proof -
  have "distinct (map (tx_out_hash32 ex_merlin) (map ex_out ks))"
    using assms(1) tx_out_hash_ex by (force simp: distinct_map inj_on_def)
  moreover have "distinct (map out_public_key (map ex_out ks))"
    using assms(1) by (auto simp: distinct_map inj_on_def ex_out_def)
  ultimately show ?thesis using assms(2) by (simp add: outputs_fit_def ex_ledger_def)
qed

lemma ex_append_contents:
  assumes "append_all ex_ledger hist = Ok L" and "length hist < 2 ^ 64" and "hist \<noteq> [] \<Longrightarrow> b_version (bd_block (last hist)) = 0"
    and "all_outputs hist = map ex_out ks" and "bc_outputs c = map ex_out outs" and "distinct (ks @ outs)" and "length (ks @ outs) \<le> 2 ^ 63"
    and "populated (ex_next hist c)" and "set (bc_key_images c) \<inter> fst ` set (spent hist) = {}"
    and "set (map (fst \<circ> mint_nonce 0) (bc_mint_txs c)) \<inter> fst ` set (mint_nonces hist) = {}"
    and "set (map (fst \<circ> config_nonce 0) (bc_validated_mint_config_txs c)) \<inter> fst ` set (config_nonces hist) = {}"
    and m: "write_mint_txs (le_mint ex_ledger) (le_mint_codecs ex_ledger) (word_of_nat (length hist)) (bc_mint_txs c)
      (ld_mint_config_store L, ld_mint_tx_store L) = Ok (cs, ts)"
    and c: "write_validated_mint_config_txs (le_mint_codecs ex_ledger) (word_of_nat (length hist)) (bc_validated_mint_config_txs c) cs = Ok cs'"
  shows "\<exists>L'. append_block_data ex_ledger L (ex_next hist c) = Ok L'"
proof -
  note rep = append_all_rep [OF ex_ledger_ok assms(1,2)]
  have keys: "distinct (map out_public_key (map ex_out (ks @ outs)))"
    using ex_outputs_fit [OF assms(6,7)] by (simp add: outputs_fit_def)
  show ?thesis
  proof (rule append_returns [OF ex_ledger_ok rep])
    show "linked ex_ledger hist (ex_next hist c)" using assms(3) by (rule ex_next_linked)
    show "populated (ex_next hist c)" by (rule assms(8))
    show "unspent hist (ex_next hist c)" using assms(9) by (simp add: unspent_def)
    show "fresh hist (ex_next hist c)" using keys assms(4,5,10,11) by (auto simp: fresh_def)
    show "outputs_fit ex_ledger (all_outputs (hist @ [ex_next hist c]))"
      using ex_outputs_fit [OF assms(6,7)] assms(4,5) by simp
  qed (use m c in simp_all)
qed

lemma ex_append:
  assumes "append_all ex_ledger hist = Ok L" and "length hist < 2 ^ 64" and "hist \<noteq> [] \<Longrightarrow> b_version (bd_block (last hist)) = 0"
    and "all_outputs hist = map ex_out ks" and "distinct (ks @ outs)" and "length (ks @ outs) \<le> 2 ^ 63"
    and "outs \<noteq> []" and "hist = [] \<or> images \<noteq> []" and "set images \<inter> fst ` set (spent hist) = {}"
  shows "\<exists>L'. append_block_data ex_ledger L (ex_next hist (ex_contents images outs)) = Ok L'"
proof -
  obtain cs ts where m: "write_mint_txs (le_mint ex_ledger) (le_mint_codecs ex_ledger) (word_of_nat (length hist)) []
      (ld_mint_config_store L, ld_mint_tx_store L) = Ok (ld_mint_config_store L, ts)"
    and c: "write_validated_mint_config_txs (le_mint_codecs ex_ledger) (word_of_nat (length hist)) [] (ld_mint_config_store L) = Ok cs"
    by (rule mint_free_stores [OF append_all_rep [OF ex_ledger_ok assms(1,2)]])
  have "populated (ex_next hist (ex_contents images outs))"
    using assms(7,8) by (auto simp: populated_def ex_contents_def ex_out_def list_all_iff require_block_metadata_def)
  with ex_append_contents [OF assms(1-4) _ assms(5,6), of "ex_contents images outs"] assms(9) m c show ?thesis
    by (simp add: ex_contents_def)
qed

definition ex_origin :: "(bytes, bytes) block_data" where
  "ex_origin = ex_next [] (ex_contents [] [1])"

definition ex_second :: "(bytes, bytes) block_data" where
  "ex_second = ex_next [ex_origin] (ex_contents [[9]] [2])"

lemma ex_chain: "\<exists>L. append_all ex_ledger [ex_origin] = Ok L" "\<exists>L. append_all ex_ledger [ex_origin, ex_second] = Ok L"
proof -
  have "append_all ex_ledger [] = Ok ledger_create" by (simp add: append_all_def)
  from ex_append [OF this, of "[]" "[1]" "[]"] obtain L where "append_all ex_ledger [ex_origin] = Ok L"
    by (auto simp: append_all_def ex_origin_def all_outputs_def by_block_def)
  then show "\<exists>L. append_all ex_ledger [ex_origin] = Ok L" by blast
  from ex_append [OF \<open>append_all ex_ledger [ex_origin] = Ok L\<close>, of "[1]" "[2]" "[[9]]"] \<open>append_all ex_ledger [ex_origin] = Ok L\<close>
  show "\<exists>L. append_all ex_ledger [ex_origin, ex_second] = Ok L"
    using append_all_snoc [of ex_ledger "[ex_origin]" ex_second]
    by (auto simp: ex_second_def ex_origin_def all_outputs_def by_block_def ex_contents_def)
qed

lemma ex_chain_unsigned: "\<exists>L. append_all ex_ledger [ex_origin, ex_second\<lparr>bd_signature := None\<rparr>] = Ok L"
proof -
  obtain L L' where L: "append_all ex_ledger [ex_origin] = Ok L" "append_all ex_ledger [ex_origin, ex_second] = Ok L'"
    using ex_chain by blast
  then have "append_block_data ex_ledger L ex_second = Ok L'"
    using append_all_snoc [of ex_ledger "[ex_origin]" ex_second] by simp
  note rep = append_all_rep [OF ex_ledger_ok L(1)]
  have "\<exists>L'. append_block_data ex_ledger L (ex_second\<lparr>bd_signature := None\<rparr>) = Ok L'"
    using append_accepted [OF ex_ledger_ok rep, of ex_second]
      append_accepted [OF ex_ledger_ok rep, of "ex_second\<lparr>bd_signature := None\<rparr>"] \<open>append_block_data ex_ledger L ex_second = Ok L'\<close>
    by (simp add: linked_def populated_def unspent_def fresh_def all_outputs_def)
  then show ?thesis using L append_all_snoc [of ex_ledger "[ex_origin]" "ex_second\<lparr>bd_signature := None\<rparr>"] by auto
qed

subsection \<open>Reading and appending\<close>

text \<open>C21. Append-only storage: after any sequence of successful appends, the ledger counts the blocks and the outputs that
  were appended, the block data read at each index (header, contents with outputs in order, signature and metadata) is
  exactly what was appended there, each output leads to the block it is in, and every other index is not found.\<close>

theorem block_data_round_trip:
  assumes "ledger_env_ok E" and "append_all E hist = Ok L" and "length hist < 2 ^ 64"
  shows "num_blocks L = Ok (word_of_nat (length hist)) \<and> num_txos L = Ok (word_of_nat (length (all_outputs hist))) \<and>
    get_block_data E L i = (if unat i < length hist then Ok (hist ! unat i) else Err NotFound) \<and>
    get_block_index_by_tx_out_index L j = (if unat j < length (all_outputs hist) then Ok (output_blocks hist ! unat j) else Err NotFound)"
proof -
  note rep = append_all_rep [OF assms]
  have s: "store_rep (le_txo E) (all_outputs hist) (ld_tx_out_store L)"
    and h: "holds u64_to_key_bytes (ld_block_number_by_tx_out_index L) (log_of (\<lambda>y. Some (u64_to_key_bytes y)) (output_blocks hist))"
    using rep by (simp_all add: ledger_rep_def)
  have "get_block_index_by_tx_out_index L j = (if unat j < length (all_outputs hist) then Ok (output_blocks hist ! unat j) else Err NotFound)"
    using index_db.holds_get [OF h, of j]
    by (simp add: get_block_index_by_tx_out_index_def lm_get_def log_of_def length_output_blocks)
  moreover have "get_block_data E L i = (if unat i < length hist then Ok (hist ! unat i) else Err NotFound)"
    using ledger_rep_data [OF assms(1) rep, of "unat i"] ledger_rep_beyond [OF rep, of i] by simp
  ultimately show ?thesis
    using ledger_rep_num_blocks [OF rep] store_rep_num(1) [OF s] by (simp add: num_txos_def)
qed

theorem block_data_round_trip_witness:
  "\<exists>L. append_all ex_ledger [ex_origin, ex_second] = Ok L \<and> num_blocks L = Ok 2 \<and> num_txos L = Ok 2 \<and>
    get_block_data ex_ledger L 1 = Ok ex_second \<and> get_block_index_by_tx_out_index L 1 = Ok 1"
proof -
  obtain L where L: "append_all ex_ledger [ex_origin, ex_second] = Ok L" using ex_chain(2) by blast
  show ?thesis using block_data_round_trip [OF ex_ledger_ok L, of 1 1] L
    by (simp add: all_outputs_def output_blocks_def ex_origin_def ex_second_def ex_contents_def)
qed

text \<open>C22. A block is accepted by a ledger exactly when its header continues the chain (index, version, parent, own id and
  the hash of its contents), its contents are populated as required, it spends no key image of an earlier block, its output
  keys and minting nonces are new, its outputs differ from all outputs in key and hash and fit into the Merkle tree,
  and the minting stores accept its minting and configuration transactions.\<close>

theorem append_exact:
  assumes "ledger_env_ok E" and "append_all E hist = Ok L" and "length hist < 2 ^ 64"
  shows "(\<exists>L'. append_block_data E L d = Ok L') \<longleftrightarrow> linked E hist d \<and> populated d \<and> unspent hist d \<and> fresh hist d \<and>
    outputs_fit E (all_outputs (hist @ [d])) \<and>
    (\<exists>cs ts cs'. write_mint_txs (le_mint E) (le_mint_codecs E) (word_of_nat (length hist)) (mints_of d)
        (ld_mint_config_store L, ld_mint_tx_store L) = Ok (cs, ts) \<and>
      write_validated_mint_config_txs (le_mint_codecs E) (word_of_nat (length hist)) (configs_of d) cs = Ok cs')"
  by (rule append_accepted [OF assms(1) append_all_rep [OF assms]])

theorem append_exact_witness:
  "\<exists>L. append_all ex_ledger [ex_origin] = Ok L \<and> linked ex_ledger [ex_origin] ex_second \<and> unspent [ex_origin] ex_second \<and>
    \<not> (\<exists>L'. append_block_data ex_ledger L ex_origin = Ok L')"
proof -
  obtain L L' where L: "append_all ex_ledger [ex_origin] = Ok L" "append_all ex_ledger [ex_origin, ex_second] = Ok L'"
    using ex_chain by blast
  then have "append_block_data ex_ledger L ex_second = Ok L'"
    using append_all_snoc [of ex_ledger "[ex_origin]" ex_second] by simp
  moreover have "\<not> linked ex_ledger [ex_origin] ex_origin"
    by (simp add: linked_def ex_origin_def Let_def)
  ultimately show ?thesis
    using append_exact [OF ex_ledger_ok L(1), of ex_second] append_exact [OF ex_ledger_ok L(1), of ex_origin] L(1) by auto
qed

subsection \<open>The chain\<close>

text \<open>C24. The blocks of a ledger form a chain: each carries its position as index, an id that is the hash of its header, the
  hash of its contents, and after the first the id of the block before it as parent; versions never decrease and never
  exceed the largest supported one.\<close>

theorem blocks_chained:
  assumes "ledger_env_ok E" and "append_all E hist = Ok L" and "length hist < 2 ^ 64" and "i < length hist"
  shows "\<exists>b. get_block E L (word_of_nat i) = Ok b \<and> b_index b = word_of_nat i \<and> is_block_id_valid (le_merlin E) b \<and>
    b_version b \<le> BLOCK_VERSION_MAX \<and> b_contents_hash b = block_contents_hash (le_merlin E) (bd_contents (hist ! i)) \<and>
    (if i = 0 then b_parent_id b = default_block_id
     else \<exists>p. get_block E L (word_of_nat (i - 1)) = Ok p \<and> b_parent_id b = b_id p \<and> b_version p \<le> b_version b)"
proof -
  note rep = append_all_rep [OF assms(1-3)]
  have "linked E (take i hist) (hist ! i)" using rep assms(4) by (simp add: ledger_rep_def chain_ok_def)
  moreover have "last (take i hist) = hist ! (i - 1)" if "i \<noteq> 0"
    using that assms(4) by (subst last_conv_nth) (auto simp: min_def)
  moreover have "hist \<noteq> []" using assms(4) by auto
  ultimately show ?thesis
    using ledger_rep_get_block [OF assms(1) rep assms(4)] ledger_rep_get_block [OF assms(1) rep, of "i - 1"] assms(4)
    by (cases "i = 0") (auto simp: linked_def Let_def)
qed

theorem blocks_chained_witness:
  "\<exists>L b p. append_all ex_ledger [ex_origin, ex_second] = Ok L \<and> get_block ex_ledger L 1 = Ok b \<and>
    get_block ex_ledger L 0 = Ok p \<and> b_parent_id b = b_id p"
proof -
  obtain L where L: "append_all ex_ledger [ex_origin, ex_second] = Ok L" using ex_chain(2) by blast
  show ?thesis using blocks_chained [OF ex_ledger_ok L, of 1] L by auto
qed

text \<open>The blocks and contents with the same hashes, when no two of the transcripts involved collide.\<close>

definition header_transcript :: "block \<Rightarrow> transcript" where
  "header_transcript b = block_id_transcript (b_version b) (b_parent_id b) (b_index b) (b_cumulative_txo_count b)
     (b_root_element b) (b_contents_hash b)"

definition contents_transcript :: "block_contents \<Rightarrow> transcript" where
  "contents_transcript c = append_contents c (ascii ''block_contents'') []"

definition no_collisions :: "merlin \<Rightarrow> ('sig, 'meta) block_data list \<Rightarrow> bool" where
  "no_collisions m ds \<longleftrightarrow>
     inj_on (extract_digest m (ascii ''mobilecoin-block-id'')) (header_transcript ` bd_block ` set ds) \<and>
     inj_on (extract_digest m (ascii ''digestible'')) (contents_transcript ` bd_contents ` set ds)"

lemma same_id_same_block:
  assumes "no_collisions m ds" and "d \<in> set ds" and "e \<in> set ds" and "contents_ok (bd_contents d)" and "contents_ok (bd_contents e)"
    and "is_block_id_valid m (bd_block d)" and "is_block_id_valid m (bd_block e)"
    and "b_contents_hash (bd_block d) = block_contents_hash m (bd_contents d)"
    and "b_contents_hash (bd_block e) = block_contents_hash m (bd_contents e)"
    and same: "b_id (bd_block d) = b_id (bd_block e)"
  shows "bd_block d = bd_block e" and "bd_contents d = bd_contents e"
proof -
  have "extract_digest m (ascii ''mobilecoin-block-id'') (header_transcript (bd_block d)) =
      extract_digest m (ascii ''mobilecoin-block-id'') (header_transcript (bd_block e))"
    using assms(6,7) same by (simp add: is_block_id_valid_def compute_block_id_def header_transcript_def)
  then have "header_transcript (bd_block d) = header_transcript (bd_block e)"
    using assms(1-3) by (auto simp: no_collisions_def dest: inj_onD)
  note f = block_id_transcript_inject [OF this [unfolded header_transcript_def]]
  with same show "bd_block d = bd_block e" by (intro block.equality) simp_all
  have "extract_digest m (ascii ''digestible'') (contents_transcript (bd_contents d)) =
      extract_digest m (ascii ''digestible'') (contents_transcript (bd_contents e))"
    using assms(8,9) f by (simp add: block_contents_hash_def digest32_def contents_transcript_def)
  then have "contents_transcript (bd_contents d) = contents_transcript (bd_contents e)"
    using assms(1-3) by (auto simp: no_collisions_def dest: inj_onD)
  then show "bd_contents d = bd_contents e"
    using assms(4,5) by (intro dg_contents.app_inject [of _ _ "ascii ''block_contents''" "[]"]) (simp_all add: contents_transcript_def)
qed

lemma chain_ok_last:
  assumes "chain_ok E (hist @ [d])"
  shows "chain_ok E hist" and "is_block_id_valid (le_merlin E) (bd_block d)" and "b_index (bd_block d) = word_of_nat (length hist)"
    and "b_contents_hash (bd_block d) = block_contents_hash (le_merlin E) (bd_contents d)"
    and "hist \<noteq> [] \<Longrightarrow> b_parent_id (bd_block d) = b_id (bd_block (last hist))"
  using assms by (auto simp: chain_ok_snoc linked_def Let_def)

lemma same_tip_same_chain:
  assumes "chain_ok E hist" and "chain_ok E hist'" and "hist \<noteq> []" and "hist' \<noteq> []" and "length hist < 2 ^ 64" and "length hist' < 2 ^ 64"
    and "set hist \<union> set hist' \<subseteq> set ds" and free: "no_collisions (le_merlin E) ds" and ok: "list_all (contents_ok \<circ> bd_contents) ds"
    and "b_id (bd_block (last hist)) = b_id (bd_block (last hist'))"
  shows "map bd_block hist = map bd_block hist' \<and> map bd_contents hist = map bd_contents hist'"
  using assms(1-7,10)
proof (induction hist arbitrary: hist' rule: rev_induct)
  case (snoc d hist)
  from snoc.prems(4) obtain hist0 d' where h': "hist' = hist0 @ [d']" by (cases hist' rule: rev_cases) auto
  note c = chain_ok_last [OF snoc.prems(1)] and c' = chain_ok_last [OF snoc.prems(2) [unfolded h']]
  have mem: "d \<in> set ds" "d' \<in> set ds" using snoc.prems(7) h' by auto
  have oks: "contents_ok (bd_contents d)" "contents_ok (bd_contents d')" using ok mem by (auto simp: list_all_iff)
  have id: "b_id (bd_block d) = b_id (bd_block d')" using snoc.prems(8) h' by simp
  note same = same_id_same_block [OF free mem oks c(2) c'(2) c(4) c'(4) id]
  have len: "length hist = length hist0"
  proof -
    have "(word_of_nat (length hist) :: u64) = word_of_nat (length hist0)" using same(1) c(3) c'(3) by simp
    then show ?thesis using snoc.prems(5,6) h' by (metis Suc_lessD length_append_singleton unat_of_nat_u64)
  qed
  show ?case
  proof (cases "hist = []")
    case True
    then show ?thesis using len same h' by simp
  next
    case False
    then have "hist0 \<noteq> []" using len by auto
    moreover have "b_id (bd_block (last hist)) = b_id (bd_block (last hist0))"
      using c(5) [OF False] c'(5) [OF \<open>hist0 \<noteq> []\<close>] same(1) by simp
    ultimately show ?thesis
      using snoc.IH [OF c(1) c'(1) False] snoc.prems(5-7) h' same by auto
  qed
qed simp

lemma ledger_rep_latest:
  assumes E: "ledger_env_ok E" and rep: "ledger_rep E hist L"
  shows "get_latest_block E L = (if hist = [] then Err NotFound else Ok (bd_block (last hist)))"
proof (cases "hist = []")
  case False
  have len: "length hist < 2 ^ 64" using rep by (simp add: ledger_rep_def)
  with False have "(word_of_nat (length hist) :: u64) \<noteq> 0" "(word_of_nat (length hist) :: u64) - 1 = word_of_nat (length hist - 1)"
    using unat_of_nat_u64 [OF len] by (auto simp: of_nat_diff Suc_le_eq)
  with False show ?thesis
    using ledger_rep_get_block [OF E rep, of "length hist - 1"] ledger_rep_num_blocks [OF rep]
    by (simp add: get_latest_block_def last_conv_nth)
qed (use ledger_rep_num_blocks [OF rep] in \<open>simp add: get_latest_block_def\<close>)

text \<open>C23. The id of the latest block commits to the whole ledger: two ledgers whose latest blocks have the same id hold the
  same blocks with the same contents, provided that no two different headers and no two different contents among
  them have the same Merlin digest, and that the lists of the contents are shorter than 2^64 and their fog hints have the
  length of the type.\<close>

theorem latest_id_binds_chain:
  assumes "ledger_env_ok E" and "append_all E hist = Ok L" and "append_all E hist' = Ok L'"
    and "length hist < 2 ^ 64" and "length hist' < 2 ^ 64" and "get_latest_block E L = Ok b" and "get_latest_block E L' = Ok b'"
    and "b_id b = b_id b'" and "no_collisions (le_merlin E) (hist @ hist')" and "list_all (contents_ok \<circ> bd_contents) (hist @ hist')"
  shows "map bd_block hist = map bd_block hist' \<and> map bd_contents hist = map bd_contents hist'"
proof -
  note rep = append_all_rep [OF assms(1,2,4)] and rep' = append_all_rep [OF assms(1,3,5)]
  have b: "hist \<noteq> []" "b = bd_block (last hist)" and b': "hist' \<noteq> []" "b' = bd_block (last hist')"
    using assms(6,7) ledger_rep_latest [OF assms(1) rep] ledger_rep_latest [OF assms(1) rep'] by (auto split: if_split_asm)
  have "chain_ok E hist" "chain_ok E hist'" using rep rep' by (simp_all add: ledger_rep_def)
  from same_tip_same_chain [OF this b(1) b'(1) assms(4,5) _ assms(9,10)] assms(8) b(2) b'(2) show ?thesis by simp
qed

theorem latest_id_binds_chain_witness:
  "\<exists>L b. append_all ex_ledger [ex_origin, ex_second] = Ok L \<and> get_latest_block ex_ledger L = Ok b \<and>
    map bd_block [ex_origin, ex_second] = map bd_block [ex_origin, ex_second\<lparr>bd_signature := None\<rparr>]"
proof -
  let ?h = "[ex_origin, ex_second]" and ?h' = "[ex_origin, ex_second\<lparr>bd_signature := None\<rparr>]"
  obtain L L' where L: "append_all ex_ledger ?h = Ok L" and L': "append_all ex_ledger ?h' = Ok L'"
    using ex_chain(2) ex_chain_unsigned by blast
  have b: "get_latest_block ex_ledger L = Ok (bd_block ex_second)" "get_latest_block ex_ledger L' = Ok (bd_block ex_second)"
    using ledger_rep_latest [OF ex_ledger_ok append_all_rep [OF ex_ledger_ok L]]
      ledger_rep_latest [OF ex_ledger_ok append_all_rep [OF ex_ledger_ok L']] by simp_all
  have "no_collisions (le_merlin ex_ledger) (?h @ ?h')"
    by (simp add: no_collisions_def inj_on_def extract_digest_def ex_ledger_def ex_merlin_inject)
  moreover have "list_all (contents_ok \<circ> bd_contents) (?h @ ?h')"
    by (simp add: ex_origin_def ex_second_def ex_contents_def contents_ok_def list_ok_def)
  ultimately show ?thesis using latest_id_binds_chain [OF ex_ledger_ok L L' _ _ b] L b by auto
qed

subsection \<open>Key images\<close>

lemma spent_lookup:
  assumes "chain_ok E hist" and "length hist < 2 ^ 64"
  shows "map_of (spent hist) k = Some i \<longleftrightarrow> unat i < length hist \<and> k \<in> set (images_of (hist ! unat i))"
  using assms
proof (induction hist arbitrary: i rule: rev_induct)
  case Nil
  then show ?case by (simp add: by_block_def)
next
  case (snoc d hist)
  have IH: "map_of (spent hist) k = Some i \<longleftrightarrow> unat i < length hist \<and> k \<in> set (images_of (hist ! unat i))" for i
    using snoc by (simp add: chain_ok_snoc)
  have u: "unat i = length hist \<longleftrightarrow> i = word_of_nat (length hist)"
    using snoc.prems(2) unat_of_nat_u64 [of "length hist"] by (auto simp: u64_eq_iff)
  have new: "map_of (spent hist) k = None" if "k \<in> set (images_of d)"
    using that snoc.prems(1) by (auto simp: chain_ok_snoc unspent_def map_of_eq_None_iff)
  show ?case
  proof (cases "k \<in> set (images_of d)")
    case True
    then show ?thesis using IH [of i] new u by (auto simp: spent_snoc nth_append less_Suc_eq)
  next
    case False
    then show ?thesis using IH [of i] u by (auto simp: spent_snoc nth_append less_Suc_eq)
  qed
qed

text \<open>C25. No key image is spent in two blocks: looking a key image up in a ledger gives the index of the one block that has
  it among its key images, and nothing exactly when no block has it.\<close>

theorem key_image_in_one_block:
  assumes "ledger_env_ok E" and "append_all E hist = Ok L" and "length hist < 2 ^ 64"
  shows "(check_key_image L k = Ok (Some i) \<longleftrightarrow> unat i < length hist \<and> k \<in> set (images_of (hist ! unat i))) \<and>
    (check_key_image L k = Ok None \<longleftrightarrow> k \<notin> (\<Union>d \<in> set hist. set (images_of d)))"
proof -
  note rep = append_all_rep [OF assms]
  have chain: "chain_ok E hist" using rep by (simp add: ledger_rep_def)
  note look = spent_lookup [OF chain assms(3)]
  have found: "map_of (spent hist) k \<noteq> None" if "d \<in> set hist" "k \<in> set (images_of d)" for d
  proof -
    from that(1) obtain j where "j < length hist" "d = hist ! j" by (auto simp: in_set_conv_nth)
    then show ?thesis using that(2) assms(3) look [of k "word_of_nat j"] by (simp add: unat_of_nat_u64)
  qed
  have "k \<in> (\<Union>d \<in> set hist. set (images_of d))" if "map_of (spent hist) k = Some j" for j
    using look [of k j] that by (intro UN_I [of "hist ! unat j"]) simp_all
  with found have "map_of (spent hist) k = None \<longleftrightarrow> k \<notin> (\<Union>d \<in> set hist. set (images_of d))"
    by (cases "map_of (spent hist) k") blast+
  with look [of k i] show ?thesis by (simp add: ledger_rep_key_image [OF rep])
qed

theorem key_image_in_one_block_witness:
  "\<exists>L. append_all ex_ledger [ex_origin, ex_second] = Ok L \<and> check_key_image L [9] = Ok (Some 1) \<and> check_key_image L [8] = Ok None"
proof -
  obtain L where L: "append_all ex_ledger [ex_origin, ex_second] = Ok L" using ex_chain(2) by blast
  show ?thesis
    using key_image_in_one_block [OF ex_ledger_ok L, of "[9]" 1] key_image_in_one_block [OF ex_ledger_ok L, of "[8]" 1] L
    by (simp add: ex_origin_def ex_second_def ex_contents_def)
qed

text \<open>C28. The check for spent key images reads the committed ledger only: a block that lists the same key image twice is
  appended, and both copies are stored with the block.\<close>

theorem same_key_image_twice_accepted:
  "\<exists>L L'. append_all ex_ledger [ex_origin] = Ok L \<and>
    append_block_data ex_ledger L (ex_next [ex_origin] (ex_contents [[9], [9]] [2])) = Ok L' \<and>
    get_key_images_by_block ex_ledger L' 1 = Ok [[9], [9]]"
proof -
  let ?d = "ex_next [ex_origin] (ex_contents [[9], [9]] [2])"
  obtain L where L: "append_all ex_ledger [ex_origin] = Ok L" using ex_chain(1) by blast
  from ex_append [OF L, of "[1]" "[2]" "[[9], [9]]"] obtain L' where L': "append_block_data ex_ledger L ?d = Ok L'"
    by (auto simp: ex_origin_def all_outputs_def by_block_def ex_contents_def)
  then have "append_all ex_ledger [ex_origin, ?d] = Ok L'" using L append_all_snoc [of ex_ledger "[ex_origin]" ?d] by simp
  note rep = append_all_rep [OF ex_ledger_ok this]
  then have "holds u64_to_key_bytes (ld_key_images_by_block L') (log_of (\<lambda>d. Some (enc (le_key_images ex_ledger) (images_of d))) [ex_origin, ?d])"
    by (simp add: ledger_rep_def block_logs_def)
  from log_get [OF this, of 1] have "get_key_images_by_block ex_ledger L' 1 = Ok [[9], [9]]"
    using ex_ledger_ok by (simp add: get_key_images_by_block_def lm_get_dec_Some ledger_env_ok_def ex_contents_def)
  with L L' show ?thesis by blast
qed

subsection \<open>Minting\<close>

lemma nonce_lookup:
  assumes "\<And>i. (p, i) \<in> set used \<Longrightarrow> r = Ok (Some i)" and "p \<notin> fst ` set used \<Longrightarrow> r = Ok None"
  shows "r = Ok (map_of used p)"
proof (cases "map_of used p")
  case None
  then have "p \<notin> fst ` set used" by (simp add: map_of_eq_None_iff)
  with assms(2) None show ?thesis by simp
next
  case (Some i)
  with assms(1) [OF map_of_SomeD] show ?thesis by simp
qed

text \<open>C27. The nonce of a minting transaction and of a configuration transaction is used at most once per token in the whole
  ledger, and looking a nonce up gives the block that used it.\<close>

theorem nonces_used_once:
  assumes "ledger_env_ok E" and "append_all E hist = Ok L" and "length hist < 2 ^ 64"
  shows "distinct (map fst (mint_nonces hist)) \<and> distinct (map fst (config_nonces hist)) \<and>
    check_mint_tx_nonce t nonce (ld_mint_tx_store L) = Ok (map_of (mint_nonces hist) (nonce, t)) \<and>
    check_mint_config_tx_nonce t nonce (ld_mint_config_store L) = Ok (map_of (config_nonces hist) (nonce, t))"
proof -
  have n: "nonces_rep (block_index_by_mint_tx_nonce_and_token_id (ld_mint_tx_store L)) (mint_nonces hist)"
    "nonces_rep (block_index_by_mint_config_tx_nonce_and_token_id (ld_mint_config_store L)) (config_nonces hist)"
    using append_all_rep [OF assms] by (simp_all add: ledger_rep_def)
  have m: "check_mint_tx_nonce t nonce (ld_mint_tx_store L) = Ok (map_of (mint_nonces hist) (nonce, t))"
    by (rule nonce_lookup; rule check_mint_tx_nonce_rep [OF n(1)])
  have c: "check_mint_config_tx_nonce t nonce (ld_mint_config_store L) = Ok (map_of (config_nonces hist) (nonce, t))"
    by (rule nonce_lookup; rule check_mint_config_tx_nonce_rep [OF n(2)])
  show ?thesis using n m c unfolding nonces_rep_def by blast
qed

lemma append_all_minting:
  assumes E: "ledger_env_ok E"
  shows "append_all E hist = Ok L \<Longrightarrow> length hist < 2 ^ 64 \<Longrightarrow> list_all (\<lambda>d. list_all distinct_configs (configs_of d)) hist \<Longrightarrow>
    (\<forall>i < length hist. foldl add_minted (minted (take i hist)) (mints_of (hist ! i)) t \<le> mint_limit (take i hist) t) \<and>
    minting_inv (le_mint_codecs E) (minted hist) (ld_mint_config_store L) \<and>
    configs_rep (le_mint_codecs E) (current_configs hist) (ld_mint_config_store L)"
proof (induction hist arbitrary: L rule: rev_induct)
  case Nil
  then show ?case
    using minting_inv_create [of "le_mint_codecs E"]
    by (auto simp: append_all_def ledger_create_def minted_def current_configs_def configs_rep_def get_active_mint_configs_def
        mint_config_store_create_def)
next
  case (snoc d hist)
  from snoc.prems(1) obtain L0 where L0: "append_all E hist = Ok L0" "append_block_data E L0 d = Ok L"
    by (auto simp: append_all_snoc and_then_eq_Ok)
  have len: "length hist < 2 ^ 64" and dist: "list_all distinct_configs (configs_of d)" using snoc.prems(2,3) by simp_all
  from snoc.IH [OF L0(1) len] snoc.prems(3)
  have IH: "\<forall>i < length hist. foldl add_minted (minted (take i hist)) (mints_of (hist ! i)) t \<le> mint_limit (take i hist) t"
    "minting_inv (le_mint_codecs E) (minted hist) (ld_mint_config_store L0)"
    "configs_rep (le_mint_codecs E) (current_configs hist) (ld_mint_config_store L0)" by simp_all
  note step = append_minting [OF E append_all_rep [OF E L0(1) len] L0(2) IH(2,3) dist]
  have "\<forall>i < length (hist @ [d]). foldl add_minted (minted (take i (hist @ [d]))) (mints_of ((hist @ [d]) ! i)) t \<le>
      mint_limit (take i (hist @ [d])) t"
    using IH(1) step(1) by (auto simp: nth_append less_Suc_eq)
  with step(2,3) show ?case by blast
qed

text \<open>C26. Minting limits: when no configuration transaction of a ledger lists the same configuration twice, the amount
  of a token minted since its configurations were last set, with the minting transactions of each block
  included, never exceeds the total limit of the transaction that set them, and a token without configurations
  is never minted.\<close>

theorem minted_within_limit:
  assumes "ledger_env_ok E" and "append_all E hist = Ok L" and "length hist < 2 ^ 64" and "i < length hist"
    and "list_all (\<lambda>d. list_all distinct_configs (configs_of d)) hist"
  shows "foldl add_minted (minted (take i hist)) (mints_of (hist ! i)) t \<le> mint_limit (take i hist) t"
  using append_all_minting [OF assms(1,2,3,5)] assms(4) by blast

subsubsection \<open>A chain with minting\<close>

definition ex_config :: "bytes mint_config" where
  "ex_config = \<lparr>mc_token_id = 1, mc_signer_set = SignerSet [[1]] [] 1, mc_mint_limit = 10\<rparr>"

definition ex_config_tx :: "bytes mint_config list \<Rightarrow> bytes validated_mint_config_tx" where
  "ex_config_tx cs = \<lparr>vm_mint_config_tx = \<lparr>mct_prefix = \<lparr>mcp_token_id = 1, mcp_configs = cs, mcp_nonce = [1],
     mcp_tombstone_block = 0, mcp_total_mint_limit = 20\<rparr>, mct_signature = []\<rparr>, vm_signer_set = SignerSet [] [] 0\<rparr>"

definition ex_mint :: "u8 \<Rightarrow> mint_tx" where
  "ex_mint n = \<lparr>mt_prefix = \<lparr>mtp_token_id = 1, mtp_amount = 10, mtp_view_public_key = [], mtp_spend_public_key = [],
     mtp_nonce = [n], mtp_tombstone_block = 0, mtp_e_fog_hint = None\<rparr>, mt_signature = [[1]]\<rparr>"

definition ex_config_block :: "bytes mint_config list \<Rightarrow> (bytes, bytes) block_data" where
  "ex_config_block cs = ex_next [ex_origin] \<lparr>bc_key_images = [], bc_outputs = [],
     bc_validated_mint_config_txs = [ex_config_tx cs], bc_mint_txs = []\<rparr>"

definition ex_mint_block :: "bytes mint_config list \<Rightarrow> u8 list \<Rightarrow> (bytes, bytes) block_data" where
  "ex_mint_block cs ns = ex_next [ex_origin, ex_config_block cs] \<lparr>bc_key_images = [], bc_outputs = map ex_out ns,
     bc_validated_mint_config_txs = [], bc_mint_txs = map ex_mint ns\<rparr>"

text \<open>The active configurations when the first of them has minted the amount \<^term>\<open>n\<close>.\<close>

definition ex_active :: "bytes mint_config list \<Rightarrow> u64 \<Rightarrow> bytes active_mint_configs" where
  "ex_active cs n = \<lparr>ams_configs = \<lparr>am_mint_config = ex_config, am_total_minted = n\<rparr> #
     map (\<lambda>c. \<lparr>am_mint_config = c, am_total_minted = 0\<rparr>) cs, ams_mint_config_tx = vm_mint_config_tx (ex_config_tx (ex_config # cs))\<rparr>"

lemma ex_verify:
  "\<exists>ks. verify (mx_verify (le_mint ex_ledger)) (mc_signer_set ex_config) message (mt_signature (ex_mint n)) = Ok ks"
proof -
  have "satisfied (signed_by (mx_verify (le_mint ex_ledger)) message [[1]]) (SignerSet [[1]] [] 1)"
    by (simp add: signed_by_def le_mint_def ex_ledger_def num_signers_def)
  then show ?thesis
    using verify_satisfied [of "[[1]]" "mx_verify (le_mint ex_ledger)" "SignerSet [[1]] [] 1" message]
    by (simp add: MAX_SIGNATURES_def ex_config_def ex_mint_def del: verify.simps satisfied.simps)
qed

lemma ex_config_found:
  assumes "n = 0 \<and> cs \<in> {[], [ex_config]} \<or> n = 10 \<and> cs = [ex_config]"
  shows "active_config_for_mint_tx (le_mint ex_ledger) (ex_active cs n) (ex_mint j) = Ok \<lparr>am_mint_config = ex_config, am_total_minted = 0\<rparr>"
proof -
  from ex_verify [of _ j] obtain ks where
    "verify (mx_verify (le_mint ex_ledger)) (mc_signer_set ex_config) (mx_hash_tx (le_mint ex_ledger) (mt_prefix (ex_mint j))) (mt_signature (ex_mint j)) = Ok ks"
    by blast
  moreover have "mtp_amount (mt_prefix (ex_mint j)) = 10" "mc_mint_limit ex_config = 10" by (simp_all add: ex_mint_def ex_config_def)
  ultimately show ?thesis using assms
    by (auto simp: active_config_for_mint_tx_def ex_active_def ex_config_tx_def can_mint_def total_minted_def total_mint_limit_def checked_add_def)
qed

lemma ex_mint_step:
  assumes get: "get_active_mint_configs (le_mint_codecs ex_ledger) 1 s = Ok (Some (ex_active cs n))"
    and n: "n = 0 \<and> cs \<in> {[], [ex_config]} \<or> n = 10 \<and> cs = [ex_config]"
    and free: "block_index_by_mint_tx_nonce_and_token_id ts ([j] @ u64_to_key_bytes 1) = None"
  shows "\<exists>s'. write_mint_tx (le_mint ex_ledger) (le_mint_codecs ex_ledger) bs (s, ts) (ex_mint j) =
      Ok (s', ts\<lparr>block_index_by_mint_tx_nonce_and_token_id := (block_index_by_mint_tx_nonce_and_token_id ts)([j] @ u64_to_key_bytes 1 \<mapsto> bs)\<rparr>) \<and>
    get_active_mint_configs (le_mint_codecs ex_ledger) 1 s' = Ok (Some (ex_active cs 10))"
proof -
  let ?K = "le_mint_codecs ex_ledger"
  have K: "codec_ok (mk_active ?K)" using ex_ledger_ok by (simp add: ledger_env_ok_def)
  let ?s = "s\<lparr>active_mint_configs_by_token_id := lm_put (active_mint_configs_by_token_id s) (u64_to_key_bytes 1)
      (enc (mk_active ?K) (ex_active cs 10))\<rparr>"
  have t: "mtp_token_id (mt_prefix (ex_mint j)) = 1" "mtp_amount (mt_prefix (ex_mint j)) = 10" "mtp_nonce (mt_prefix (ex_mint j)) = [j]"
    "mc_token_id ex_config = 1" "mc_mint_limit ex_config = 10"
    by (simp_all add: ex_mint_def ex_config_def)
  have "update_total_minted ?K ex_config 10 s = Ok ?s"
    using n by (auto simp: update_total_minted_def t get) (auto simp: ex_active_def total_minted_def total_mint_limit_def ex_config_tx_def t)
  moreover have "write_mint_nonce (ex_mint j) ts bs =
      Ok (ts\<lparr>block_index_by_mint_tx_nonce_and_token_id := (block_index_by_mint_tx_nonce_and_token_id ts)([j] @ u64_to_key_bytes 1 \<mapsto> bs)\<rparr>)"
    using free by (simp add: write_mint_nonce_def t lm_put_new_def)
  ultimately have "write_mint_tx (le_mint ex_ledger) ?K bs (s, ts) (ex_mint j) =
      Ok (?s, ts\<lparr>block_index_by_mint_tx_nonce_and_token_id := (block_index_by_mint_tx_nonce_and_token_id ts)([j] @ u64_to_key_bytes 1 \<mapsto> bs)\<rparr>)"
    using get ex_config_found [OF n, of j]
    by (simp add: write_mint_tx_def get_active_mint_config_for_mint_tx_def t checked_add_def)
  moreover have "get_active_mint_configs ?K 1 ?s = Ok (Some (ex_active cs 10))" using get_active_put [OF K] by simp
  ultimately show ?thesis by blast
qed

lemma write_config_active:
  assumes "codec_ok (mk_active K)" and "write_validated_mint_config_txs K i [v] s = Ok s'"
  shows "get_active_mint_configs K (config_token v) s' = Ok (Some (active_mint_configs_from (vm_mint_config_tx v)))"
  using assms
  by (auto simp: write_validated_mint_config_txs_def Let_def outcome_simps write_active_mint_configs_by_token_id_def get_active_put)

lemma ex_config_append:
  assumes "cs \<in> {[], [ex_config]}"
  shows "\<exists>L. append_all ex_ledger [ex_origin, ex_config_block (ex_config # cs)] = Ok L \<and>
    get_active_mint_configs (le_mint_codecs ex_ledger) 1 (ld_mint_config_store L) = Ok (Some (ex_active cs 0))"
proof -
  let ?K = "le_mint_codecs ex_ledger" and ?d = "ex_config_block (ex_config # cs)" and ?v = "ex_config_tx (ex_config # cs)"
  have K: "codec_ok (mk_active ?K)" using ex_ledger_ok by (simp add: ledger_env_ok_def)
  obtain L where L: "append_all ex_ledger [ex_origin] = Ok L" using ex_chain(1) by blast
  note rep = append_all_rep [OF ex_ledger_ok L, simplified]
  have n: "config_nonces [ex_origin] = []" "mint_nonces [ex_origin] = []" "spent [ex_origin] = []"
    by (simp_all add: by_block_def ex_origin_def ex_contents_def)
  obtain ts where m: "write_mint_txs (le_mint ex_ledger) ?K (word_of_nat (length [ex_origin])) []
      (ld_mint_config_store L, ld_mint_tx_store L) = Ok (ld_mint_config_store L, ts)"
    by (rule mint_free_stores [OF rep])
  have "nonces_rep (block_index_by_mint_config_tx_nonce_and_token_id (ld_mint_config_store L)) []"
    using rep n by (simp add: ledger_rep_def)
  from nonces_get_None [OF this, of "[1]" 1]
  have free: "block_index_by_mint_config_tx_nonce_and_token_id (ld_mint_config_store L) ([1] @ u64_to_key_bytes 1) = None" by simp
  from next_block_free(2) [OF rep, of "enc (mk_configs ?K) [?v]"] obtain db where
    db: "lm_put_new (validated_mint_config_txs_by_block (ld_mint_config_store L)) (u64_to_key_bytes (word_of_nat (length [ex_origin])))
      (enc (mk_configs ?K) [?v]) = Ok db" by auto
  then obtain cs' where c: "write_validated_mint_config_txs ?K (word_of_nat (length [ex_origin])) [?v] (ld_mint_config_store L) = Ok cs'"
    using free assms
    by (auto simp: write_validated_mint_config_txs_def Let_def check_mint_config_def write_config_nonce_def lm_put_new_def ex_config_tx_def
        ex_config_def)
  have "populated ?d" by (simp add: populated_def ex_config_block_def require_block_metadata_def)
  with ex_append_contents [OF L, of "[1]" _ "[]" "ld_mint_config_store L" ts cs'] m c n
  have "\<exists>L'. append_block_data ex_ledger L ?d = Ok L'"
    by (simp add: ex_config_block_def ex_origin_def all_outputs_def ex_contents_def)
  then obtain L' where L': "append_block_data ex_ledger L ?d = Ok L'" by blast
  obtain s db cs1 ts1 cs2 where A: "L' = appended ex_ledger [ex_origin] ?d L s db cs2 ts1"
    and "write_validated_mint_config_txs ?K (word_of_nat (length [ex_origin])) (configs_of ?d) cs1 = Ok cs2"
    by (rule append_state [OF ex_ledger_ok rep L'])
  with write_config_active [OF K, of _ ?v cs1 cs2]
  have "get_active_mint_configs ?K 1 (ld_mint_config_store L') = Ok (Some (ex_active cs 0))"
    by (simp add: appended_def Let_def ex_config_block_def ex_active_def active_mint_configs_from_def ex_config_tx_def)
  moreover have "append_all ex_ledger [ex_origin, ?d] = Ok L'"
    using L L' append_all_snoc [of ex_ledger "[ex_origin]" ?d] by simp
  ultimately show ?thesis by blast
qed

lemma ex_mint_fold:
  assumes "get_active_mint_configs (le_mint_codecs ex_ledger) 1 s = Ok (Some (ex_active cs n))"
    and "n = 0 \<and> (cs = [ex_config] \<or> cs = [] \<and> length js \<le> 1) \<or> n = 10 \<and> (cs = [ex_config] \<or> js = [])"
    and "\<forall>j \<in> set js. block_index_by_mint_tx_nonce_and_token_id ts ([j] @ u64_to_key_bytes 1) = None" and "distinct js"
  shows "\<exists>s' ts'. try_fold (write_mint_tx (le_mint ex_ledger) (le_mint_codecs ex_ledger) bs) (s, ts) (map ex_mint js) = Ok (s', ts')"
  using assms
proof (induction js arbitrary: s ts n)
  case (Cons j js)
  let ?ts = "ts\<lparr>block_index_by_mint_tx_nonce_and_token_id := (block_index_by_mint_tx_nonce_and_token_id ts)([j] @ u64_to_key_bytes 1 \<mapsto> bs)\<rparr>"
  have n: "n = 0 \<and> cs \<in> {[], [ex_config]} \<or> n = 10 \<and> cs = [ex_config]" using Cons.prems(2) by auto
  have "block_index_by_mint_tx_nonce_and_token_id ts ([j] @ u64_to_key_bytes 1) = None" using Cons.prems(3) by simp
  from ex_mint_step [OF Cons.prems(1) n this, of bs] obtain s' where
    s': "write_mint_tx (le_mint ex_ledger) (le_mint_codecs ex_ledger) bs (s, ts) (ex_mint j) = Ok (s', ?ts)"
      "get_active_mint_configs (le_mint_codecs ex_ledger) 1 s' = Ok (Some (ex_active cs 10))" by blast
  have "\<forall>i \<in> set js. block_index_by_mint_tx_nonce_and_token_id ?ts ([i] @ u64_to_key_bytes 1) = None"
    using Cons.prems(3,4) by auto
  from Cons.IH [OF s'(2) _ this] Cons.prems(2,4) s'(1) show ?case by auto
qed simp

lemma ex_mint_append:
  assumes "cs = [ex_config] \<or> cs = [] \<and> length js = 1" and js: "distinct (1 # js)" "length js < 256" "js \<noteq> []"
  shows "\<exists>L. append_all ex_ledger [ex_origin, ex_config_block (ex_config # cs), ex_mint_block (ex_config # cs) js] = Ok L"
proof -
  let ?K = "le_mint_codecs ex_ledger" and ?h = "[ex_origin, ex_config_block (ex_config # cs)]" and ?d = "ex_mint_block (ex_config # cs) js"
  have "cs \<in> {[], [ex_config]}" using assms(1) by auto
  from ex_config_append [OF this] obtain L where L: "append_all ex_ledger ?h = Ok L"
    and a: "get_active_mint_configs ?K 1 (ld_mint_config_store L) = Ok (Some (ex_active cs 0))" by blast
  note rep = append_all_rep [OF ex_ledger_ok L, simplified]
  have n: "mint_nonces ?h = []" "spent ?h = []"
    by (simp_all add: by_block_def ex_origin_def ex_config_block_def ex_contents_def)
  have nonces: "nonces_rep (block_index_by_mint_tx_nonce_and_token_id (ld_mint_tx_store L)) []" using rep n by (simp add: ledger_rep_def)
  note none = nonces_get_None [OF nonces]
  have free: "block_index_by_mint_tx_nonce_and_token_id (ld_mint_tx_store L) ([j] @ u64_to_key_bytes 1) = None" for j
    using none [of "[j]" 1] by simp
  from next_block_free(1) [OF rep, of "enc (mk_mints ?K) (map ex_mint js)"] obtain db where
    db: "lm_put_new (mint_txs_by_block (ld_mint_tx_store L)) (u64_to_key_bytes (word_of_nat (length ?h))) (enc (mk_mints ?K) (map ex_mint js)) = Ok db"
    by auto
  let ?ts = "ld_mint_tx_store L\<lparr>mint_txs_by_block := db\<rparr>"
  from ex_mint_fold [OF a, of js ?ts "u64_to_key_bytes (word_of_nat (length ?h))"] assms free obtain s' ts' where
    f: "try_fold (write_mint_tx (le_mint ex_ledger) ?K (u64_to_key_bytes (word_of_nat (length ?h)))) (ld_mint_config_store L, ?ts) (map ex_mint js) =
      Ok (s', ts')" by auto
  have m: "write_mint_txs (le_mint ex_ledger) ?K (word_of_nat (length ?h)) (map ex_mint js) (ld_mint_config_store L, ld_mint_tx_store L) = Ok (s', ts')"
    using db f by (simp add: write_mint_txs_def Let_def)
  from next_block_free(2) [OF rep, of "enc (mk_configs ?K) []"] obtain cs' where
    c: "write_validated_mint_config_txs ?K (word_of_nat (length ?h)) [] s' = Ok cs'"
    using write_mint_txs_frame(3) [OF m nonces] by (auto simp: write_validated_mint_config_txs_def Let_def)
  have "populated ?d" using js by (simp add: populated_def ex_mint_block_def require_block_metadata_def list_all_iff ex_out_def)
  with ex_append_contents [OF L, of "[1]" _ js s' ts' cs'] m c n js
  have "\<exists>L'. append_block_data ex_ledger L ?d = Ok L'"
    by (simp add: ex_mint_block_def ex_config_block_def ex_origin_def all_outputs_def ex_contents_def)
  then show ?thesis using L append_all_snoc [of ex_ledger ?h ?d] by auto
qed

definition ex_minted :: "bytes mint_config list \<Rightarrow> u8 list \<Rightarrow> (bytes, bytes) block_data list" where
  "ex_minted cs js = [ex_origin, ex_config_block cs, ex_mint_block cs js]"

lemma ex_minted_amounts:
  "mint_limit (take 2 (ex_minted cs js)) 1 = 20"
  "foldl add_minted (minted (take 2 (ex_minted cs js))) (mints_of (ex_minted cs js ! 2)) 1 = 10 * length js"
proof -
  have e: "mints_of ex_origin = []" "configs_of ex_origin = []" "mints_of (ex_config_block cs) = []"
    "configs_of (ex_config_block cs) = [ex_config_tx cs]" "mints_of (ex_mint_block cs js) = map ex_mint js"
    by (simp_all add: ex_origin_def ex_config_block_def ex_mint_block_def ex_contents_def)
  show "mint_limit (take 2 (ex_minted cs js)) 1 = 20"
    by (simp add: ex_minted_def mint_limit_def current_configs_def e ex_config_tx_def take_Cons')
  have "foldl add_minted n (map ex_mint js) 1 = n 1 + 10 * length js" for n
    by (induction js arbitrary: n) (simp_all add: add_minted_def ex_mint_def)
  moreover have "minted (take 2 (ex_minted cs js)) 1 = 0"
    by (simp add: ex_minted_def minted_def e reset_minted_def ex_config_tx_def take_Cons')
  ultimately show "foldl add_minted (minted (take 2 (ex_minted cs js))) (mints_of (ex_minted cs js ! 2)) 1 = 10 * length js"
    by (simp add: e ex_minted_def)
qed

theorem nonces_used_once_witness:
  "\<exists>L. append_all ex_ledger (ex_minted [ex_config] [2]) = Ok L \<and> check_mint_tx_nonce 1 [2] (ld_mint_tx_store L) = Ok (Some 2) \<and>
    check_mint_config_tx_nonce 1 [1] (ld_mint_config_store L) = Ok (Some 1)"
proof -
  obtain L where L: "append_all ex_ledger (ex_minted [ex_config] [2]) = Ok L"
    using ex_mint_append [of "[]" "[2]"] by (auto simp: ex_minted_def)
  have "mint_nonces (ex_minted [ex_config] [2]) = [(([2], 1), 2)]" "config_nonces (ex_minted [ex_config] [2]) = [(([1], 1), 1)]"
    by (simp_all add: ex_minted_def by_block_def ex_mint_block_def ex_config_block_def ex_origin_def ex_contents_def ex_mint_def
        ex_config_tx_def mint_nonce_def config_nonce_def)
  then show ?thesis
    using nonces_used_once [OF ex_ledger_ok L, of 1 "[2]"] nonces_used_once [OF ex_ledger_ok L, of 1 "[1]"] L
    by (simp add: ex_minted_def)
qed

theorem minted_within_limit_witness:
  "\<exists>L. append_all ex_ledger (ex_minted [ex_config] [2]) = Ok L \<and> (10 :: nat) \<le> mint_limit (take 2 (ex_minted [ex_config] [2])) 1"
proof -
  obtain L where L: "append_all ex_ledger (ex_minted [ex_config] [2]) = Ok L"
    using ex_mint_append [of "[]" "[2]"] by (auto simp: ex_minted_def)
  moreover have "list_all (\<lambda>d. list_all distinct_configs (configs_of d)) (ex_minted [ex_config] [2])"
    by (simp add: ex_minted_def distinct_configs_def ex_config_tx_def ex_config_block_def ex_mint_block_def ex_origin_def ex_contents_def)
  ultimately show ?thesis
    using minted_within_limit [OF ex_ledger_ok L, of 2 1] ex_minted_amounts(2) [of "[ex_config]" "[2]"] by (simp add: ex_minted_def)
qed

text \<open>C29. The limits can be exceeded when a configuration transaction lists the same configuration twice, which no check of
  the ledger refuses: the second copy is chosen when the first is exhausted, but the amount is recorded at the first. The
  ledger below mints 30 in one block under a total limit of 20.\<close>

theorem repeated_config_exceeds_limit:
  "\<exists>L. append_all ex_ledger (ex_minted [ex_config, ex_config] [2, 3, 4]) = Ok L \<and>
    mint_limit (take 2 (ex_minted [ex_config, ex_config] [2, 3, 4])) 1 = 20 \<and>
    foldl add_minted (minted (take 2 (ex_minted [ex_config, ex_config] [2, 3, 4])))
      (mints_of (ex_minted [ex_config, ex_config] [2, 3, 4] ! 2)) 1 = 30"
  using ex_mint_append [of "[ex_config]" "[2, 3, 4]"] ex_minted_amounts [of "[ex_config, ex_config]" "[2, 3, 4]"]
  by (auto simp: ex_minted_def)

end
