(* ===== verification/Spec2Isabelle.thy ===== *)
theory Spec2Isabelle
  imports Scp_Example Scp_Nomination Scp_Values Scp_Ballot_Steps Ledger_Guarantees
begin

text \<open>
  A verification development of MobileCoin: its consensus protocol, its ledger, and the validation of what enters it.

  \<^bold>\<open>The program.\<close> Nodes agree on the contents of the next block with the Stellar Consensus Protocol
  (\<^verbatim>\<open>src/consensus/scp\<close>). A \<^verbatim>\<open>Node\<close> routes messages to one \<^verbatim>\<open>Slot\<close> per block index; a slot nominates values and
  votes on ballots, and asks searches over nested quorum sets whether a quorum or a blocking set supports a
  statement. What is agreed on are transactions that pass validation (\<^verbatim>\<open>src/transaction/core\<close>): their rings come with
  Merkle proofs that the ring members are in the ledger. Agreed blocks are appended to the ledger
  (\<^verbatim>\<open>src/ledger/db\<close>), a set of LMDB databases with a Merkle tree over all outputs, the spent key images and
  the limits of minting. Blocks, transactions and minting transactions are identified by digests of a
  structured encoding (\<^verbatim>\<open>src/crypto/digestible\<close>), and minting is authorized by nested multi-signatures
  (\<^verbatim>\<open>src/crypto/multisig\<close>).

  \<^bold>\<open>Conventions.\<close> Machine integers keep their width and wrap as in the release profile, which disables overflow
  checks. In the theories of SCP a call that panics is \<open>None\<close> of \<open>'a run\<close>; in the others the
  results are \<open>Ok\<close>, \<open>Err\<close> and \<open>Panic\<close> of \<open>outcome\<close>. State is passed explicitly: a handler takes the record of its
  struct and returns it changed. Code outside the repository (Merlin, Blake2b, Keccak, signatures, range proofs,
  the codecs that prost generates, the clock) is an argument or a field of an environment record, and
  what is assumed of it is a named predicate: \<open>env_ok\<close>, \<open>ledger_env_ok\<close> (decoding inverts encoding, the hash has 32
  bytes), \<open>codec_ok\<close>, and injectivity of a hash on the strings that occur. \<open>codec_ok\<close> asks for the round trip of every
  value; prost refuses to decode messages nested deeper than its recursion limit, so it describes signer sets below that
  depth.

  \<^bold>\<open>Consensus.\<close> \<open>Scp_Prelude\<close> has the shared lemmas and the control flow of panics. \<open>Scp_Ballot\<close> models
  \<^verbatim>\<open>ballot.rs\<close>, \<open>Scp_Quorum_Set\<close> \<^verbatim>\<open>types/src/quorum_set.rs\<close>, \<open>Scp_Msg\<close> \<^verbatim>\<open>msg.rs\<close>, \<open>Scp_Predicates\<close>
  \<^verbatim>\<open>predicates.rs\<close>, \<open>Scp_Quorum_Search\<close> and \<open>Scp_Blocking_Search\<close> \<^verbatim>\<open>quorum_set_ext.rs\<close>, with the exactness of both
  searches. \<open>Scp_Slot\<close> has the record of a slot (\<^verbatim>\<open>slot.rs\<close>) and its queries, \<open>Scp_Slot_Phases\<close> the nomination, prepare,
  commit and externalize phases, one definition per numbered step, and \<open>Scp_Slot_Handlers\<close> the entry points
  \<^verbatim>\<open>propose_values\<close>, \<^verbatim>\<open>handle_messages\<close>, \<^verbatim>\<open>process_timeouts\<close> and the outgoing message. \<open>Scp_Slot_Queries\<close> relates the
  queries to quorums and blocking sets, \<open>Scp_Ballot_Steps\<close> shows what the searches for counters find, \<open>Scp_Slot_Frame\<close> what each
  step leaves alone, and \<open>Scp_Slot_Run\<close> runs of a slot with their invariants. \<open>Scp_Agreement\<close> derives agreement of slots,
  \<open>Scp_Nomination\<close> shows that a slot that nominates follows blocking sets, \<open>Scp_Node\<close> models
  \<^verbatim>\<open>node/node_impl.rs\<close> and lifts agreement to nodes, and \<open>Scp_Values\<close> shows the validity of values.
  \<open>Scp_Example\<close> has concrete runs: two nodes that externalize, and four nodes of which one is late and aborts. The recursion of the commit phase and the
  search for a counter end because the counter grows, and are total functions; the recursion of the prepare phase is a
  partial function, since step 8 adds one to a counter that may wrap, and not returning is \<open>None\<close> like a panic. The
  batch of messages a slot receives is sorted stably by insertion; as the comparison of topics is not transitive on
  arbitrary topics, the order of \<^verbatim>\<open>sort_by\<close> may differ there, and no property depends on it. The payload that
  \<^verbatim>\<open>Node::externalize\<close> takes only to log it is left out.

  \<^bold>\<open>Transactions.\<close> \<open>Rust_Result\<close> has results, loops with early return and bytes. \<open>Tx_Membership\<close> models
  \<^verbatim>\<open>membership_proofs\<close> with the soundness and completeness of Merkle proofs, \<open>Util_U64_Ratio\<close> the crate
  \<^verbatim>\<open>util/u64-ratio\<close>, \<open>Tx_Rules\<close> amounts, transactions and \<^verbatim>\<open>input_rules.rs\<close>, \<open>Tx_Validation\<close> \<^verbatim>\<open>validation/validate.rs\<close>,
  \<open>Crypto_Multisig\<close> \<^verbatim>\<open>crypto/multisig\<close>, and \<open>Mint_Validation\<close> \<^verbatim>\<open>mint/validation\<close>. \<open>Tx_Ledger_Context\<close> puts validation
  and ledger together: accepted rings are in the ledger, and honest proofs are accepted.

  \<^bold>\<open>Digests.\<close> \<open>Crypto_Digestible\<close> models the transcripts, with the contract of \<^verbatim>\<open>Digestible\<close> as a locale and the
  combinators for lists, options and derived structs as its instances; \<open>Tx_Digest\<close> and \<open>Blockchain_Digest\<close> interpret it for
  every struct that is hashed, up to the contents and the id of a block.

  \<^bold>\<open>Ledger.\<close> \<open>Ledger_TxOut_Store\<close> models \<^verbatim>\<open>tx_out_store.rs\<close>, \<open>Ledger_Membership\<close> its proofs, \<open>Ledger_Keyed\<close> the locale
  of databases with structured keys, \<open>Ledger_Mint_Store\<close> \<^verbatim>\<open>mint_config_store.rs\<close> and \<^verbatim>\<open>mint_tx_store.rs\<close>, and \<open>Ledger_Db\<close>
  \<^verbatim>\<open>ledger_db.rs\<close>. \<open>Ledger_Db_Inv\<close> refines the databases to the list of the blocks appended, \<open>Ledger_Chain\<close> has
  the consequences for reading, appending and minting, \<open>Ledger_Example\<close> an environment with concrete codecs,
  and \<open>Ledger_Guarantees\<close> the properties of the ledger. They hold up to 2^64 blocks and 2^63 outputs, the
  bounds of the indices and of the tree.

  \<^bold>\<open>What is shown.\<close> Agreement of correct nodes and slots in the presence of faulty ones, given that quorums of
  correct nodes intersect; stability and validity of the values; exactness of the quorum searches; what
  each query of a slot means; that nomination follows blocking sets. For the ledger: what is read back is what was appended, exactly which blocks are
  accepted, that the id of the latest block determines the whole chain, that no key image is in two blocks, that nonces
  are used once and minting stays within its limits; for transactions, exact conditions of validation, of
  input rules and of multi-signatures. Some theorems show where the code falls short of that, such as the
  panic of a node that hears late of a ballot, in a network where every node is correct, and the minting limit with
  repeated configurations.

  \<^bold>\<open>Not modelled.\<close> The consensus enclave and its attested sessions, SGX and attestation; the curve
  arithmetic of amounts, ring signatures and range proofs; transaction building; fog; wallets and gateways; the
  consensus service with its threads, gRPC servers and configuration; ledger synchronisation, the watcher and the light
  client. The modelled parts see the curve arithmetic only through arguments: the verification of a ring signature
  (\<^verbatim>\<open>te_rct_verify\<close>), the opening of a revealed amount and the check of a multi-signature's parts are
  functions the definitions take, although their code is in the repository, and nothing is shown about them. Other
  logic that is left out is the forming of blocks in the enclave, the transaction managers and the pending values of
  \<^verbatim>\<open>src/consensus/service\<close>, the network state of \<^verbatim>\<open>src/ledger/sync\<close>, the verifier of \<^verbatim>\<open>src/light-client\<close>, and the stores of wallets and of
  the watcher. Within the modelled files, logging, metrics, debug snapshots,
  formatting and the opening of databases are left out, as are the iteration over all active minting
  configurations and failures of the disk and limits of LMDB such as that on the size of a key. Of the trees that
  the inspection tool for digests builds only completed ones are modelled. Liveness of consensus is not shown: it depends
  on timers and on the network, and it fails where a node panics as above.
\<close>

section \<open>Properties of runs\<close>

text \<open>
  C1. Agreement of nodes. Correct nodes run the code of the node on any sequence of proposals,
  message deliveries, timeouts and moves to a later slot; other nodes may send anything, but
  messages of correct nodes are not forged. If any two sets that satisfy the quorum sets of
  their correct members share a correct member, then two correct nodes that both report values
  for a slot index report the same values.
\<close>

theorem node_agreement:
  assumes "correct_network C qs vf cf nd recv sent" and "quorum_intersection C qs"
    and "a \<in> C" and "b \<in> C"
    and "get_externalized_values (nd a) i = Some (Some v)"
    and "get_externalized_values (nd b) i = Some (Some w)"
  shows "v = w"
  using assms by (rule nodes_agree)

theorem node_agreement_witness:
  "\<exists>v w. get_externalized_values (ex_node 1) 7 = Some (Some v) \<and>
     get_externalized_values (ex_node 2) 7 = Some (Some w) \<and> v = w"
  using node_agreement [OF ex_correct_network ex_quorum_intersection _ _ ex_node_values(1,2)] ex_node_values
  by simp

text \<open>
  C2. Agreement of slots. The same for one slot: two correct nodes whose slots both reach the
  externalize phase hold ballots with the same values.
\<close>

theorem slot_agreement:
  assumes "correct_nodes C C qs i vf cf st recv sent" and "quorum_intersection C qs"
    and "a \<in> C" and "b \<in> C"
    and "sl_phase (st a) = PhExternalize" and "sl_phase (st b) = PhExternalize"
  shows "b_X (sl_B (st a)) = b_X (sl_B (st b))"
  using assms by (rule slots_agree)

theorem slot_agreement_witness:
  "b_X (sl_B (ex_state 1)) = b_X (sl_B (ex_state 2)) \<and> b_X (sl_B (ex_state 1)) = [5]"
  using slot_agreement [OF ex_correct_nodes ex_quorum_intersection, of 1 2] ex_externalized by simp

text \<open>
  C3. Stability. A call on a reachable slot never moves the phase backwards, and once the slot is
  in the commit or externalize phase no call changes the values of its ballot.
\<close>

theorem slot_step_value_fixed:
  assumes "slot_run n q i f g s recv sent" and "event_ok e" and "slot_step a s e = Some (out, t)"
  shows "phase_rank (sl_phase s) \<le> phase_rank (sl_phase t) \<and>
    (sl_phase s = PhCommit \<or> sl_phase s = PhExternalize \<longrightarrow> b_X (sl_B t) = b_X (sl_B s))"
proof -
  have "slot_inv s recv" using slot_run_inv [OF assms(1)] by (simp add: run_inv_def)
  from call_ok_step(3) [OF slot_step_ok [OF assms(3) this assms(2)]] show ?thesis
    by (simp add: value_fixed_def committed_def)
qed

theorem slot_step_value_fixed_witness:
  "\<exists>out t. slot_step ex_ambient (ex_state 1) (Deliver (ex_recv 1)) = Some (out, t) \<and>
     sl_phase t = PhExternalize \<and> b_X (sl_B t) = b_X (sl_B (ex_state 1))"
proof -
  have "slot_step ex_ambient (ex_state 1) (Deliver (ex_recv 1)) \<noteq> None" by code_simp
  then obtain out t where s: "slot_step ex_ambient (ex_state 1) (Deliver (ex_recv 1)) = Some (out, t)" by auto
  have "slot_run 1 (ex_quorum_set 1) 7 ex_validity ex_combine (ex_state 1) (ex_recv 1) (ex_sent 1)"
    by (rule ex_slot_run) simp
  from slot_step_value_fixed [OF this _ s] ex_externalized(1) s show ?thesis
    by (cases "sl_phase t") auto
qed

text \<open>
  C4. Validity. Suppose the combining function maps values that pass the validity function to
  values that pass it. Then every value of the ballot of a reachable slot passes the validity
  function, in particular every value that the slot externalizes.
\<close>

theorem slot_values_valid:
  assumes "slot_run n q i f g s recv sent"
    and "\<forall>vs ws. (\<forall>v \<in> set vs. f v = Inr ()) \<longrightarrow> g vs = Inr ws \<longrightarrow> (\<forall>w \<in> set ws. f w = Inr ())"
    and "v \<in> set (b_X (sl_B s))"
  shows "f v = Inr ()"
proof -
  have "combine_in (valid_set f) g" using assms(2) by (fastforce simp: combine_in_def valid_set_def)
  from slot_run_values [OF assms(1) this] assms(3) show ?thesis by (auto simp: val_inv_def valid_set_def)
qed

theorem slot_values_valid_witness: "5 \<in> set (b_X (sl_B (ex_state 1))) \<and> ex_validity 5 = Inr ()"
  using slot_values_valid [OF ex_slot_run, of 1 5] ex_externalized(3) by (simp add: ex_combine_def)

text \<open>
  C10. Reading a decision. On a reachable node, asking for the values of a slot never aborts, and
  what it answers are the values of the ballot of a slot with that index that is in the
  externalize phase.
\<close>

theorem get_externalized_values_decided:
  assumes "node_run n q f g nd recv sent"
  shows "\<exists>r. get_externalized_values nd i = Some r \<and>
    (\<forall>vs. r = Some vs \<longrightarrow> (\<exists>s \<in> set (nd_externalized_slots nd).
       sl_index s = i \<and> sl_phase s = PhExternalize \<and> b_X (sl_B s) = vs))"
proof -
  obtain h where h: "node_inv n q f g h nd recv sent" using node_run_inv [OF assms] by blast
  note g = get_externalized_values_slot [OF h, of i]
  show ?thesis
  proof (cases "get_externalized_slot nd i")
    case None
    with g(1) show ?thesis by simp
  next
    case (Some s)
    then have "s \<in> set (nd_externalized_slots nd)"
      by (auto simp: get_externalized_slot_def find_Some_iff)
    with g(1) g(2) [OF Some] Some show ?thesis by auto
  qed
qed

theorem get_externalized_values_decided_witness:
  "get_externalized_values (ex_node 1) 7 = Some (Some [5]) \<and>
   (\<exists>s \<in> set (nd_externalized_slots (ex_node 1)). sl_phase s = PhExternalize \<and> b_X (sl_B s) = [5])"
  using get_externalized_values_decided [OF ex_node_run_run, of 1 7] ex_node_values(1) by auto

text \<open>
  C5. The certificate of a decision. When a reachable slot is in the externalize phase there is a
  set of nodes that contains the node and satisfies its quorum set, such that the node received
  from every other member a message whose own quorum set the set satisfies and that accepts the
  values of the ballot as committed.
\<close>

theorem externalize_certificate:
  assumes "slot_run n q i f g s recv sent" and "sl_phase s = PhExternalize"
  shows "\<exists>Q. n \<in> Q \<and> sat Q q \<and>
    (\<forall>k \<in> Q - {n}. \<exists>m \<in> set recv. sender_id m = k \<and> sat Q (msg_quorum_set m) \<and>
       accept_commit_range m (b_X (sl_B s)) \<noteq> None)"
  using slot_run_inv [OF assms(1)] assms(2) by (auto simp: run_inv_def commit_cert_def)

theorem externalize_certificate_witness:
  "\<exists>Q. 1 \<in> Q \<and> sat Q (ex_quorum_set 1) \<and>
    Q - {1} \<subseteq> {k. \<exists>m \<in> set (ex_recv 1). sender_id m = k \<and> accept_commit_range m [5] \<noteq> None}"
  using externalize_certificate [OF ex_slot_run ex_externalized(1)] ex_externalized(3) by fastforce

text \<open>
  C8. The invariant of a reachable slot. The values voted for and the values accepted nominated are
  disjoint and the confirmed ones are among the accepted ones; the messages stored are keyed by
  their sender, are not the node's own, are for this slot, passed validation and were received;
  the assertions of the current phase hold; and a nomination round is scheduled only while the
  slot nominates.
\<close>

theorem slot_invariant:
  assumes "slot_run n q i f g s recv sent"
  shows "sl_X s \<inter> sl_Y s = {} \<and> sl_Z s \<subseteq> sl_Y s \<and>
    (\<forall>k m. map_of (sl_M s) k = Some m \<longrightarrow>
       sender_id m = k \<and> k \<noteq> n \<and> msg_slot_index m = i \<and> validate m = Inr () \<and> m \<in> set recv) \<and>
    (prepare_phase_invariants s \<or> commit_phase_invariants s \<or> externalize_phase_invariants s) \<and>
    (sl_next_nominate_round_at s \<noteq> None \<longrightarrow> sl_phase s = PhNominatePrepare)"
proof -
  have "slot_inv s recv" "sl_node_id s = n" "sl_index s = i"
    using slot_run_inv [OF assms] by (auto simp: run_inv_def)
  then show ?thesis
    by (auto simp: slot_inv_def nom_inv_def store_ok_def M_inv_def stored_ok_def phase_inv_def round_timer_ok_def)
qed

theorem slot_invariant_witness:
  "sl_X (ex_state 1) \<inter> sl_Y (ex_state 1) = {} \<and> externalize_phase_invariants (ex_state 1)"
  using slot_invariant [OF ex_slot_run, of 1] ex_externalized(1)
  by (auto simp: prepare_phase_invariants_def commit_phase_invariants_def)

text \<open>
  C9. What a call sends. When a call on a reachable slot sends a message, the message carries the
  node, quorum set and index of the slot, passes validation, differs from the one sent before,
  is remembered as the last one sent, and is an externalize message exactly when the slot is in
  the externalize phase.
\<close>

theorem slot_step_sends:
  assumes "slot_run n q i f g s recv sent" and "event_ok e" and "slot_step a s e = Some (out, t)"
    and "m \<in> set out"
  shows "out = [m] \<and> sender_id m = n \<and> msg_quorum_set m = q \<and> msg_slot_index m = i \<and>
    validate m = Inr () \<and> sl_last_sent_msg t = Some m \<and>
    (\<forall>l. sl_last_sent_msg s = Some l \<longrightarrow> \<not> msg_eq m l) \<and>
    (sl_phase t = PhExternalize \<longleftrightarrow> (\<exists>p. topic m = Externalize p))"
proof -
  have s: "slot_inv s recv" "sl_node_id s = n" "sl_quorum_set s = q" "sl_index s = i"
    using slot_run_inv [OF assms(1)] by (auto simp: run_inv_def)
  note c = slot_step_ok [OF assms(3) s(1) assms(2)]
  have id: "same_identity s t" by (rule call_ok_step(2) [OF c])
  from c show ?thesis
  proof (cases rule: call_okE)
    case 1
    with assms(4) show ?thesis by simp
  next
    case (2 m')
    with assms(4) have "m' = m" by simp
    with 2 s id show ?thesis by (simp add: speaks_for_def same_identity_def)
  qed
qed

theorem slot_step_sends_witness:
  "\<exists>s m t. slot_new ex_ambient 1 (ex_quorum_set 1) 7 ex_validity ex_combine = Some s \<and>
     slot_step ex_ambient s (Propose {5}) = Some ([m], t) \<and> validate m = Inr () \<and> sl_last_sent_msg t = Some m"
proof -
  have "(case slot_new ex_ambient 1 (ex_quorum_set 1) 7 ex_validity ex_combine of None \<Rightarrow> False
    | Some s \<Rightarrow> (case slot_step ex_ambient s (Propose {5}) of Some ([m], t) \<Rightarrow> True | _ \<Rightarrow> False))"
    by code_simp
  then obtain s m t where s: "slot_new ex_ambient 1 (ex_quorum_set 1) 7 ex_validity ex_combine = Some s"
    and t: "slot_step ex_ambient s (Propose {5}) = Some ([m], t)"
    by (auto split: option.split_asm prod.split_asm list.split_asm)
  from slot_step_sends [OF slot_run.new [OF s] _ t, of m] s t show ?thesis by simp
qed

text \<open>
  The order of slots. The externalized slots a reachable node keeps are in strictly increasing
  order of their index, all are below the index of the current slot, and all are decided.
\<close>

theorem node_slots_ordered:
  assumes "node_run n q f g nd recv sent"
  shows "sorted_wrt (<) (map sl_index (nd_externalized_slots nd)) \<and>
    (\<forall>s \<in> set (nd_externalized_slots nd). sl_index s < current_slot_index nd \<and> sl_phase s = PhExternalize)"
proof -
  obtain h where "node_inv n q f g h nd recv sent" using node_run_inv [OF assms] by blast
  then show ?thesis
    by (auto simp: node_inv_def sorted_wrt_append current_slot_index_def decision_def split: if_split_asm)
qed

theorem node_slots_ordered_witness:
  "\<exists>s. nd_externalized_slots (ex_node 1) = [s] \<and> sl_index s < 8 \<and> sl_phase s = PhExternalize"
proof -
  have "length (nd_externalized_slots (ex_node 1)) = 1" by code_simp
  then obtain s where "nd_externalized_slots (ex_node 1) = [s]" by (auto simp: length_Suc_conv)
  with node_slots_ordered [OF ex_node_run_run, of 1] ex_node_values(3) show ?thesis by simp
qed

text \<open>
  Routing. Grouping the messages by slot index, as the node does before it hands them to its
  slots, gives every slot exactly its messages in the order in which they came, and has no group
  for an index without messages.
\<close>

theorem group_by_slot_filter:
  "map_of (group_by_slot ms []) i =
     (if \<exists>m \<in> set ms. msg_slot_index m = i then Some (filter (\<lambda>m. msg_slot_index m = i) ms) else None)"
  by (simp add: group_by_slot_lookup Let_def filter_empty_conv)

text \<open>
  The queue of externalized slots after a push keeps the newest slots, at most as many as the
  limit of the node.
\<close>

theorem push_externalized_slot_newest:
  "nd_externalized_slots (push_externalized_slot slot nd) =
     drop (Suc (length (nd_externalized_slots nd)) - nd_max_externalized_slots nd)
       (nd_externalized_slots nd @ [slot])"
  by (simp only: push_externalized_slot_def trim_externalized_drop) simp

text \<open>
  C16. The cascade of nomination. Let a slot that nominates receive a batch of messages, after which its store
  shows that the nodes of a blocking set accept a value as nominated. Then the nomination phase does not abort on the
  slot with that store and ends with the value accepted and no longer among the values voted for; and when the handler
  returns, whether it stored anything or not, the slot has accepted the value. No vote of its own is needed.
\<close>

theorem accepted_nominated_cascade:
  assumes run: "slot_run n q i f g s recv sent" and "sl_phase s = PhNominatePrepare"
    and "is_valid q" and "qs_size q < 2 ^ 32" and "blocking q S" and "S \<noteq> {}"
    and st: "store_msgs s (msgs_for_slot s msgs) = (stored, s1)"
    and "\<forall>k \<in> S. \<exists>m. map_of (sl_M s1) k = Some m \<and> supports_value accepts_nominated m v"
  shows "(\<exists>u. do_nominate_phase a s1 = Some u \<and> v \<in> sl_Y u - sl_X u) \<and>
    (\<forall>out t. slot_step a s (Deliver msgs) = Some (out, t) \<longrightarrow> v \<in> sl_Y t - sl_X t)"
proof (intro conjI allI impI)
  have s: "slot_inv s recv" "sl_quorum_set s = q" using slot_run_inv [OF run] by (auto simp: run_inv_def)
  note s1 = store_msgs_inv [OF st s(1)]
  have q1: "sl_quorum_set s1 = q" using s1(4) s(2) by (simp add: same_identity_def)
  obtain u where u: "do_nominate_phase a s1 = Some u"
    using do_nominate_phase_returns s1(2,5) assms(2) unfolding nom_inv_def by metis
  have "blocking_accepts u v"
    using assms(5,6,8) q1 do_nominate_phase_frame(1) [OF u] by (auto simp: blocking_accepts_def same_inputs_def)
  with nominate_follows [OF u s1(1)] q1 assms(3,4) have "v \<in> sl_Y u" by (simp add: follows_blocking_def)
  moreover have "nom_inv u" using s1(2) u by (rule nom_inv_nominate)
  ultimately show "\<exists>u. do_nominate_phase a s1 = Some u \<and> v \<in> sl_Y u - sl_X u" using u by (auto simp: nom_inv_def)
  fix out t assume t: "slot_step a s (Deliver msgs) = Some (out, t)"
  have inv: "slot_inv t (recv @ msgs)" "same_identity s t"
    using call_ok_step(1,2) [OF slot_step_ok [OF t s(1)]] by simp_all
  have "sl_M t = sl_M s1" using deliver_store [OF t s(1) st] .
  then have "blocking_accepts t v"
    using assms(5,6,8) s(2) inv(2) by (auto simp: blocking_accepts_def same_identity_def)
  with slot_step_follows [OF t s(1) slot_run_follows [OF run assms(3,4,2)] assms(2)] s(2) assms(3,4)
  have "v \<in> sl_Y t" by (simp add: follows_blocking_def)
  with inv(1) show "v \<in> sl_Y t - sl_X t" by (auto simp: slot_inv_def nom_inv_def)
qed

theorem accepted_nominated_cascade_witness:
  "\<exists>s out t. slot_new ex_ambient 0 (late_quorum_set 0) 7 ex_validity ex_combine = Some s \<and>
     slot_step ex_ambient s (Deliver late_nominations) = Some (out, t) \<and> 5 \<in> sl_Y t"
proof -
  obtain s out t where s: "slot_new ex_ambient 0 (late_quorum_set 0) 7 ex_validity ex_combine = Some s"
    and t: "slot_step ex_ambient s (Deliver late_nominations) = Some (out, t)"
    and M: "sl_phase s = PhNominatePrepare" "late_nominated (sl_M (snd (store_msgs s (msgs_for_slot s late_nominations))))"
    by (rule late_nomination)
  obtain b s1 where st: "store_msgs s (msgs_for_slot s late_nominations) = (b, s1)"
    by (cases "store_msgs s (msgs_for_slot s late_nominations)")
  from M(2) st have k: "\<forall>k \<in> {1, 2}. \<exists>m. map_of (sl_M s1) k = Some m \<and> supports_value accepts_nominated m 5"
    by (auto simp: late_nominated_def split: option.split_asm)
  have q: "is_valid (late_quorum_set 0)" "qs_size (late_quorum_set 0) < 2 ^ 32"
    by (simp_all add: late_quorum_set_def new_with_node_ids_def qs_new_def)
  have "blocking (late_quorum_set 0) {1, 2}" by (simp add: blocking_iff late_sat)
  from accepted_nominated_cascade [OF slot_run.new [OF s] M(1) q this _ st k] t have "5 \<in> sl_Y t" by blast
  with s t show ?thesis by blast
qed

text \<open>
  C19. A node that is late aborts, with every node correct. In a network of four correct nodes with quorum
  intersection, nodes 1, 2 and 3 reach counter 2 of a ballot they have voted to commit at counter 1, and node 0 has
  heard nothing yet. Delivering to it the last messages that nodes 1 and 2 sent aborts it. The reason is not a call that
  runs forever: the first pass of the prepare phase moves node 0 to counter 2 and calls the phase again, the inner call
  returns in the commit phase, and the outer call then asserts that the slot is still in a prepare phase.
\<close>

theorem late_node_aborts:
  "quorum_intersection {0, 1, 2, 3} late_quorum_set \<and>
   correct_network {0, 1, 2, 3} late_quorum_set (\<lambda>_. ex_validity) (\<lambda>_. ex_combine) late_node late_recv late_sent \<and>
   list_all (\<lambda>m. sender_id m \<in> {1, 2} \<and> m \<in> set (late_sent (sender_id m))) late_ballots \<and>
   node_step ex_ambient (late_node 0) (NDeliver late_ballots) = None \<and>
   (\<exists>s u t. late_entry = Some s \<and> prepare_pass ex_ambient s = Some (Rerun u) \<and>
      do_prepare_phase ex_ambient u = Some t \<and> sl_phase t = PhCommit)"
proof -
  have "\<exists>s u t. late_entry = Some s \<and> prepare_pass ex_ambient s = Some (Rerun u) \<and>
      do_prepare_phase ex_ambient u = Some t \<and> sl_phase t = PhCommit"
    using late_inner_commits by (auto split: option.split_asm flow.split_asm)
  with late_quorum_intersection late_correct_network late_ballots_sent late_step show ?thesis by blast
qed

end
